(* ===== verification/Gosh_Prelude.thy ===== *)
theory Gosh_Prelude
  imports Main "HOL-Library.Word"
begin

unbundle bit_operations_syntax

text \<open>
  Shared vocabulary of the development: the byte and machine-word types of the Go sources,
  the values of Go's \<^verbatim>\<open>error\<close> interface the packages return, the big-endian accessors of
  \<^verbatim>\<open>encoding/binary\<close>, saturating time arithmetic of package \<^verbatim>\<open>time\<close>, the generic
  codec contract and the list and word lemmas the components share.

  Conventions: a Go byte slice is a \<open>byte list\<close> (a nil slice and an empty one are both
  \<open>[]\<close>; where the source distinguishes them an \<open>option\<close> does); a fallible function
  returns \<open>error + 'a\<close> with \<open>Inl\<close> the error; instants and durations are nanoseconds.
\<close>

section \<open>Types\<close>

type_synonym byte = "8 word"
type_synonym bytes = "byte list"
type_synonym u16 = "16 word"
type_synonym u32 = "32 word"
type_synonym u64 = "64 word"
type_synonym time = int
type_synonym duration = int

text \<open>The error values the packages create, one constructor per \<^verbatim>\<open>errors.New\<close> site.\<close>

datatype error =
    ErrTruncated            \<comment> \<open>wire: truncated message\<close>
  | ErrVarintOverflow       \<comment> \<open>wire: varint overflow\<close>
  | ErrFieldZero            \<comment> \<open>wire: field number zero\<close>
  | ErrWireType int         \<comment> \<open>wire: unsupported wire type\<close>
  | ErrProtocolOverflow     \<comment> \<open>wire: protocol version overflow\<close>
  | ErrKeyLength            \<comment> \<open>ocb: key must be 16 bytes\<close>
  | ErrNonceLength          \<comment> \<open>ocb: nonce must be 12 bytes\<close>
  | ErrOpen                 \<comment> \<open>ocb: message authentication failed\<close>
  | ErrBadKeyLength nat     \<comment> \<open>crypto: key must be 22 base64 characters\<close>
  | ErrBadBase64            \<comment> \<open>crypto: invalid base64 key\<close>
  | ErrNonCanonical         \<comment> \<open>crypto: non-canonical base64 key\<close>
  | ErrShortDatagram        \<comment> \<open>crypto: datagram too short\<close>
  | ErrShortPacket          \<comment> \<open>network: packet too short for timestamps\<close>
  | ErrDirection            \<comment> \<open>network: server sent client-direction packet\<close>
  | ErrDialTimeout          \<comment> \<open>network: dial timed out\<close>
  | ErrOldSequence          \<comment> \<open>network: stale sequence number\<close>
  | ErrShortFragment        \<comment> \<open>transport: fragment shorter than header\<close>
  | ErrBadPayload           \<comment> \<open>transport: the zlib reader failed\<close>
  | ErrTooLarge             \<comment> \<open>transport: decompressed payload too large\<close>
  | ErrBadInstruction error \<comment> \<open>transport: bad instruction\<close>
  | ErrVersionMismatch      \<comment> \<open>transport: mosh protocol version mismatch\<close>
  | ErrBadHostMessage error \<comment> \<open>client: bad host message\<close>
  | ErrOS nat               \<comment> \<open>an error value handed up by the operating system\<close>
  | ErrJoin error error     \<comment> \<open>\<^verbatim>\<open>errors.Join\<close>\<close>
  | ErrCanceled             \<comment> \<open>\<^verbatim>\<open>context.Canceled\<close>\<close>
  | ErrPanic                \<comment> \<open>a run-time panic: index out of range, division by zero\<close>

section \<open>Big-endian integers (\<^verbatim>\<open>encoding/binary\<close>)\<close>

definition PutUint16 :: "u16 \<Rightarrow> bytes" where
  "PutUint16 v = [ucast (drop_bit 8 v), ucast v]"

fun Uint16 :: "bytes \<Rightarrow> u16" where
  "Uint16 (a # b # _) = ucast b OR push_bit 8 (ucast a)"
| "Uint16 _ = 0"

definition PutUint64 :: "u64 \<Rightarrow> bytes" where
  "PutUint64 v =
     [ucast (drop_bit 56 v), ucast (drop_bit 48 v), ucast (drop_bit 40 v), ucast (drop_bit 32 v),
      ucast (drop_bit 24 v), ucast (drop_bit 16 v), ucast (drop_bit 8 v), ucast v]"

fun Uint64 :: "bytes \<Rightarrow> u64" where
  "Uint64 (b0 # b1 # b2 # b3 # b4 # b5 # b6 # b7 # _) =
     ucast b7 OR push_bit 8 (ucast b6) OR push_bit 16 (ucast b5) OR push_bit 24 (ucast b4) OR
     push_bit 32 (ucast b3) OR push_bit 40 (ucast b2) OR push_bit 48 (ucast b1) OR
     push_bit 56 (ucast b0)"
| "Uint64 _ = 0"

section \<open>Time\<close>

text \<open>
  An instant is the number of nanoseconds since Go's zero time (January 1, year 1), so the
  zero \<^verbatim>\<open>time.Time\<close> is \<open>0\<close>; \<^verbatim>\<open>Sub\<close> saturates at the bounds of an \<^verbatim>\<open>int64\<close> duration.
\<close>

definition millisecond :: duration where
  "millisecond = 1000000"

definition second :: duration where
  "second = 1000000000"

definition minDuration :: duration where
  "minDuration = - (2 ^ 63)"

definition maxDuration :: duration where
  "maxDuration = 2 ^ 63 - 1"

definition timeSub :: "time \<Rightarrow> time \<Rightarrow> duration" where
  "timeSub t u = max minDuration (min maxDuration (t - u))"

text \<open>Seconds from the zero time to the Unix epoch, and \<^verbatim>\<open>Time.UnixMilli\<close>.\<close>

definition unixEpoch :: time where
  "unixEpoch = 62135596800 * 1000000000"

definition UnixMilli :: "time \<Rightarrow> int" where
  "UnixMilli t = (t - unixEpoch) div 1000000"

text \<open>Go's integer division truncates; \<^verbatim>\<open>Duration.Milliseconds\<close> is such a quotient.\<close>

definition tdiv :: "int \<Rightarrow> int \<Rightarrow> int" where
  "tdiv a b = (if 0 \<le> a then a div b else - ((- a) div b))"

definition Milliseconds :: "duration \<Rightarrow> int" where
  "Milliseconds d = tdiv d 1000000"

section \<open>The codec contract\<close>

text \<open>
  An encoder and a decoder for the values that satisfy \<open>valid\<close>. Every wire format of the
  client (instruction, fragment, packet, sealed datagram) is an instance.
\<close>

locale codec =
  fixes enc :: "'a \<Rightarrow> 'b"
    and dec :: "'b \<Rightarrow> 'e + 'a"
    and valid :: "'a \<Rightarrow> bool"
  assumes dec_enc: "valid x \<Longrightarrow> dec (enc x) = Inr x"
begin

lemma enc_inj:
  assumes "valid x" "valid y" "enc x = enc y"
  shows "x = y"
proof -
  have "Inr x = dec (enc y)" using dec_enc [OF assms(1)] assms(3) by simp
  also have "\<dots> = Inr y" by (rule dec_enc [OF assms(2)])
  finally show ?thesis by simp
qed

lemma enc_inj_on: "inj_on enc {x. valid x}"
  by (rule inj_onI) (rule enc_inj, simp_all)

lemma dec_enc_map: "(\<And>x. x \<in> set xs \<Longrightarrow> valid x) \<Longrightarrow> map (dec \<circ> enc) xs = map Inr xs"
  by (simp add: dec_enc)

end

text \<open>
  A codec that is onto: what the decoder accepts is the encoding of what it returns, so no
  two inputs decode to the same value.
\<close>

locale canonical_codec = codec +
  assumes enc_dec: "dec b = Inr x \<Longrightarrow> enc x = b"
    and dec_valid: "dec b = Inr x \<Longrightarrow> valid x"
begin

lemma dec_inj: "dec b = Inr x \<Longrightarrow> dec c = Inr x \<Longrightarrow> b = c"
  using enc_dec [of b x] enc_dec [of c x] by simp

lemma dec_iff: "dec b = Inr x \<longleftrightarrow> valid x \<and> b = enc x"
  using dec_enc enc_dec dec_valid by blast

end

section \<open>Collections and shared lemmas\<close>

named_theorems go_time "durations and instants unfolded"
named_theorems framing "equations that peel one frame off an encoded byte list"

declare millisecond_def [go_time] second_def [go_time] minDuration_def [go_time]
  maxDuration_def [go_time] timeSub_def [go_time]

lemma length_PutUint16 [simp]: "length (PutUint16 v) = 2"
  by (simp add: PutUint16_def)

lemma length_PutUint64 [simp]: "length (PutUint64 v) = 8"
  by (simp add: PutUint64_def)

lemma PutUint16_neq_Nil [simp]: "PutUint16 v \<noteq> []" "PutUint64 w \<noteq> []"
  by (simp_all add: PutUint16_def PutUint64_def)

lemma Uint16_PutUint16 [simp, framing]: "Uint16 (PutUint16 v @ rest) = v"
  by (simp add: PutUint16_def) (rule bit_word_eqI, auto simp: bit_simps)

text \<open>The byte of a word at bit position \<open>k\<close>, put back at that position.\<close>

lemma bit_byte_at:
  "bit (push_bit k (ucast (ucast (drop_bit k v) :: byte)) :: u64) n
     \<longleftrightarrow> k \<le> n \<and> n < k + 8 \<and> bit (v :: u64) n"
  using bit_imp_le_length [of v n] by (auto simp: bit_simps)

lemma bit_byte_low: "bit (ucast (ucast v :: byte) :: u64) n \<longleftrightarrow> n < 8 \<and> bit (v :: u64) n"
  by (auto simp: bit_simps)

lemma Uint64_PutUint64 [simp, framing]: "Uint64 (PutUint64 v @ rest) = v"
  unfolding PutUint64_def append.simps Uint64.simps
proof (rule bit_word_eqI)
  fix n :: nat
  assume "n < LENGTH(64)"
  then have "n < 64" by simp
  then show "bit (ucast (ucast v :: byte) OR push_bit 8 (ucast (ucast (drop_bit 8 v) :: byte)) OR
      push_bit 16 (ucast (ucast (drop_bit 16 v) :: byte)) OR
      push_bit 24 (ucast (ucast (drop_bit 24 v) :: byte)) OR
      push_bit 32 (ucast (ucast (drop_bit 32 v) :: byte)) OR
      push_bit 40 (ucast (ucast (drop_bit 40 v) :: byte)) OR
      push_bit 48 (ucast (ucast (drop_bit 48 v) :: byte)) OR
      push_bit 56 (ucast (ucast (drop_bit 56 v) :: byte)) :: u64) n = bit v n"
    unfolding bit_or_iff bit_byte_at bit_byte_low by (cases "bit v n") (simp_all, arith)
qed

lemma Uint16_PutUint16_id [simp]: "Uint16 (PutUint16 v) = v"
  using Uint16_PutUint16 [of v "[]"] by simp

lemma Uint64_PutUint64_id [simp]: "Uint64 (PutUint64 v) = v"
  using Uint64_PutUint64 [of v "[]"] by simp

lemma bit_byte_beyond: "8 \<le> n \<Longrightarrow> \<not> bit (w :: byte) n"
  using bit_imp_le_length [of w n] by auto

lemma PutUint16_Uint16:
  assumes "length b = 2"
  shows "PutUint16 (Uint16 b) = b"
proof -
  obtain x y where "b = [x, y]"
    using assms by (auto simp: numeral_2_eq_2 length_Suc_conv)
  then show ?thesis
    by (auto simp: PutUint16_def intro!: bit_word_eqI simp: bit_simps bit_byte_beyond)
qed

lemma length_8_cases:
  assumes "length b = 8"
  obtains b0 b1 b2 b3 b4 b5 b6 b7 where "b = [b0, b1, b2, b3, b4, b5, b6, b7]"
  using assms by (auto simp: numeral_eq_Suc length_Suc_conv)

lemma PutUint64_Uint64:
  assumes "length b = 8"
  shows "PutUint64 (Uint64 b) = b"
proof -
  obtain b0 b1 b2 b3 b4 b5 b6 b7 where "b = [b0, b1, b2, b3, b4, b5, b6, b7]"
    using assms by (rule length_8_cases)
  then show ?thesis
    by (auto simp: PutUint64_def intro!: bit_word_eqI simp: bit_simps bit_byte_beyond)
qed

lemma unat_drop_bit: "unat (drop_bit k w) = unat w div 2 ^ k"
  unfolding unat_drop_bit_eq by (rule drop_bit_eq_div)

lemma drop_bit_small:
  fixes w :: "'a :: len word"
  assumes "unat w < 2 ^ k"
  shows "drop_bit k w = 0"
proof -
  have "unat (drop_bit k w) = 0"
    using assms by (simp add: unat_drop_bit)
  then show ?thesis by (simp only: unat_eq_zero)
qed

lemma bit_beyond:
  fixes w :: "'a :: len word"
  assumes "unat w < 2 ^ k" "k \<le> n"
  shows "\<not> bit w n"
proof -
  have "drop_bit n w = 0"
    using assms by (intro drop_bit_small) (meson less_le_trans one_le_numeral power_increasing)
  then show ?thesis by (simp add: bit_iff_odd_drop_bit)
qed

lemma append_split:
  assumes "xs @ ys = zs @ ts"
  obtains (right) us where "zs = xs @ us" "ys = us @ ts"
    | (left) us where "xs = zs @ us" "ts = us @ ys" "us \<noteq> []"
proof -
  from assms obtain us where "xs = zs @ us \<and> us @ ys = ts \<or> xs @ us = zs \<and> ys = us @ ts"
    unfolding append_eq_append_conv2 by blast
  then show ?thesis
    using right [of "[]"] right [of us] left [of us] by (cases us) auto
qed

end
