(* ===== verification/Aes.thy ===== *)
theory Aes
  imports Gosh_Prelude
begin

unbundle bit_operations_syntax

text \<open>
  The block cipher behind \<^verbatim>\<open>crypto/aes\<close> as the sources use it: AES with a 16-byte key
  (FIPS 197), the \<^verbatim>\<open>Encrypt\<close> and \<^verbatim>\<open>Decrypt\<close> of one 16-byte block. It is the instance on
  which the contract \<open>block_cipher\<close>, all that package ocb relies on, is discharged.
\<close>

section \<open>The contract of a block cipher\<close>

text \<open>\<^verbatim>\<open>cipher.Block\<close>: the two operations of the interface the client calls.\<close>

record Block =
  Encrypt :: "bytes \<Rightarrow> bytes"
  Decrypt :: "bytes \<Rightarrow> bytes"

locale block_cipher =
  fixes blk :: Block
  assumes length_Encrypt: "length (Encrypt blk b) = 16"
    and length_Decrypt: "length (Decrypt blk b) = 16"
    and Decrypt_Encrypt: "length b = 16 \<Longrightarrow> Decrypt blk (Encrypt blk b) = b"
    and Encrypt_Decrypt: "length b = 16 \<Longrightarrow> Encrypt blk (Decrypt blk b) = b"
begin

lemma Encrypt_inj: "length a = 16 \<Longrightarrow> length b = 16 \<Longrightarrow> Encrypt blk a = Encrypt blk b \<Longrightarrow> a = b"
  by (metis Decrypt_Encrypt)

lemma Encrypt_surj: "length b = 16 \<Longrightarrow> \<exists>a. length a = 16 \<and> Encrypt blk a = b"
  using Encrypt_Decrypt [of b] length_Decrypt [of b] by blast

end

section \<open>The round transformations\<close>

definition sbox_table :: "nat list list" where
  "sbox_table =
   [[99, 124, 119, 123, 242, 107, 111, 197, 48, 1, 103, 43, 254, 215, 171, 118],
    [202, 130, 201, 125, 250, 89, 71, 240, 173, 212, 162, 175, 156, 164, 114, 192],
    [183, 253, 147, 38, 54, 63, 247, 204, 52, 165, 229, 241, 113, 216, 49, 21],
    [4, 199, 35, 195, 24, 150, 5, 154, 7, 18, 128, 226, 235, 39, 178, 117],
    [9, 131, 44, 26, 27, 110, 90, 160, 82, 59, 214, 179, 41, 227, 47, 132],
    [83, 209, 0, 237, 32, 252, 177, 91, 106, 203, 190, 57, 74, 76, 88, 207],
    [208, 239, 170, 251, 67, 77, 51, 133, 69, 249, 2, 127, 80, 60, 159, 168],
    [81, 163, 64, 143, 146, 157, 56, 245, 188, 182, 218, 33, 16, 255, 243, 210],
    [205, 12, 19, 236, 95, 151, 68, 23, 196, 167, 126, 61, 100, 93, 25, 115],
    [96, 129, 79, 220, 34, 42, 144, 136, 70, 238, 184, 20, 222, 94, 11, 219],
    [224, 50, 58, 10, 73, 6, 36, 92, 194, 211, 172, 98, 145, 149, 228, 121],
    [231, 200, 55, 109, 141, 213, 78, 169, 108, 86, 244, 234, 101, 122, 174, 8],
    [186, 120, 37, 46, 28, 166, 180, 198, 232, 221, 116, 31, 75, 189, 139, 138],
    [112, 62, 181, 102, 72, 3, 246, 14, 97, 53, 87, 185, 134, 193, 29, 158],
    [225, 248, 152, 17, 105, 217, 142, 148, 155, 30, 135, 233, 206, 85, 40, 223],
    [140, 161, 137, 13, 191, 230, 66, 104, 65, 153, 45, 15, 176, 84, 187, 22]]"

definition inv_sbox_table :: "nat list list" where
  "inv_sbox_table =
   [[82, 9, 106, 213, 48, 54, 165, 56, 191, 64, 163, 158, 129, 243, 215, 251],
    [124, 227, 57, 130, 155, 47, 255, 135, 52, 142, 67, 68, 196, 222, 233, 203],
    [84, 123, 148, 50, 166, 194, 35, 61, 238, 76, 149, 11, 66, 250, 195, 78],
    [8, 46, 161, 102, 40, 217, 36, 178, 118, 91, 162, 73, 109, 139, 209, 37],
    [114, 248, 246, 100, 134, 104, 152, 22, 212, 164, 92, 204, 93, 101, 182, 146],
    [108, 112, 72, 80, 253, 237, 185, 218, 94, 21, 70, 87, 167, 141, 157, 132],
    [144, 216, 171, 0, 140, 188, 211, 10, 247, 228, 88, 5, 184, 179, 69, 6],
    [208, 44, 30, 143, 202, 63, 15, 2, 193, 175, 189, 3, 1, 19, 138, 107],
    [58, 145, 17, 65, 79, 103, 220, 234, 151, 242, 207, 206, 240, 180, 230, 115],
    [150, 172, 116, 34, 231, 173, 53, 133, 226, 249, 55, 232, 28, 117, 223, 110],
    [71, 241, 26, 113, 29, 41, 197, 137, 111, 183, 98, 14, 170, 24, 190, 27],
    [252, 86, 62, 75, 198, 210, 121, 32, 154, 219, 192, 254, 120, 205, 90, 244],
    [31, 221, 168, 51, 136, 7, 199, 49, 177, 18, 16, 89, 39, 128, 236, 95],
    [96, 81, 127, 169, 25, 181, 74, 13, 45, 229, 122, 159, 147, 201, 156, 239],
    [160, 224, 59, 77, 174, 42, 245, 176, 200, 235, 187, 60, 131, 83, 153, 97],
    [23, 43, 4, 126, 186, 119, 214, 38, 225, 105, 20, 99, 85, 33, 12, 125]]"

definition lookup :: "nat list list \<Rightarrow> nat \<Rightarrow> nat" where
  "lookup t i = t ! (i div 16) ! (i mod 16)"

definition SubByte :: "byte \<Rightarrow> byte" where
  "SubByte b = word_of_nat (lookup sbox_table (unat b))"

definition InvSubByte :: "byte \<Rightarrow> byte" where
  "InvSubByte b = word_of_nat (lookup inv_sbox_table (unat b))"

definition xtime :: "byte \<Rightarrow> byte" where
  "xtime b = push_bit 1 b XOR (if bit b 7 then 0x1B else 0)"

text \<open>The products with the coefficients of the two column matrices.\<close>

definition mul2 :: "byte \<Rightarrow> byte" where "mul2 b = xtime b"
definition mul3 :: "byte \<Rightarrow> byte" where "mul3 b = xtime b XOR b"
definition mul9 :: "byte \<Rightarrow> byte" where "mul9 b = xtime (xtime (xtime b)) XOR b"
definition mul11 :: "byte \<Rightarrow> byte" where "mul11 b = xtime (xtime (xtime b)) XOR xtime b XOR b"
definition mul13 :: "byte \<Rightarrow> byte" where "mul13 b = xtime (xtime (xtime b)) XOR xtime (xtime b) XOR b"
definition mul14 :: "byte \<Rightarrow> byte" where
  "mul14 b = xtime (xtime (xtime b)) XOR xtime (xtime b) XOR xtime b"

text \<open>The state is the block read column by column: byte \<open>4 * c + r\<close> is row \<open>r\<close> of column \<open>c\<close>.\<close>

definition ShiftRows :: "bytes \<Rightarrow> bytes" where
  "ShiftRows s = map (\<lambda>i. s ! i) [0, 5, 10, 15, 4, 9, 14, 3, 8, 13, 2, 7, 12, 1, 6, 11]"

definition InvShiftRows :: "bytes \<Rightarrow> bytes" where
  "InvShiftRows s = map (\<lambda>i. s ! i) [0, 13, 10, 7, 4, 1, 14, 11, 8, 5, 2, 15, 12, 9, 6, 3]"

definition MixColumn :: "byte \<Rightarrow> byte \<Rightarrow> byte \<Rightarrow> byte \<Rightarrow> bytes" where
  "MixColumn a b c d =
     [mul2 a XOR mul3 b XOR c XOR d, a XOR mul2 b XOR mul3 c XOR d,
      a XOR b XOR mul2 c XOR mul3 d, mul3 a XOR b XOR c XOR mul2 d]"

definition InvMixColumn :: "byte \<Rightarrow> byte \<Rightarrow> byte \<Rightarrow> byte \<Rightarrow> bytes" where
  "InvMixColumn a b c d =
     [mul14 a XOR mul11 b XOR mul13 c XOR mul9 d, mul9 a XOR mul14 b XOR mul11 c XOR mul13 d,
      mul13 a XOR mul9 b XOR mul14 c XOR mul11 d, mul11 a XOR mul13 b XOR mul9 c XOR mul14 d]"

definition on_columns :: "(byte \<Rightarrow> byte \<Rightarrow> byte \<Rightarrow> byte \<Rightarrow> bytes) \<Rightarrow> bytes \<Rightarrow> bytes" where
  "on_columns m s =
     m (s ! 0) (s ! 1) (s ! 2) (s ! 3) @ m (s ! 4) (s ! 5) (s ! 6) (s ! 7) @
     m (s ! 8) (s ! 9) (s ! 10) (s ! 11) @ m (s ! 12) (s ! 13) (s ! 14) (s ! 15)"

definition AddRoundKey :: "bytes \<Rightarrow> bytes \<Rightarrow> bytes" where
  "AddRoundKey k s = map (\<lambda>i. s ! i XOR k ! i) [0..<16]"

section \<open>Key expansion\<close>

text \<open>The round key of the next round, given the round constant.\<close>

definition nextRoundKey :: "byte \<Rightarrow> bytes \<Rightarrow> bytes" where
  "nextRoundKey rc k =
     (let w0 = [k ! 0 XOR SubByte (k ! 13) XOR rc, k ! 1 XOR SubByte (k ! 14),
                k ! 2 XOR SubByte (k ! 15), k ! 3 XOR SubByte (k ! 12)];
          w1 = map2 (XOR) w0 (take 4 (drop 4 k));
          w2 = map2 (XOR) w1 (take 4 (drop 8 k));
          w3 = map2 (XOR) w2 (take 4 (drop 12 k))
      in w0 @ w1 @ w2 @ w3)"

definition rcon :: "byte list" where
  "rcon = [0x01, 0x02, 0x04, 0x08, 0x10, 0x20, 0x40, 0x80, 0x1B, 0x36]"

fun roundKeys :: "byte list \<Rightarrow> bytes \<Rightarrow> bytes list" where
  "roundKeys [] k = [k]"
| "roundKeys (rc # rcs) k = k # roundKeys rcs (nextRoundKey rc k)"

definition KeyExpansion :: "bytes \<Rightarrow> bytes list" where
  "KeyExpansion key = roundKeys rcon key"

section \<open>The cipher\<close>

definition round_fwd :: "bytes \<Rightarrow> bytes \<Rightarrow> bytes" where
  "round_fwd k s = AddRoundKey k (on_columns MixColumn (ShiftRows (map SubByte s)))"

definition round_inv :: "bytes \<Rightarrow> bytes \<Rightarrow> bytes" where
  "round_inv k s = map InvSubByte (InvShiftRows (on_columns InvMixColumn (AddRoundKey k s)))"

definition final_fwd :: "bytes \<Rightarrow> bytes \<Rightarrow> bytes" where
  "final_fwd k s = AddRoundKey k (ShiftRows (map SubByte s))"

definition final_inv :: "bytes \<Rightarrow> bytes \<Rightarrow> bytes" where
  "final_inv k s = map InvSubByte (InvShiftRows (AddRoundKey k s))"

definition aesEncrypt :: "bytes \<Rightarrow> bytes \<Rightarrow> bytes" where
  "aesEncrypt key b =
     (let w = KeyExpansion key
      in final_fwd (w ! 10) (fold round_fwd (take 9 (drop 1 w)) (AddRoundKey (w ! 0) b)))"

definition aesDecrypt :: "bytes \<Rightarrow> bytes \<Rightarrow> bytes" where
  "aesDecrypt key b =
     (let w = KeyExpansion key
      in AddRoundKey (w ! 0) (foldr round_inv (take 9 (drop 1 w)) (final_inv (w ! 10) b)))"

definition aesBlock :: "bytes \<Rightarrow> Block" where
  "aesBlock key = \<lparr>Encrypt = aesEncrypt key, Decrypt = aesDecrypt key\<rparr>"

section \<open>Inversion\<close>

lemma tables_inverse:
  "map (map (lookup inv_sbox_table)) sbox_table = map (\<lambda>r. [16 * r..<16 * r + 16]) [0..<16]"
  "map (map (lookup sbox_table)) inv_sbox_table = map (\<lambda>r. [16 * r..<16 * r + 16]) [0..<16]"
  by (simp_all add: lookup_def inv_sbox_table_def sbox_table_def upt_rec)

lemma tables_shape:
  "length sbox_table = 16" "list_all (\<lambda>r. length r = 16 \<and> list_all (\<lambda>v. v < 256) r) sbox_table"
  "length inv_sbox_table = 16" "list_all (\<lambda>r. length r = 16 \<and> list_all (\<lambda>v. v < 256) r) inv_sbox_table"
  by (simp_all add: inv_sbox_table_def sbox_table_def)

lemma lookup_map:
  assumes "length t = 16" "list_all (\<lambda>r. length r = 16 \<and> list_all (\<lambda>v. v < 256) r) t" "i < 256"
  shows "map (map f) t ! (i div 16) ! (i mod 16) = f (lookup t i)" "lookup t i < 256"
proof -
  have i: "i div 16 < length t" using assms(1,3) by auto
  then have r: "length (t ! (i div 16)) = 16 \<and> list_all (\<lambda>v. v < 256) (t ! (i div 16))"
    using assms(2) by (auto simp: list_all_length)
  show "map (map f) t ! (i div 16) ! (i mod 16) = f (lookup t i)"
    using i r by (simp add: lookup_def)
  show "lookup t i < 256" using r by (simp add: lookup_def list_all_length)
qed

lemma lookup_inverse:
  assumes "i < 256"
  shows "lookup inv_sbox_table (lookup sbox_table i) = i" "lookup sbox_table (lookup inv_sbox_table i) = i"
  using lookup_map(1) [OF tables_shape(1,2) assms, of "lookup inv_sbox_table"]
    lookup_map(1) [OF tables_shape(3,4) assms, of "lookup sbox_table"] assms
  by (simp_all add: tables_inverse)

lemma SubByte_inverse [simp]: "InvSubByte (SubByte b) = b" "SubByte (InvSubByte b) = b"
proof -
  have b: "unat b < 256" using unsigned_less [of b, where 'a = nat] by simp
  have "lookup sbox_table (unat b) < 256" "lookup inv_sbox_table (unat b) < 256"
    using lookup_map(2) [OF tables_shape(1,2) b] lookup_map(2) [OF tables_shape(3,4) b] by auto
  then show "InvSubByte (SubByte b) = b" "SubByte (InvSubByte b) = b"
    by (simp_all add: SubByte_def InvSubByte_def unsigned_of_nat take_bit_nat_eq_self lookup_inverse [OF b])
qed

lemma xtime_linear: "xtime (a XOR b) = xtime a XOR xtime b"
  unfolding xtime_def by (rule bit_word_eqI) (auto simp: bit_simps)

lemmas muls = mul2_def mul3_def mul9_def mul11_def mul13_def mul14_def

lemma MixColumn_inverse:
  "(case MixColumn a b c d of [p, q, r, s] \<Rightarrow> InvMixColumn p q r s) = [a, b, c, d]"
  "(case InvMixColumn a b c d of [p, q, r, s] \<Rightarrow> MixColumn p q r s) = [a, b, c, d]"
  by (simp_all add: MixColumn_def InvMixColumn_def muls xtime_linear ac_simps)

lemma length_16_cases:
  assumes "length b = 16"
  obtains s0 s1 s2 s3 s4 s5 s6 s7 s8 s9 s10 s11 s12 s13 s14 s15
  where "b = [s0, s1, s2, s3, s4, s5, s6, s7, s8, s9, s10, s11, s12, s13, s14, s15]"
  using assms by (auto simp: numeral_eq_Suc length_Suc_conv)


lemma length_AddRoundKey [simp]: "length (AddRoundKey k s) = 16"
  by (simp add: AddRoundKey_def)

lemma length_ShiftRows [simp]: "length (ShiftRows s) = 16" "length (InvShiftRows s) = 16"
  by (simp_all add: ShiftRows_def InvShiftRows_def)

lemma length_columns [simp]:
  "length (on_columns MixColumn s) = 16" "length (on_columns InvMixColumn s) = 16"
  by (simp_all add: on_columns_def MixColumn_def InvMixColumn_def)

lemma AddRoundKey_inverse [simp]: "length s = 16 \<Longrightarrow> AddRoundKey k (AddRoundKey k s) = s"
  by (auto simp: AddRoundKey_def xor.assoc intro: nth_equalityI)

lemma ShiftRows_inverse [simp]:
  assumes "length s = 16"
  shows "InvShiftRows (ShiftRows s) = s" "ShiftRows (InvShiftRows s) = s"
  using assms by (rule length_16_cases, simp add: ShiftRows_def InvShiftRows_def)+

lemma columns_inverse [simp]:
  assumes "length s = 16"
  shows "on_columns InvMixColumn (on_columns MixColumn s) = s"
    "on_columns MixColumn (on_columns InvMixColumn s) = s"
  by (rule length_16_cases [OF assms], insert MixColumn_inverse,
      simp add: on_columns_def MixColumn_def InvMixColumn_def)+

lemma map_SubByte_inverse [simp]:
  "map InvSubByte (map SubByte s) = s" "map SubByte (map InvSubByte s) = s"
  by (simp_all add: comp_def)

lemma length_rounds [simp]:
  "length (round_fwd k s) = 16" "length (round_inv k s) = 16"
  "length (final_fwd k s) = 16" "length (final_inv k s) = 16"
  by (simp_all add: round_fwd_def round_inv_def final_fwd_def final_inv_def)

lemma rounds_inverse [simp]:
  assumes "length s = 16"
  shows "round_inv k (round_fwd k s) = s" "round_fwd k (round_inv k s) = s"
    "final_inv k (final_fwd k s) = s" "final_fwd k (final_inv k s) = s"
  using assms
  by (simp_all add: round_fwd_def round_inv_def final_fwd_def final_inv_def del: map_map)

lemma fold_rounds [simp]:
  "length s = 16 \<Longrightarrow> length (fold round_fwd ks s) = 16"
  "length s = 16 \<Longrightarrow> length (foldr round_inv ks s) = 16"
  "length s = 16 \<Longrightarrow> foldr round_inv ks (fold round_fwd ks s) = s"
  "length s = 16 \<Longrightarrow> fold round_fwd ks (foldr round_inv ks s) = s"
  by (induction ks arbitrary: s) simp_all

interpretation aes: block_cipher "aesBlock key" for key
  by unfold_locales (simp_all add: aesBlock_def aesEncrypt_def aesDecrypt_def Let_def)

end
