(* ===== verification/Ocb.thy ===== *)
theory Ocb
  imports Aes
begin

unbundle bit_operations_syntax

text \<open>
  \<^verbatim>\<open>internal/ocb/ocb.go\<close>: OCB3 (RFC 7253) over a block cipher, with the subset mosh uses
  (96-bit nonces, 128-bit tags, no associated data).

  A \<^verbatim>\<open>[16]byte\<close> is a list of 16 bytes. The array \<open>out\<close> that the loops fill from the left is the
  list of what they have written. An index outside \<open>l\<close> panics in the source: the loops return
  \<open>None\<close> there and \<open>Seal\<close>, \<open>Open\<close> the value \<open>ErrPanic\<close>.
\<close>

section \<open>The cipher\<close>

definition TagLen :: nat where
  "TagLen = 16"

definition NonceLen :: nat where
  "NonceLen = 12"

definition blockSize :: nat where
  "blockSize = 16"

record Cipher =
  block :: Block
  lStar :: bytes
  lDollar :: bytes
  l :: "bytes list"

text \<open>The loop of \<^verbatim>\<open>double\<close> runs from the last byte to the first: the recursion returns the
  carry out of the bytes to the right.\<close>

fun double_loop :: "bytes \<Rightarrow> bytes \<times> byte" where
  "double_loop [] = ([], 0)"
| "double_loop (b # bs) =
     (let (dst, carry) = double_loop bs in ((push_bit 1 b OR carry) # dst, drop_bit 7 b))"

definition double :: "bytes \<Rightarrow> bytes" where
  "double src =
     (let (dst, carry) = double_loop src
      in dst[blockSize - 1 := dst ! (blockSize - 1) XOR carry * 0x87])"

definition xorBlock :: "bytes \<Rightarrow> bytes \<Rightarrow> bytes" where
  "xorBlock a b = map2 (XOR) a b"

fun doubles :: "nat \<Rightarrow> bytes \<Rightarrow> bytes list" where
  "doubles 0 b = []"
| "doubles (Suc n) b = double b # doubles n (double b)"

definition newCipher :: "bytes \<Rightarrow> Cipher" where
  "newCipher key =
     (let blk = aesBlock key;
          lstar = Encrypt blk (replicate blockSize 0);
          ldollar = double lstar
      in \<lparr>block = blk, lStar = lstar, lDollar = ldollar, l = doubles 32 ldollar\<rparr>)"

definition New :: "bytes \<Rightarrow> error + Cipher" where
  "New key = (if length key \<noteq> 16 then Inl ErrKeyLength else Inr (newCipher key))"

definition stretchBytes :: "bytes \<Rightarrow> bytes" where
  "stretchBytes ktop = ktop @ map (\<lambda>i. ktop ! i XOR ktop ! (i + 1)) [0..<8]"

text \<open>The 16 bytes that start at bit \<open>bottom\<close> of the stretched block.\<close>

definition bitWindow :: "bytes \<Rightarrow> nat \<Rightarrow> bytes" where
  "bitWindow stretch bottom =
     (let byteOff = bottom div 8;
          bitOff = bottom mod 8
      in if bitOff = 0 then take blockSize (drop byteOff stretch)
         else map (\<lambda>i. push_bit bitOff (stretch ! (byteOff + i))
                         OR drop_bit (8 - bitOff) (stretch ! (byteOff + i + 1))) [0..<blockSize])"

definition initialOffset :: "Cipher \<Rightarrow> bytes \<Rightarrow> bytes" where
  "initialOffset c nonce =
     (let n = (replicate (blockSize - length nonce) 0)[blockSize - 1 - length nonce := 0x01] @ nonce;
          bottom = unat (n ! (blockSize - 1) AND 0x3F);
          n = n[blockSize - 1 := n ! (blockSize - 1) AND NOT 0x3F];
          ktop = Encrypt (block c) n
      in bitWindow (stretchBytes ktop) bottom)"

text \<open>\<^verbatim>\<open>bits.TrailingZeros\<close> of a positive number.\<close>

fun TrailingZeros :: "nat \<Rightarrow> nat" where
  "TrailingZeros n = (if n = 0 \<or> odd n then 0 else Suc (TrailingZeros (n div 2)))"

declare TrailingZeros.simps [simp del]

section \<open>Seal\<close>

text \<open>\<open>n\<close> iterations from index \<open>i\<close> on, with the offset, the checksum and the output so far.\<close>

fun sealBlocks :: "Cipher \<Rightarrow> bytes \<Rightarrow> nat \<Rightarrow> nat \<Rightarrow> bytes \<Rightarrow> bytes \<Rightarrow> bytes \<Rightarrow> (bytes \<times> bytes \<times> bytes) option" where
  "sealBlocks c plaintext i 0 offset checksum out = Some (offset, checksum, out)"
| "sealBlocks c plaintext i (Suc n) offset checksum out =
     (if TrailingZeros (i + 1) < length (l c) then
        let p = take blockSize (drop (i * blockSize) plaintext);
            offset = xorBlock offset (l c ! TrailingZeros (i + 1));
            tmp = Encrypt (block c) (xorBlock p offset)
        in sealBlocks c plaintext (i + 1) n offset (xorBlock checksum p) (out @ xorBlock tmp offset)
      else None)"

text \<open>The bytes of an incomplete last block, xored into the front of the checksum, and the
  \<^verbatim>\<open>0x80\<close> that ends them.\<close>

definition padChecksum :: "bytes \<Rightarrow> bytes \<Rightarrow> bytes" where
  "padChecksum checksum rest =
     (let cs = map2 (XOR) checksum rest @ drop (length rest) checksum
      in cs[length rest := cs ! length rest XOR 0x80])"

definition tagOf :: "Cipher \<Rightarrow> bytes \<Rightarrow> bytes \<Rightarrow> bytes" where
  "tagOf c checksum offset = Encrypt (block c) (xorBlock (xorBlock checksum offset) (lDollar c))"

definition Seal :: "Cipher \<Rightarrow> bytes \<Rightarrow> bytes \<Rightarrow> bytes \<Rightarrow> error + bytes" where
  "Seal c dst nonce plaintext =
     (if length nonce \<noteq> NonceLen then Inl ErrNonceLength
      else
        let full = length plaintext div blockSize
        in case sealBlocks c plaintext 0 full (initialOffset c nonce) (replicate blockSize 0) [] of
             None \<Rightarrow> Inl ErrPanic
           | Some (offset, checksum, out) \<Rightarrow>
               let rest = drop (full * blockSize) plaintext
               in if rest \<noteq> [] then
                    let offset = xorBlock offset (lStar c);
                        pad = Encrypt (block c) offset
                    in Inr (dst @ out @ map2 (XOR) rest pad @ tagOf c (padChecksum checksum rest) offset)
                  else Inr (dst @ out @ tagOf c checksum offset))"

section \<open>Open\<close>

fun openBlocks :: "Cipher \<Rightarrow> bytes \<Rightarrow> nat \<Rightarrow> nat \<Rightarrow> bytes \<Rightarrow> bytes \<Rightarrow> bytes \<Rightarrow> (bytes \<times> bytes \<times> bytes) option" where
  "openBlocks c body i 0 offset checksum out = Some (offset, checksum, out)"
| "openBlocks c body i (Suc n) offset checksum out =
     (if TrailingZeros (i + 1) < length (l c) then
        let ct = take blockSize (drop (i * blockSize) body);
            offset = xorBlock offset (l c ! TrailingZeros (i + 1));
            tmp = Decrypt (block c) (xorBlock ct offset);
            p = xorBlock tmp offset
        in openBlocks c body (i + 1) n offset (xorBlock checksum p) (out @ p)
      else None)"

definition Open :: "Cipher \<Rightarrow> bytes \<Rightarrow> bytes \<Rightarrow> bytes \<Rightarrow> error + bytes" where
  "Open c dst nonce ciphertext =
     (if length nonce \<noteq> NonceLen then Inl ErrNonceLength
      else if length ciphertext < TagLen then Inl ErrOpen
      else
        let body = take (length ciphertext - TagLen) ciphertext;
            tag = drop (length ciphertext - TagLen) ciphertext;
            full = length body div blockSize
        in case openBlocks c body 0 full (initialOffset c nonce) (replicate blockSize 0) [] of
             None \<Rightarrow> Inl ErrPanic
           | Some (offset, checksum, out) \<Rightarrow>
               let rest = drop (full * blockSize) body
               in if rest \<noteq> [] then
                    let offset = xorBlock offset (lStar c);
                        pad = Encrypt (block c) offset;
                        p = map2 (XOR) rest pad
                    in if tagOf c (padChecksum checksum p) offset \<noteq> tag then Inl ErrOpen
                       else Inr (dst @ out @ p)
                  else if tagOf c checksum offset \<noteq> tag then Inl ErrOpen
                  else Inr (dst @ out))"

section \<open>Lengths and xor\<close>

lemma length_double_loop: "length (fst (double_loop b)) = length b"
  by (induction b) (simp_all add: case_prod_beta)

lemma length_double [simp]: "length (double b) = length b"
  using length_double_loop [of b] by (simp add: double_def case_prod_beta)

lemma length_doubles [simp]: "length (doubles n b) = n"
  by (induction n arbitrary: b) simp_all

lemma length_in_doubles: "d \<in> set (doubles n b) \<Longrightarrow> length d = length b"
  by (induction n arbitrary: b) auto

lemma nth_doubles: "k < n \<Longrightarrow> doubles n b ! k = (double ^^ Suc k) b"
  by (induction n arbitrary: b k) (auto simp: nth_Cons funpow_swap1 split: nat.splits)

lemma length_funpow_double [simp]: "length ((double ^^ n) b) = length b"
  by (induction n) simp_all

lemma length_xorBlock [simp]: "length (xorBlock a b) = min (length a) (length b)"
  by (simp add: xorBlock_def)

lemma xorBlock_cancel [simp]: "length a \<le> length b \<Longrightarrow> xorBlock (xorBlock a b) b = a"
  by (auto simp: xorBlock_def xor.assoc intro: nth_equalityI)

lemma xorBlock_commute: "xorBlock a b = xorBlock b a"
  by (auto simp: xorBlock_def xor.commute intro: nth_equalityI)

lemma map2_xor_cancel:
  fixes a b :: bytes
  assumes "length a \<le> length b"
  shows "map2 (XOR) (map2 (XOR) a b) b = a"
  using xorBlock_cancel [OF assms] by (simp add: xorBlock_def)

lemma length_padChecksum [simp]: "length rest \<le> length cs \<Longrightarrow> length (padChecksum cs rest) = length cs"
  by (simp add: padChecksum_def Let_def)

lemma length_stretchBytes [simp]: "length (stretchBytes k) = length k + 8"
  by (simp add: stretchBytes_def)

lemma length_bitWindow [simp]:
  assumes "length s = 24" "bottom < 64"
  shows "length (bitWindow s bottom) = 16"
proof -
  have "bottom div 8 < 8" using assms(2) by auto
  then show ?thesis using assms(1) by (simp add: bitWindow_def Let_def blockSize_def)
qed

lemma unat_low6: "unat (w AND 0x3F :: byte) < 64"
proof -
  have "w AND 0x3F \<le> (0x3F :: byte)" by (rule word_and_le1)
  then show ?thesis by (simp add: word_le_nat_alt)
qed

section \<open>The table of doubled offsets\<close>

lemma TrailingZeros_power: "0 < n \<Longrightarrow> 2 ^ TrailingZeros n dvd n"
proof (induction n rule: TrailingZeros.induct)
  case (1 n)
  show ?case
  proof (cases "odd n")
    case False
    then have "2 ^ TrailingZeros (n div 2) dvd n div 2" using 1 by auto
    then have "2 * 2 ^ TrailingZeros (n div 2) dvd n"
      using False by (metis dvd_mult_div_cancel mult_dvd_mono dvd_refl)
    then show ?thesis using False 1(2) by (subst TrailingZeros.simps) simp
  qed (subst TrailingZeros.simps, simp)
qed

lemma TrailingZeros_odd: "0 < n \<Longrightarrow> odd (n div 2 ^ TrailingZeros n)"
proof (induction n rule: TrailingZeros.induct)
  case (1 n)
  show ?case
  proof (cases "odd n")
    case False
    then have "odd (n div 2 div 2 ^ TrailingZeros (n div 2))" using 1 by auto
    then show ?thesis using False 1(2) by (subst TrailingZeros.simps) (simp add: div_mult2_eq)
  qed (subst TrailingZeros.simps, simp)
qed

lemma TrailingZeros_less:
  assumes "0 < n" "n < 2 ^ k"
  shows "TrailingZeros n < k"
proof (rule ccontr)
  assume "\<not> TrailingZeros n < k"
  then have "(2 :: nat) ^ k \<le> 2 ^ TrailingZeros n" by simp
  also have "\<dots> \<le> n" using TrailingZeros_power [OF assms(1)] assms(1) by (rule dvd_imp_le)
  finally show False using assms(2) by simp
qed

lemma TrailingZeros_exp: "TrailingZeros (2 ^ k) = k"
  by (induction k) (subst TrailingZeros.simps, simp)+


section \<open>Sealing and opening are inverse\<close>

lemma block_split:
  assumes "take (16 * Suc n) (drop (16 * i) xs) = b @ bs" "length b = 16"
  shows "take 16 (drop (i * 16) xs) = b" "take (16 * n) (drop (16 * (i + 1)) xs) = bs"
proof -
  have "take 16 (take (16 * Suc n) (drop (16 * i) xs)) = b" using assms by simp
  then show "take 16 (drop (i * 16) xs) = b" by (simp add: ac_simps)
  have "drop 16 (take (16 * Suc n) (drop (16 * i) xs)) = bs" using assms by simp
  then show "take (16 * n) (drop (16 * (i + 1)) xs) = bs" by (simp add: drop_take ac_simps)
qed

locale ocb_cipher = block_cipher "block c" for c :: Cipher +
  assumes length_lStar: "length (lStar c) = 16"
    and length_lDollar: "length (lDollar c) = 16"
    and length_l: "length (l c) = 32"
    and length_nth_l: "k < 32 \<Longrightarrow> length (l c ! k) = 16"
begin

lemma length_initialOffset [simp]: "length (initialOffset c nonce) = 16"
  using unat_low6 by (simp add: initialOffset_def Let_def length_Encrypt)

lemma length_tagOf [simp]: "length (tagOf c cs off) = 16"
  by (simp add: tagOf_def length_Encrypt)

lemmas sizes = blockSize_def length_l length_nth_l length_Encrypt length_Decrypt

text \<open>What the block loop writes, and that the other loop takes it back.\<close>

lemma sealBlocks_total:
  assumes "i + n < 2 ^ 32" "(i + n) * 16 \<le> length p" "length off = 16" "length cs = 16"
  shows "\<exists>off' cs' ct. (\<forall>acc. sealBlocks c p i n off cs acc = Some (off', cs', acc @ ct)) \<and>
    length ct = 16 * n \<and> length off' = 16 \<and> length cs' = 16 \<and>
    (\<forall>body acc. take (16 * n) (drop (16 * i) body) = ct \<longrightarrow>
       openBlocks c body i n off cs acc = Some (off', cs', acc @ take (16 * n) (drop (16 * i) p)))"
  using assms
proof (induction n arbitrary: i off cs)
  case (Suc n)
  let ?p = "take 16 (drop (i * 16) p)"
  let ?off = "xorBlock off (l c ! TrailingZeros (i + 1))"
  let ?ct = "xorBlock (Encrypt (block c) (xorBlock ?p ?off)) ?off"
  have tz: "TrailingZeros (Suc i) < 32" using Suc.prems(1) by (intro TrailingZeros_less) auto
  have len: "length ?p = 16" "length ?off = 16" "length ?ct = 16"
    using Suc.prems tz by (auto simp: sizes)
  obtain off' cs' ct where
    seal: "\<forall>acc. sealBlocks c p (i + 1) n ?off (xorBlock cs ?p) acc = Some (off', cs', acc @ ct)"
    and ct: "length ct = 16 * n" "length off' = 16" "length cs' = 16"
    and opn: "\<forall>body acc. take (16 * n) (drop (16 * (i + 1)) body) = ct \<longrightarrow>
       openBlocks c body (i + 1) n ?off (xorBlock cs ?p) acc
         = Some (off', cs', acc @ take (16 * n) (drop (16 * (i + 1)) p))"
    using Suc.IH [of "i + 1" ?off "xorBlock cs ?p"] Suc.prems len by (auto simp: algebra_simps)
  have "sealBlocks c p i (Suc n) off cs acc = Some (off', cs', acc @ ?ct @ ct)" for acc
    using seal tz by (simp add: Let_def sizes)
  moreover have "openBlocks c body i (Suc n) off cs acc
      = Some (off', cs', acc @ take (16 * Suc n) (drop (16 * i) p))"
    if b: "take (16 * Suc n) (drop (16 * i) body) = ?ct @ ct" for body acc
  proof -
    have "take 16 (drop (i * 16) body) = ?ct" "take (16 * n) (drop (16 * (i + 1)) body) = ct"
      using block_split [OF b len(3)] by blast+
    moreover have "take (16 * Suc n) (drop (16 * i) p) = ?p @ take (16 * n) (drop (16 * (i + 1)) p)"
      by (simp add: take_add algebra_simps)
    ultimately show ?thesis
      using opn tz len by (simp add: Let_def sizes Decrypt_Encrypt)
  qed
  ultimately show ?case using ct len by (intro exI [of _ off'] exI [of _ cs'] exI [of _ "?ct @ ct"]) simp
qed simp


lemma openBlocks_total:
  assumes "i + n < 2 ^ 32" "(i + n) * 16 \<le> length body" "length off = 16" "length cs = 16"
  shows "\<exists>off' cs' pt. (\<forall>acc. openBlocks c body i n off cs acc = Some (off', cs', acc @ pt)) \<and>
    length pt = 16 * n \<and> length off' = 16 \<and> length cs' = 16 \<and>
    (\<forall>p acc. take (16 * n) (drop (16 * i) p) = pt \<longrightarrow>
       sealBlocks c p i n off cs acc = Some (off', cs', acc @ take (16 * n) (drop (16 * i) body)))"
  using assms
proof (induction n arbitrary: i off cs)
  case (Suc n)
  let ?b = "take 16 (drop (i * 16) body)"
  let ?off = "xorBlock off (l c ! TrailingZeros (i + 1))"
  let ?p = "xorBlock (Decrypt (block c) (xorBlock ?b ?off)) ?off"
  have tz: "TrailingZeros (Suc i) < 32" using Suc.prems(1) by (intro TrailingZeros_less) auto
  have len: "length ?b = 16" "length ?off = 16" "length ?p = 16"
    using Suc.prems tz by (auto simp: sizes)
  obtain off' cs' pt where
    opn: "\<forall>acc. openBlocks c body (i + 1) n ?off (xorBlock cs ?p) acc = Some (off', cs', acc @ pt)"
    and pt: "length pt = 16 * n" "length off' = 16" "length cs' = 16"
    and seal: "\<forall>p acc. take (16 * n) (drop (16 * (i + 1)) p) = pt \<longrightarrow>
       sealBlocks c p (i + 1) n ?off (xorBlock cs ?p) acc
         = Some (off', cs', acc @ take (16 * n) (drop (16 * (i + 1)) body))"
    using Suc.IH [of "i + 1" ?off "xorBlock cs ?p"] Suc.prems len by (auto simp: algebra_simps)
  have "openBlocks c body i (Suc n) off cs acc = Some (off', cs', acc @ ?p @ pt)" for acc
    using opn tz by (simp add: Let_def sizes)
  moreover have "sealBlocks c p i (Suc n) off cs acc
      = Some (off', cs', acc @ take (16 * Suc n) (drop (16 * i) body))"
    if b: "take (16 * Suc n) (drop (16 * i) p) = ?p @ pt" for p acc
  proof -
    have "take 16 (drop (i * 16) p) = ?p" "take (16 * n) (drop (16 * (i + 1)) p) = pt"
      using block_split [OF b len(3)] by blast+
    moreover have "take (16 * Suc n) (drop (16 * i) body) = ?b @ take (16 * n) (drop (16 * (i + 1)) body)"
      by (simp add: take_add algebra_simps)
    ultimately show ?thesis
      using seal tz len by (simp add: Let_def sizes Encrypt_Decrypt)
  qed
  ultimately show ?case using pt len by (intro exI [of _ off'] exI [of _ cs'] exI [of _ "?p @ pt"]) simp
qed simp


text \<open>The end of \<open>Open\<close>, on the body and the tag.\<close>

lemma Open_append:
  assumes "length nonce = 12" "length tag = 16"
  shows "Open c dst nonce (body @ tag) =
    (case openBlocks c body 0 (length body div 16) (initialOffset c nonce) (replicate 16 0) [] of
       None \<Rightarrow> Inl ErrPanic
     | Some (off, cs, out) \<Rightarrow>
         (if drop (length body div 16 * 16) body = [] then
            if tagOf c cs off \<noteq> tag then Inl ErrOpen else Inr (dst @ out)
          else
            let off = xorBlock off (lStar c);
                p = map2 (XOR) (drop (length body div 16 * 16) body) (Encrypt (block c) off)
            in if tagOf c (padChecksum cs p) off \<noteq> tag then Inl ErrOpen else Inr (dst @ out @ p)))"
  using assms unfolding Open_def NonceLen_def blockSize_def TagLen_def
  by (simp add: Let_def split: option.split prod.split)

lemma Open_Seal:
  assumes "length nonce = 12" "length p div 16 < 2 ^ 32"
  shows "\<exists>ct. (\<forall>dst. Seal c dst nonce p = Inr (dst @ ct)) \<and> length ct = length p + 16 \<and>
    (\<forall>dst. Open c dst nonce ct = Inr (dst @ p))"
proof -
  define n where "n = length p div 16"
  define rest where "rest = drop (n * 16) p"
  have n: "n * 16 \<le> length p" "length rest < 16" "length rest = length p - n * 16"
    by (auto simp: n_def rest_def)
  obtain off cs ct where
    seal: "\<forall>acc. sealBlocks c p 0 n (initialOffset c nonce) (replicate 16 0) acc = Some (off, cs, acc @ ct)"
    and len: "length ct = 16 * n" "length off = 16" "length cs = 16"
    and opn: "\<forall>body acc. take (16 * n) (drop (16 * 0) body) = ct \<longrightarrow>
       openBlocks c body 0 n (initialOffset c nonce) (replicate 16 0) acc
         = Some (off, cs, acc @ take (16 * n) (drop (16 * 0) p))"
    using sealBlocks_total [of 0 n p "initialOffset c nonce" "replicate 16 0"] assms n
    by (auto simp: n_def [symmetric])
  define off' where "off' = xorBlock off (lStar c)"
  define r where "r = map2 (XOR) rest (Encrypt (block c) off')"
  have r: "length r = length rest" "map2 (XOR) r (Encrypt (block c) off') = rest"
    using n(2) map2_xor_cancel [of rest "Encrypt (block c) off'"] by (simp_all add: r_def length_Encrypt)
  define tag where "tag = (if rest = [] then tagOf c cs off else tagOf c (padChecksum cs rest) off')"
  have tag: "length tag = 16" by (simp add: tag_def)
  have "Seal c dst nonce p = Inr (dst @ ct @ r @ tag)" for dst
    using seal assms(1)
    by (auto simp: Seal_def NonceLen_def blockSize_def n_def [symmetric] rest_def [symmetric]
        off'_def [symmetric] r_def tag_def Let_def)
  moreover have body: "length (ct @ r) div 16 = n" "drop (n * 16) (ct @ r) = r"
    using n len r by (simp_all add: ac_simps)
  have "openBlocks c (ct @ r) 0 n (initialOffset c nonce) (replicate 16 0) []
      = Some (off, cs, take (n * 16) p)"
    using opn len by (simp add: ac_simps)
  then have "Open c dst nonce ((ct @ r) @ tag) = Inr (dst @ take (n * 16) p @ rest)" for dst
    unfolding Open_append [OF assms(1) tag] body
    using r by (cases "rest = []") (auto simp: tag_def off'_def [symmetric] Let_def)
  then have "Open c dst nonce (ct @ r @ tag) = Inr (dst @ p)" for dst
    by (simp add: rest_def)
  ultimately show ?thesis
    using len r tag n by (intro exI [of _ "ct @ r @ tag"]) simp
qed

lemma blocks_panic:
  assumes "i < 2 ^ 32" "2 ^ 32 \<le> i + n"
  shows "sealBlocks c p i n off cs acc = None \<and> openBlocks c p i n off cs acc = None"
  using assms
proof (induction n arbitrary: i off cs acc)
  case (Suc n)
  have "TrailingZeros (i + 1) = 32" if "\<not> i + 1 < 2 ^ 32"
    using that Suc.prems TrailingZeros_exp [of 32] by (metis Suc_eq_plus1 Suc_lessI)
  then have "i + 1 < 2 ^ 32" if "TrailingZeros (i + 1) < 32" using that by fastforce
  then show ?case
    using Suc.IH [of "i + 1"] Suc.prems by (simp add: length_l Let_def)
qed simp

lemma Seal_Open:
  assumes "Open c dst nonce ct = Inr q"
  shows "\<exists>p. q = dst @ p \<and> length nonce = 12 \<and> length p + 16 = length ct \<and>
    length p div 16 < 2 ^ 32 \<and> (\<forall>dst. Seal c dst nonce p = Inr (dst @ ct))"
proof -
  have nonce: "length nonce = 12" and "16 \<le> length ct"
    using assms by (auto simp: Open_def NonceLen_def TagLen_def split: if_splits)
  then obtain body tag where ct: "ct = body @ tag" and tag: "length tag = 16"
    by (metis append_take_drop_id diff_diff_cancel length_drop)
  define n where "n = length body div 16"
  define rest where "rest = drop (n * 16) body"
  have n: "n * 16 \<le> length body" "length rest < 16" "length rest = length body - n * 16"
    by (auto simp: n_def rest_def)
  have small: "n < 2 ^ 32"
  proof (rule ccontr)
    assume "\<not> n < 2 ^ 32"
    then show False
      using assms blocks_panic [of 0 n body]
      by (simp add: ct Open_append [OF nonce tag] n_def [symmetric])
  qed
  then obtain off cs pt where
    opn: "\<forall>acc. openBlocks c body 0 n (initialOffset c nonce) (replicate 16 0) acc = Some (off, cs, acc @ pt)"
    and len: "length pt = 16 * n" "length off = 16" "length cs = 16"
    and seal: "\<forall>p acc. take (16 * n) (drop (16 * 0) p) = pt \<longrightarrow>
       sealBlocks c p 0 n (initialOffset c nonce) (replicate 16 0) acc
         = Some (off, cs, acc @ take (16 * n) (drop (16 * 0) body))"
    using openBlocks_total [of 0 n body "initialOffset c nonce" "replicate 16 0"] n by auto
  define off' where "off' = xorBlock off (lStar c)"
  define r where "r = map2 (XOR) rest (Encrypt (block c) off')"
  have r: "length r = length rest" "map2 (XOR) r (Encrypt (block c) off') = rest"
    using n(2) map2_xor_cancel [of rest "Encrypt (block c) off'"] by (simp_all add: r_def length_Encrypt)
  have q: "q = dst @ pt @ r \<and> tag = (if rest = [] then tagOf c cs off else tagOf c (padChecksum cs r) off')"
    using assms opn
    by (auto simp: ct Open_append [OF nonce tag] n_def [symmetric] rest_def [symmetric] off'_def [symmetric]
        Let_def r_def split: if_splits)
  have p: "length (pt @ r) div 16 = n" "drop (n * 16) (pt @ r) = r"
    using n len r by (simp_all add: ac_simps)
  have "sealBlocks c (pt @ r) 0 n (initialOffset c nonce) (replicate 16 0) [] = Some (off, cs, take (n * 16) body)"
    using seal len by (simp add: ac_simps)
  then have "Seal c dst' nonce (pt @ r) = Inr (dst' @ take (n * 16) body @ rest @ tag)" for dst'
    using q r nonce p
    by (cases "rest = []") (auto simp: Seal_def NonceLen_def blockSize_def off'_def [symmetric] Let_def)
  then have "Seal c dst' nonce (pt @ r) = Inr (dst' @ ct)" for dst'
    by (simp add: ct rest_def)
  then show ?thesis
    using q nonce len r n small tag p by (intro exI [of _ "pt @ r"]) (simp add: ct)
qed

lemma Seal_length:
  assumes "Seal c dst nonce p = Inr x"
  shows "length dst + length p \<le> length x"
proof -
  have nonce: "length nonce = 12" using assms by (auto simp: Seal_def NonceLen_def split: if_splits)
  have "length p div 16 < 2 ^ 32"
  proof (rule ccontr)
    assume "\<not> length p div 16 < 2 ^ 32"
    then show False
      using assms blocks_panic [of 0 "length p div 16" p] nonce
      by (simp add: Seal_def NonceLen_def blockSize_def)
  qed
  then show ?thesis using Open_Seal [OF nonce] assms by fastforce
qed

lemma Open_outcomes:
  "(Open c dst nonce ct = Inl ErrNonceLength \<longleftrightarrow> length nonce \<noteq> NonceLen) \<and>
   (length nonce = NonceLen \<and> length ct < TagLen \<longrightarrow> Open c dst nonce ct = Inl ErrOpen) \<and>
   (Open c dst nonce ct = Inl ErrPanic \<longleftrightarrow>
      length nonce = NonceLen \<and> TagLen \<le> length ct \<and> 2 ^ 32 \<le> (length ct - TagLen) div blockSize) \<and>
   (\<forall>e. Open c dst nonce ct = Inl e \<longrightarrow> e \<in> {ErrNonceLength, ErrOpen, ErrPanic})"
proof (cases "length nonce = NonceLen \<and> TagLen \<le> length ct")
  case False
  then show ?thesis by (auto simp: Open_def)
next
  case True
  then obtain body tag where ct: "ct = body @ tag" and tag: "length tag = 16"
    by (metis TagLen_def append_take_drop_id diff_diff_cancel length_drop)
  have n: "length nonce = 12" using True by (simp add: NonceLen_def)
  let ?n = "length body div 16"
  show ?thesis
  proof (cases "?n < 2 ^ 32")
    case False
    then show ?thesis
      using blocks_panic [of 0 ?n] True tag
      by (auto simp: ct Open_append [OF n tag] TagLen_def blockSize_def)
  next
    case small: True
    then obtain o' cs pt where
      "openBlocks c body 0 ?n (initialOffset c nonce) (replicate 16 0) [] = Some (o', cs, pt)"
      using openBlocks_total [of 0 ?n body "initialOffset c nonce" "replicate 16 0"] by auto
    then show ?thesis
      using small True tag
      by (auto simp: ct Open_append [OF n tag] TagLen_def blockSize_def Let_def)
  qed
qed

end

interpretation ocb: ocb_cipher "newCipher key" for key
proof -
  have "length (Encrypt (aesBlock key) b) = 16" for b by (rule aes.length_Encrypt)
  then show "ocb_cipher (newCipher key)"
    by unfold_locales (auto simp: newCipher_def Let_def aes.Decrypt_Encrypt aes.Encrypt_Decrypt
        aes.length_Decrypt nth_doubles)
qed


section \<open>The bit-level specification\<close>

text \<open>A block as a number, most significant byte first, and as a list of bits.\<close>

fun blockVal :: "bytes \<Rightarrow> nat" where
  "blockVal [] = 0"
| "blockVal (b # bs) = unat b * 256 ^ length bs + blockVal bs"

definition byteBits :: "byte \<Rightarrow> bool list" where
  "byteBits b = map (\<lambda>k. bit b (7 - k)) [0..<8]"

definition blockBits :: "bytes \<Rightarrow> bool list" where
  "blockBits bs = concat (map byteBits bs)"

lemma blockVal_less: "blockVal bs < 256 ^ length bs"
proof (induction bs)
  case (Cons b bs)
  have "unat b < 256" using unsigned_less [of b, where 'a = nat] by simp
  then have "unat b * 256 ^ length bs + blockVal bs < (unat b + 1) * 256 ^ length bs"
    using Cons by (simp add: algebra_simps)
  also have "\<dots> \<le> 256 * 256 ^ length bs"
    using \<open>unat b < 256\<close> by (intro mult_right_mono) auto
  finally show ?case by simp
qed simp

lemma shift_in_carry:
  assumes "c = 0 \<or> c = (1 :: byte)"
  shows "unat (push_bit 1 b OR c) = (2 * unat b) mod 256 + unat c"
proof -
  have "push_bit 1 b OR c = push_bit 1 b + c"
    using assms by (intro disjunctive_add [symmetric])
      (auto simp: bit_push_bit_iff bit_1_iff simp del: push_bit_Suc push_bit_of_1 push_bit_numeral)
  moreover have "unat (push_bit 1 b) = 2 * unat b mod 256"
    by (simp add: push_bit_eq_mult unat_word_ariths mult.commute)
  moreover have "2 * x mod 256 + 1 < (256 :: nat)" for x :: nat
    using mult_mod_right [of 2 x 128] mod_less_divisor [of 128 x] by simp
  ultimately show ?thesis
    using assms by (auto simp: unat_word_ariths)
qed

lemma carry_out: "unat (drop_bit 7 b) = 2 * unat (b :: byte) div 256"
  by (simp add: unat_drop_bit)

lemma double_loop_val:
  "double_loop bs = (ds, c) \<Longrightarrow>
   unat c \<le> 1 \<and> length ds = length bs \<and> 2 * blockVal bs = unat c * 256 ^ length bs + blockVal ds"
proof (induction bs arbitrary: ds c)
  case (Cons b bs)
  obtain ds' c' where rec: "double_loop bs = (ds', c')" by fastforce
  then have ds: "ds = (push_bit 1 b OR c') # ds'" "c = drop_bit 7 b" using Cons.prems by auto
  have IH: "unat c' \<le> 1" "length ds' = length bs" "2 * blockVal bs = unat c' * 256 ^ length bs + blockVal ds'"
    using Cons.IH [OF rec] by auto
  have "c' = 0 \<or> c' = 1" using IH(1) by (metis le_eq_less_or_eq less_one unat_1 unat_eq_zero word_unat_eq_iff)
  then have "unat (push_bit 1 b OR c') = 2 * unat b mod 256 + unat c'" by (rule shift_in_carry)
  moreover have "2 * unat b = (2 * unat b div 256) * 256 + 2 * unat b mod 256"
    by (rule div_mult_mod_eq [symmetric])
  ultimately have "2 * unat b + unat c' = unat c * 256 + unat (push_bit 1 b OR c')"
    unfolding ds(2) carry_out by linarith
  then have "(2 * unat b + unat c') * 256 ^ length bs
      = (unat c * 256 + unat (push_bit 1 b OR c')) * 256 ^ length bs" by simp
  moreover have "unat c \<le> 1"
    using unsigned_less [of b, where 'a = nat] by (simp add: ds(2) carry_out)
  ultimately show ?case using IH by (simp add: ds(1) algebra_simps)
qed simp

lemma blockVal_snoc: "blockVal (bs @ [b]) = blockVal bs * 256 + unat b"
  by (induction bs) (simp_all add: algebra_simps)

lemma xor_low_byte:
  assumes "x < 256" "y < 256"
  shows "(h * 256 + x) XOR y = h * 256 + (x XOR y :: nat)"
proof -
  have low: "\<not> bit z n" if "z < 2 ^ 8" "8 \<le> n" for z n :: nat
    using that by (metis bit_take_bit_iff not_le take_bit_nat_eq_self)
  have xy: "x XOR y < 2 ^ 8"
  proof -
    have "take_bit 8 x = x" "take_bit 8 y = y" using assms by (simp_all add: take_bit_nat_eq_self)
    then have "take_bit 8 (x XOR y) = x XOR y" by (simp add: take_bit_xor)
    then show ?thesis by (simp only: take_bit_nat_eq_self_iff)
  qed
  have add: "h * 256 + z = push_bit 8 h OR z" if "z < 2 ^ 8" for z
  proof -
    have "push_bit 8 h + z = push_bit 8 h OR z"
      using low [OF that] by (intro disjunctive_add) (auto simp: bit_simps)
    then show ?thesis by (simp add: push_bit_eq_mult)
  qed
  show ?thesis
    using assms xy low [of y] by (simp add: add) (rule bit_eqI, auto simp: bit_simps)
qed

lemma double_val:
  assumes "length b = 16"
  shows "blockVal (double b) =
    (if 2 * blockVal b < 2 ^ 128 then 2 * blockVal b else (2 * blockVal b - 2 ^ 128) XOR 0x87)"
proof -
  obtain ds c where dc: "double_loop b = (ds, c)" by fastforce
  then have c: "unat c \<le> 1" and len: "length ds = 16" and v: "2 * blockVal b = unat c * 2 ^ 128 + blockVal ds"
    using double_loop_val [OF dc] assms by auto
  obtain es e where ds: "ds = es @ [e]" "length es = 15"
    using len by (cases ds rule: rev_cases) auto
  have d: "double b = es @ [e XOR c * 0x87]"
    using dc ds by (simp add: double_def blockSize_def list_update_append nth_append)
  have "c = 0 \<or> c = 1" using c by (metis le_eq_less_or_eq less_one unat_1 unat_eq_zero word_unat_eq_iff)
  moreover have "unat e < 256" using unsigned_less [of e, where 'a = nat] by simp
  moreover have "blockVal ds < 2 ^ 128" using blockVal_less [of ds] len by simp
  ultimately show ?thesis
    using v unfolding d ds(1) blockVal_snoc
    by (auto simp: xor_low_byte unsigned_xor_eq)
qed


lemma length_byteBits [simp]: "length (byteBits b) = 8"
  by (simp add: byteBits_def)

lemma length_blockBits [simp]: "length (blockBits bs) = 8 * length bs"
  by (induction bs) (simp_all add: blockBits_def)

lemma nth_blockBits:
  "k < 8 * length bs \<Longrightarrow> blockBits bs ! k = bit (bs ! (k div 8)) (7 - k mod 8)"
proof (induction bs arbitrary: k)
  case (Cons b bs)
  show ?case
  proof (cases "k < 8")
    case True
    then show ?thesis by (simp add: blockBits_def nth_append byteBits_def)
  next
    case False
    then have k: "k = 8 + (k - 8)" by simp
    have "k div 8 = Suc ((k - 8) div 8)" "k mod 8 = (k - 8) mod 8"
      by (subst k, simp)+
    moreover have "blockBits (b # bs) ! k = blockBits bs ! (k - 8)"
      using False by (simp add: blockBits_def nth_append)
    ultimately show ?thesis using Cons False by simp
  qed
qed simp

lemma bit_shifted:
  fixes a b :: byte
  assumes "0 < r" "r < 8" "n < 8"
  shows "bit (push_bit r a OR drop_bit (8 - r) b) n \<longleftrightarrow> (if r \<le> n then bit a (n - r) else bit b (n + 8 - r))"
proof -
  have "bit (drop_bit (8 - r) b) n \<longleftrightarrow> \<not> r \<le> n \<and> bit b (n + 8 - r)"
    using assms bit_byte_beyond [of "n + 8 - r" b] by (cases "r \<le> n") (auto simp: bit_drop_bit_eq ac_simps)
  then show ?thesis using assms by (auto simp: bit_or_iff bit_push_bit_iff)
qed

lemma nth_bitWindow:
  assumes "length s = 24" "bottom < 64" "i < 16" "n < 8"
  shows "bit (bitWindow s bottom ! i) n \<longleftrightarrow>
    (if bottom mod 8 \<le> n then bit (s ! (bottom div 8 + i)) (n - bottom mod 8)
     else bit (s ! (bottom div 8 + i + 1)) (n + 8 - bottom mod 8))"
proof -
  have "bottom div 8 < 8" using assms(2) by auto
  then show ?thesis
    using assms bit_shifted [of "bottom mod 8" n] by (auto simp: bitWindow_def Let_def blockSize_def)
qed

lemma bitWindow_bits:
  assumes "length s = 24" "bottom < 64"
  shows "blockBits (bitWindow s bottom) = take 128 (drop bottom (blockBits s))"
proof (rule nth_equalityI)
  show "length (blockBits (bitWindow s bottom)) = length (take 128 (drop bottom (blockBits s)))"
    using assms by simp
next
  fix k
  assume "k < length (blockBits (bitWindow s bottom))"
  then have k: "k < 128" using assms by simp
  let ?o = "bottom div 8" and ?r = "bottom mod 8" and ?i = "k div 8" and ?j = "k mod 8"
  have b: "?i < 16" "?o < 8" "?j < 8" "?r < 8" using k assms by auto
  have s: "take 128 (drop bottom (blockBits s)) ! k = bit (s ! ((bottom + k) div 8)) (7 - (bottom + k) mod 8)"
    using k assms by (simp add: nth_blockBits)
  have lhs: "blockBits (bitWindow s bottom) ! k = bit (bitWindow s bottom ! ?i) (7 - ?j)"
    using k assms by (simp add: nth_blockBits)
  have low: "r \<le> 7 - j \<and> 7 - j < 8 \<and> 7 - j - r = 7 - (r + j)" if "r + j < 8" for r j :: nat
    using that by auto
  have high: "\<not> r \<le> 7 - j \<and> 7 - j < 8 \<and> 7 - j + 8 - r = 7 - (r + j - 8)"
    if "\<not> r + j < 8" "j < 8" "r < 8" for r j :: nat
    using that by auto
  show "blockBits (bitWindow s bottom) ! k = take 128 (drop bottom (blockBits s)) ! k"
  proof (cases "?r + ?j < 8")
    case True
    have q: "(bottom + k) div 8 = ?o + ?i" "(bottom + k) mod 8 = ?r + ?j"
      using True div_add1_eq [of bottom k 8] mod_add_eq [of bottom 8 k] by simp_all
    note lw = low [OF True]
    have "bit (bitWindow s bottom ! ?i) (7 - ?j) = bit (s ! (?o + ?i)) (7 - ?j - ?r)"
      using nth_bitWindow [OF assms b(1), of "7 - ?j"] lw by argo
    then show ?thesis unfolding s lhs q using lw by argo
  next
    case False
    then have "(?r + ?j) div 8 = 1" "(?r + ?j) mod 8 = ?r + ?j - 8"
      using b by (simp_all add: le_div_geq le_mod_geq)
    then have q: "(bottom + k) div 8 = ?o + ?i + 1" "(bottom + k) mod 8 = ?r + ?j - 8"
      using div_add1_eq [of bottom k 8] mod_add_eq [of bottom 8 k] by simp_all
    note hg = high [OF False b(3,4)]
    have "bit (bitWindow s bottom ! ?i) (7 - ?j) = bit (s ! (?o + ?i + 1)) (7 - ?j + 8 - ?r)"
      using nth_bitWindow [OF assms b(1), of "7 - ?j"] hg by argo
    then show ?thesis unfolding s lhs q using hg by argo
  qed
qed

section \<open>Properties\<close>

text \<open>C14: sealing and opening. Under every key and every 12-byte nonce, \<open>Seal\<close> turns a
  plaintext of fewer than \<open>2 ^ 32\<close> blocks into a ciphertext 16 bytes longer, and \<open>Open\<close>
  gives that plaintext back, appended to whatever the destination holds.\<close>

theorem open_seal:
  assumes "New key = Inr c" "length nonce = NonceLen" "length p div blockSize < 2 ^ 32"
  shows "\<exists>ct. (\<forall>dst. Seal c dst nonce p = Inr (dst @ ct)) \<and> length ct = length p + TagLen \<and>
    (\<forall>dst. Open c dst nonce ct = Inr (dst @ p))"
proof -
  have "c = newCipher key" using assms(1) by (simp add: New_def split: if_splits)
  then show ?thesis
    using ocb.Open_Seal [of nonce p key] assms(2,3) by (simp add: NonceLen_def blockSize_def TagLen_def)
qed

lemma open_seal_witness:
  "\<exists>c ct. New (replicate 16 7) = Inr c \<and> Seal c [] (replicate 12 1) [104, 105] = Inr ct \<and>
     length ct = 18 \<and> Open c [] (replicate 12 1) ct = Inr [104, 105]"
proof -
  have k: "New (replicate 16 7) = Inr (newCipher (replicate 16 7))" by (simp add: New_def)
  then show ?thesis
    using open_seal [OF k, of "replicate 12 1" "[104, 105]"]
    by (fastforce simp: NonceLen_def blockSize_def TagLen_def)
qed

text \<open>C15: authenticity in its functional form. \<open>Open\<close> accepts a ciphertext only if it is
  exactly what \<open>Seal\<close> produces from the plaintext it returns, under that key and nonce: no second
  ciphertext opens to the same plaintext, and every change of an accepted ciphertext that is not
  itself a sealing is refused.\<close>

theorem open_only_sealed:
  assumes "New key = Inr c" "Open c dst nonce ct = Inr q"
  shows "\<exists>p. q = dst @ p \<and> length p + TagLen = length ct \<and> Seal c [] nonce p = Inr ct"
proof -
  have "c = newCipher key" using assms(1) by (simp add: New_def split: if_splits)
  then show ?thesis
    using ocb.Seal_Open [of key dst nonce ct q] assms(2) by (auto simp: TagLen_def)
qed

lemma open_only_sealed_witness:
  "\<exists>c ct. Open c [] (replicate 12 1) ct = Inr [104, 105] \<and> length ct = 18 \<and>
     Seal c [] (replicate 12 1) [104, 105] = Inr ct"
proof -
  let ?c = "newCipher (replicate 16 7)"
  have k: "New (replicate 16 7) = Inr ?c" by (simp add: New_def)
  obtain ct where "Open ?c [] (replicate 12 1) ct = Inr ([] @ [104, 105])"
    using ocb.Open_Seal [of "replicate 12 1" "[104, 105]" "replicate 16 7"] by fastforce
  then show ?thesis using open_only_sealed [OF k, of "[]" "replicate 12 1" ct] by (auto simp: TagLen_def)
qed

text \<open>Every error of \<open>Open\<close>. A nonce of another length, a ciphertext without room for a tag
  and a tag that does not match are refused with the errors of the source; the only other outcome
  is the panic on the table of offsets, which needs \<open>2 ^ 32\<close> blocks.\<close>

theorem open_errors:
  assumes "New key = Inr c"
  shows "(Open c dst nonce ct = Inl ErrNonceLength \<longleftrightarrow> length nonce \<noteq> NonceLen) \<and>
    (length nonce = NonceLen \<and> length ct < TagLen \<longrightarrow> Open c dst nonce ct = Inl ErrOpen) \<and>
    (Open c dst nonce ct = Inl ErrPanic \<longleftrightarrow>
       length nonce = NonceLen \<and> TagLen \<le> length ct \<and> 2 ^ 32 \<le> (length ct - TagLen) div blockSize) \<and>
    (\<forall>e. Open c dst nonce ct = Inl e \<longrightarrow> e \<in> {ErrNonceLength, ErrOpen, ErrPanic})"
proof -
  have "c = newCipher key" using assms(1) by (simp add: New_def split: if_splits)
  then show ?thesis using ocb.Open_outcomes by blast
qed

lemma open_errors_witness:
  "\<exists>c. New (replicate 16 0) = Inr c \<and> Open c [] (replicate 12 0) [1, 2, 3] = Inl ErrOpen"
proof -
  have k: "New (replicate 16 0) = Inr (newCipher (replicate 16 0))" by (simp add: New_def)
  then show ?thesis
    using open_errors [OF k, of "[]" "replicate 12 0" "[1, 2, 3]"] by (simp add: NonceLen_def TagLen_def)
qed

text \<open>\<open>double\<close> is the doubling of RFC 7253, multiplication by \<open>x\<close> in the field of
  \<open>2 ^ 128\<close> elements: the block read as a number is shifted left by one bit and, when a bit is
  shifted out, reduced by \<^verbatim>\<open>0x87\<close>. The table of the cipher holds the successive doublings.\<close>

theorem double_is_gf_double:
  assumes "length b = blockSize" "New key = Inr c" "k < 32"
  shows "blockVal (double b) =
      (if 2 * blockVal b < 2 ^ 128 then 2 * blockVal b else (2 * blockVal b - 2 ^ 128) XOR 0x87) \<and>
    l c ! k = (double ^^ (k + 2)) (lStar c)"
  using assms double_val
  by (auto simp: blockSize_def New_def newCipher_def Let_def nth_doubles funpow_swap1 split: if_splits)

lemma double_is_gf_double_witness:
  "blockVal (double (128 # replicate 14 0 @ [1])) = (2 * blockVal (128 # replicate 14 0 @ [1]) - 2 ^ 128) XOR 0x87"
proof -
  have "2 ^ 128 \<le> 2 * blockVal (128 # replicate 14 0 @ [1])" by simp
  then show ?thesis
    using double_is_gf_double [of "128 # replicate 14 0 @ [1]" "replicate 16 0" "newCipher (replicate 16 0)" 0]
    by (simp add: blockSize_def New_def del: blockVal.simps)
qed

text \<open>The initial offset is the window of RFC 7253: the 128 bits of the stretched key block
  that start at bit \<open>bottom\<close>, the low six bits of the nonce.\<close>

theorem initial_offset_window:
  assumes "New key = Inr c" "length nonce = NonceLen"
  shows "\<exists>ktop. length ktop = blockSize \<and>
    ktop = Encrypt (block c) ([0, 0, 0, 1] @ take 11 nonce @ [nonce ! 11 AND NOT 0x3F]) \<and>
    blockBits (initialOffset c nonce) =
      take 128 (drop (unat (nonce ! 11 AND 0x3F)) (blockBits (stretchBytes ktop)))"
proof -
  let ?n = "[0, 0, 0, 1] @ take 11 nonce @ [nonce ! 11 AND NOT 0x3F]"
  have c: "c = newCipher key" using assms(1) by (simp add: New_def split: if_splits)
  have k: "length (Encrypt (block c) ?n) = 16" by (simp only: c ocb.length_Encrypt)
  have nonce: "nonce = take 11 nonce @ [nonce ! 11]" "length nonce = 12"
    using assms(2) take_Suc_conv_app_nth [of 11 nonce] by (auto simp: NonceLen_def)
  have "initialOffset c nonce = bitWindow (stretchBytes (Encrypt (block c) ?n)) (unat (nonce ! 11 AND 0x3F))"
    using nonce
    by (simp add: initialOffset_def blockSize_def Let_def nth_append list_update_append numeral_eq_Suc
        upd_conv_take_nth_drop)
  then show ?thesis
    using k bitWindow_bits [OF _ unat_low6, of "stretchBytes (Encrypt (block c) ?n)" "nonce ! 11"]
    by (simp add: blockSize_def)
qed

lemma initial_offset_window_witness:
  "\<exists>ktop. length ktop = blockSize \<and>
    blockBits (initialOffset (newCipher (replicate 16 0)) (replicate 12 5)) =
      take 128 (drop 5 (blockBits (stretchBytes ktop)))"
  using initial_offset_window [of "replicate 16 0" "newCipher (replicate 16 0)" "replicate 12 5"]
  by (auto simp: New_def NonceLen_def)

end
