(* ===== verification/Session_Crypto.thy ===== *)
theory Session_Crypto
  imports Ocb
begin

unbundle bit_operations_syntax

text \<open>
  \<^verbatim>\<open>internal/crypto/session.go\<close>: the base64 session key, the nonce scheme, and the sealing and
  opening of datagrams.

  \<^verbatim>\<open>base64.StdEncoding\<close> is modelled as its package documents it: encoding in groups of three
  bytes with padding, decoding that skips carriage returns and line feeds, wants complete padded
  groups and ignores the unused low bits of the last digit.
\<close>

section \<open>\<^verbatim>\<open>base64.StdEncoding\<close>\<close>

definition alphabet :: string where
  "alphabet = ''ABCDEFGHIJKLMNOPQRSTUVWXYZabcdefghijklmnopqrstuvwxyz0123456789+/''"

definition digit :: "byte \<Rightarrow> char" where
  "digit v = alphabet ! unat (v AND 0x3F)"

fun indexOf :: "char \<Rightarrow> string \<Rightarrow> nat option" where
  "indexOf c [] = None"
| "indexOf c (x # xs) = (if c = x then Some 0 else map_option Suc (indexOf c xs))"

definition undigit :: "char \<Rightarrow> byte option" where
  "undigit c = map_option word_of_nat (indexOf c alphabet)"

fun EncodeToString :: "bytes \<Rightarrow> string" where
  "EncodeToString [] = []"
| "EncodeToString [a] = [digit (drop_bit 2 a), digit (push_bit 4 a), CHR ''='', CHR ''='']"
| "EncodeToString [a, b] =
     [digit (drop_bit 2 a), digit (push_bit 4 a OR drop_bit 4 b), digit (push_bit 2 b), CHR ''='']"
| "EncodeToString (a # b # c # rest) =
     digit (drop_bit 2 a) # digit (push_bit 4 a OR drop_bit 4 b) #
     digit (push_bit 2 b OR drop_bit 6 c) # digit c # EncodeToString rest"

fun decodeQuanta :: "string \<Rightarrow> bytes option" where
  "decodeQuanta [] = Some []"
| "decodeQuanta (w # x # y # z # rest) =
     (case (undigit w, undigit x) of
        (Some w', Some x') \<Rightarrow>
          (let a = push_bit 2 w' OR drop_bit 4 x'
           in if y = CHR ''='' then (if z = CHR ''='' \<and> rest = [] then Some [a] else None)
              else case undigit y of
                None \<Rightarrow> None
              | Some y' \<Rightarrow>
                  (let b = push_bit 4 x' OR drop_bit 2 y'
                   in if z = CHR ''='' then (if rest = [] then Some [a, b] else None)
                      else case undigit z of
                        None \<Rightarrow> None
                      | Some z' \<Rightarrow> map_option (\<lambda>ds. a # b # (push_bit 6 y' OR z') # ds) (decodeQuanta rest)))
      | _ \<Rightarrow> None)"
| "decodeQuanta _ = None"

definition isNewline :: "char \<Rightarrow> bool" where
  "isNewline c \<longleftrightarrow> c = CHR 0x0A \<or> c = CHR 0x0D"

definition DecodeString :: "string \<Rightarrow> bytes option" where
  "DecodeString s = decodeQuanta (filter (\<lambda>c. \<not> isNewline c) s)"

section \<open>Keys\<close>

definition String :: "bytes \<Rightarrow> string" where
  "String k = take 22 (EncodeToString k)"

definition ParseBase64Key :: "string \<Rightarrow> error + bytes" where
  "ParseBase64Key s =
     (if length s \<noteq> 22 then Inl (ErrBadKeyLength (length s))
      else case DecodeString (s @ ''=='') of
        None \<Rightarrow> Inl ErrBadBase64
      | Some b \<Rightarrow>
          (let k = take 16 (b @ drop (length b) (replicate 16 0))
           in if take 22 (EncodeToString k) \<noteq> s then Inl ErrNonCanonical else Inr k))"

section \<open>Sessions\<close>

record Message =
  NonceVal :: u64
  Text :: bytes

record Session =
  cipher :: Cipher

definition NewSession :: "bytes \<Rightarrow> error + Session" where
  "NewSession key = (case New key of Inl e \<Rightarrow> Inl e | Inr c \<Rightarrow> Inr \<lparr>cipher = c\<rparr>)"

definition nonceBytes :: "u64 \<Rightarrow> bytes" where
  "nonceBytes val = replicate 4 0 @ PutUint64 val"

definition Encrypt_Message :: "Session \<Rightarrow> Message \<Rightarrow> error + bytes" where
  "Encrypt_Message s m =
     (let n = nonceBytes (NonceVal m)
      in Seal (cipher s) (drop 4 n) n (Text m))"

definition Decrypt_Message :: "Session \<Rightarrow> bytes \<Rightarrow> error + Message" where
  "Decrypt_Message s b =
     (if length b < 8 + TagLen then Inl ErrShortDatagram
      else
        let val = Uint64 (take 8 b)
        in case Open (cipher s) [] (nonceBytes val) (drop 8 b) of
             Inl e \<Rightarrow> Inl e
           | Inr text \<Rightarrow> Inr \<lparr>NonceVal = val, Text = text\<rparr>)"

section \<open>Base64 round trip\<close>

lemma alphabet_props:
  "length alphabet = 64" "distinct alphabet" "CHR ''='' \<notin> set alphabet"
  "list_all (\<lambda>c. \<not> isNewline c) alphabet"
  by (simp_all add: alphabet_def isNewline_def)

lemma indexOf_nth: "distinct xs \<Longrightarrow> i < length xs \<Longrightarrow> indexOf (xs ! i) xs = Some i"
  by (induction xs arbitrary: i) (auto simp: nth_Cons split: nat.splits)

lemma unat_digit: "unat (v AND 0x3F :: byte) < 64"
  by (rule unat_low6)

lemma digit_in: "digit v \<in> set alphabet"
  using unat_digit [of v] by (simp add: digit_def alphabet_props)

text \<open>The low six bits of a byte, the value of a digit.\<close>

definition six :: "byte \<Rightarrow> byte" where
  "six v = v AND 0x3F"

lemma undigit_digit [simp]: "undigit (digit v) = Some (six v)"
  using unat_digit [of v] by (simp add: undigit_def digit_def indexOf_nth alphabet_props six_def)

lemma digit_neq [simp]: "digit v \<noteq> CHR ''=''" "\<not> isNewline (digit v)"
  using digit_in [of v] alphabet_props(3,4) by (auto simp: list_all_iff)

lemma padding_kept [simp]: "\<not> isNewline (CHR ''='')"
  by (simp add: isNewline_def)

lemma bit_six: "bit (six v) k \<longleftrightarrow> bit v k \<and> k < 6"
proof -
  have "(0x3F :: byte) = mask 6" by (simp add: mask_eq_exp_minus_1)
  then show ?thesis by (simp only: six_def bit_and_iff bit_mask_iff) auto
qed

lemma byte_eqI:
  fixes a b :: byte
  assumes "\<forall>k \<in> {0, 1, 2, 3, 4, 5, 6, 7}. bit a k = bit b k"
  shows "a = b"
proof (rule bit_word_eqI)
  fix n :: nat
  assume "n < LENGTH(8)"
  then have "n \<in> {0, 1, 2, 3, 4, 5, 6, 7}" by auto
  then show "bit a n = bit b n" using assms by blast
qed

lemma regroup:
  fixes a b c :: byte
  shows "push_bit 2 (six (drop_bit 2 a)) OR drop_bit 4 (six (push_bit 4 a)) = a"
    and "push_bit 2 (six (drop_bit 2 a)) OR drop_bit 4 (six (push_bit 4 a OR drop_bit 4 b)) = a"
    and "push_bit 4 (six (push_bit 4 a OR drop_bit 4 b)) OR drop_bit 2 (six (push_bit 2 b)) = b"
    and "push_bit 4 (six (push_bit 4 a OR drop_bit 4 b)) OR drop_bit 2 (six (push_bit 2 b OR drop_bit 6 c)) = b"
    and "push_bit 6 (six (push_bit 2 b OR drop_bit 6 c)) OR six c = c"
  by (rule byte_eqI, unfold bit_or_iff bit_push_bit_iff bit_drop_bit_eq bit_six comp_def,
      simp add: bit_byte_beyond eval_nat_numeral)+

lemma EncodeToString_clean: "filter (\<lambda>c. \<not> isNewline c) (EncodeToString b) = EncodeToString b"
  by (induction b rule: EncodeToString.induct) simp_all

lemma decode_encode: "decodeQuanta (EncodeToString b) = Some b"
  by (induction b rule: EncodeToString.induct) (simp_all add: regroup Let_def)

lemma DecodeString_EncodeToString: "DecodeString (EncodeToString b) = Some b"
  by (simp add: DecodeString_def EncodeToString_clean decode_encode)

lemma encoded_key:
  assumes "length k = 16"
  shows "take 22 (EncodeToString k) @ ''=='' = EncodeToString k" "length (take 22 (EncodeToString k)) = 22"
  using assms by (rule length_16_cases, simp)+

interpretation key: canonical_codec String ParseBase64Key "\<lambda>k. length k = 16"
proof
  show "ParseBase64Key (String k) = Inr k" if "length k = 16" for k
    using encoded_key [OF that] that DecodeString_EncodeToString [of k]
    by (simp add: ParseBase64Key_def String_def Let_def)
next
  fix s k
  assume "ParseBase64Key s = Inr k"
  then show "String k = s" "length k = 16"
    by (auto simp: ParseBase64Key_def String_def Let_def split: if_splits option.splits)
qed

section \<open>Sealed datagrams\<close>

lemma length_nonceBytes [simp]: "length (nonceBytes v) = 12"
  by (simp add: nonceBytes_def)

lemma nonceBytes_inj: "nonceBytes v = nonceBytes w \<Longrightarrow> v = w"
  by (metis Uint64_PutUint64_id nonceBytes_def same_append_eq)

definition newSession :: "bytes \<Rightarrow> Session" where
  "newSession key = \<lparr>cipher = newCipher key\<rparr>"

definition sealable :: "Message \<Rightarrow> bool" where
  "sealable m \<longleftrightarrow> length (Text m) div 16 < 2 ^ 32"

definition sealed :: "Session \<Rightarrow> Message \<Rightarrow> bytes" where
  "sealed s m = projr (Encrypt_Message s m)"

lemma Encrypt_newSession:
  assumes "sealable m"
  shows "\<exists>ct. Encrypt_Message (newSession key) m = Inr (PutUint64 (NonceVal m) @ ct) \<and>
    length ct = length (Text m) + 16 \<and>
    Open (newCipher key) [] (nonceBytes (NonceVal m)) ct = Inr (Text m)"
  using ocb.Open_Seal [of "nonceBytes (NonceVal m)" "Text m" key] assms
  by (fastforce simp: Encrypt_Message_def newSession_def sealable_def Let_def nonceBytes_def)

interpretation datagram: canonical_codec "sealed (newSession key)" "Decrypt_Message (newSession key)" sealable
  for key
proof
  show "Decrypt_Message (newSession key) (sealed (newSession key) m) = Inr m" if "sealable m" for m
    using Encrypt_newSession [OF that, of key]
    by (auto simp: sealed_def Decrypt_Message_def TagLen_def newSession_def)
next
  fix b m
  assume d: "Decrypt_Message (newSession key) b = Inr m"
  then have l: "24 \<le> length b"
    and v: "NonceVal m = Uint64 (take 8 b)"
    and o: "Open (newCipher key) [] (nonceBytes (NonceVal m)) (drop 8 b) = Inr (Text m)"
    by (auto simp: Decrypt_Message_def newSession_def TagLen_def Let_def split: if_splits sum.splits)
  have "length (Text m) div 16 < 2 ^ 32 \<and>
      (\<forall>dst. Seal (newCipher key) dst (nonceBytes (NonceVal m)) (Text m) = Inr (dst @ drop 8 b))"
    using ocb.Seal_Open [OF o] by auto
  moreover have "PutUint64 (NonceVal m) @ drop 8 b = b"
    using l v by (simp add: PutUint64_Uint64)
  ultimately show "sealed (newSession key) m = b" "sealable m"
    by (simp_all add: sealed_def sealable_def Encrypt_Message_def newSession_def nonceBytes_def Let_def)
qed

lemma Seal_extends: "Seal c dst n p = Inr x \<Longrightarrow> length dst \<le> length x"
  by (auto simp: Seal_def Let_def split: if_splits option.splits)

section \<open>Properties\<close>

text \<open>The key codec is exact. A string parses to a key precisely when it is the 22-character
  encoding of that 16-byte key, so that embedded line breaks, non-zero trailing bits and every
  other string of the same bits are refused.\<close>

theorem base64_key_exact:
  "ParseBase64Key s = Inr k \<longleftrightarrow> length k = 16 \<and> s = String k"
  by (rule key.dec_iff)

text \<open>C26: sealed datagrams. For the session of a parsed key, what \<open>Encrypt\<close> writes for a message
  (the nonce value in clear, then the ciphertext and the tag: 24 bytes of overhead) decrypts to that
  message, and whatever datagram decrypts is exactly what \<open>Encrypt\<close> writes for the message it
  decrypts to, nonce value included.\<close>

theorem datagram_exact:
  assumes "ParseBase64Key s = Inr k" "NewSession k = Inr sess" "length (Text m) div blockSize < 2 ^ 32"
  shows "(\<exists>b. Encrypt_Message sess m = Inr b \<and> take 8 b = PutUint64 (NonceVal m) \<and>
      length b = length (Text m) + 24 \<and> Decrypt_Message sess b = Inr m) \<and>
    (\<forall>d m'. Decrypt_Message sess d = Inr m' \<longrightarrow> Encrypt_Message sess m' = Inr d)"
proof -
  have s: "sess = newSession k"
    using assms(2) by (simp add: NewSession_def newSession_def New_def split: if_splits)
  have m: "sealable m" using assms(3) by (simp add: sealable_def blockSize_def)
  have 1: "\<exists>b. Encrypt_Message sess m = Inr b \<and> take 8 b = PutUint64 (NonceVal m) \<and>
      length b = length (Text m) + 24 \<and> Decrypt_Message sess b = Inr m"
    using Encrypt_newSession [OF m, of k] datagram.dec_enc [OF m, of k] by (auto simp: s sealed_def)
  have 2: "Encrypt_Message sess m' = Inr d" if "Decrypt_Message sess d = Inr m'" for d m'
    using datagram.enc_dec [of k d m'] datagram.dec_valid [of k d m'] Encrypt_newSession [of m' k] that
    by (auto simp: s sealed_def)
  show ?thesis using 1 2 by blast
qed

lemma datagram_exact_witness:
  "\<exists>b. Encrypt_Message (newSession (replicate 16 0)) \<lparr>NonceVal = 3, Text = [1, 2]\<rparr> = Inr b \<and>
     length b = 26 \<and> Decrypt_Message (newSession (replicate 16 0)) b = Inr \<lparr>NonceVal = 3, Text = [1, 2]\<rparr>"
proof -
  have "ParseBase64Key (String (replicate 16 0)) = Inr (replicate 16 0)" by (simp add: key.dec_enc)
  moreover have "NewSession (replicate 16 0) = Inr (newSession (replicate 16 0))"
    by (simp add: NewSession_def newSession_def New_def)
  ultimately show ?thesis
    using datagram_exact [of _ _ _ "\<lparr>NonceVal = 3, Text = [1, 2]\<rparr>"] by (fastforce simp: blockSize_def)
qed

text \<open>The refusals of \<open>Decrypt\<close>. A datagram without room for a nonce and a tag is short;
  every other datagram that is not a sealing under this key fails with the one content-free error,
  short of the \<open>2 ^ 32\<close> blocks that exhaust the table of offsets.\<close>

theorem decrypt_refusals:
  assumes "NewSession k = Inr sess" "length d < 16 * 2 ^ 32" "\<And>m. Encrypt_Message sess m \<noteq> Inr d"
  shows "Decrypt_Message sess d = Inl (if length d < 8 + TagLen then ErrShortDatagram else ErrOpen)"
proof -
  have s: "sess = newSession k"
    using assms(1) by (simp add: NewSession_def newSession_def New_def split: if_splits)
  have no: "Decrypt_Message sess d \<noteq> Inr m" for m
    using datagram.enc_dec [of k d m] datagram.dec_valid [of k d m] Encrypt_newSession [of m k] assms(3)
    by (auto simp: s sealed_def)
  let ?o = "Open (newCipher k) [] (nonceBytes (Uint64 (take 8 d))) (drop 8 d)"
  have "?o \<noteq> Inl ErrNonceLength \<and> ?o \<noteq> Inl ErrPanic \<and> (\<forall>e. ?o = Inl e \<longrightarrow> e \<in> {ErrNonceLength, ErrOpen, ErrPanic})"
    using ocb.Open_outcomes [of k "[]" "nonceBytes (Uint64 (take 8 d))" "drop 8 d"] assms(2)
    by (auto simp: NonceLen_def TagLen_def blockSize_def)
  moreover have "?o \<noteq> Inr t" if "\<not> length d < 8 + TagLen" for t
    using no [of "\<lparr>NonceVal = Uint64 (take 8 d), Text = t\<rparr>"] that
    by (auto simp: s Decrypt_Message_def newSession_def Let_def)
  ultimately show ?thesis
    by (cases ?o) (auto simp: s Decrypt_Message_def newSession_def Let_def)
qed

lemma decrypt_refusals_witness:
  "Decrypt_Message (newSession (replicate 16 0)) [1, 2, 3] = Inl ErrShortDatagram"
proof -
  have "NewSession (replicate 16 0) = Inr (newSession (replicate 16 0))"
    by (simp add: NewSession_def newSession_def New_def)
  moreover have "Encrypt_Message (newSession (replicate 16 0)) m \<noteq> Inr [1, 2, 3]" for m
  proof
    assume "Encrypt_Message (newSession (replicate 16 0)) m = Inr [1, 2, 3]"
    then have "length (drop 4 (nonceBytes (NonceVal m))) \<le> length [1, 2, 3 :: byte]"
      unfolding Encrypt_Message_def Let_def by (rule Seal_extends)
    then show False by simp
  qed
  ultimately show ?thesis
    using decrypt_refusals [of "replicate 16 0" "newSession (replicate 16 0)" "[1, 2, 3]"]
    by (simp add: TagLen_def)
qed

end
