(* ===== verification/Packet.thy ===== *)
theory Packet
  imports Session_Crypto
begin

unbundle bit_operations_syntax

text \<open>
  \<^verbatim>\<open>internal/network/packet.go\<close>: the packet inside a sealed datagram (sequence number and
  direction in the nonce, two 16-bit timestamps, the payload) and the 16-bit clock.
\<close>

section \<open>Packets\<close>

datatype Direction = ToServer | ToClient

definition directionVal :: "Direction \<Rightarrow> u64" where
  "directionVal d = (case d of ToServer \<Rightarrow> 0 | ToClient \<Rightarrow> 1)"

definition directionMask :: u64 where
  "directionMask = push_bit 63 1"

definition sequenceMask :: u64 where
  "sequenceMask = NOT directionMask"

record Packet =
  Seq :: u64
  Dir :: Direction
  Timestamp :: u16
  TimestampReply :: u16
  Payload :: bytes

definition tsMissing :: u16 where
  "tsMissing = 0xFFFF"

definition packetFromMessage :: "Message \<Rightarrow> error + Packet" where
  "packetFromMessage m =
     (if length (Text m) < 4 then Inl ErrShortPacket
      else Inr \<lparr>Seq = NonceVal m AND sequenceMask,
                Dir = (if NonceVal m AND directionMask \<noteq> 0 then ToClient else ToServer),
                Timestamp = Uint16 (take 2 (Text m)),
                TimestampReply = Uint16 (take 2 (drop 2 (Text m))),
                Payload = drop 4 (Text m)\<rparr>)"

definition toMessage :: "Packet \<Rightarrow> Message" where
  "toMessage p =
     \<lparr>NonceVal = push_bit 63 (directionVal (Dir p)) OR (Seq p AND sequenceMask),
      Text = PutUint16 (Timestamp p) @ PutUint16 (TimestampReply p) @ Payload p\<rparr>"

definition timestamp16 :: "time \<Rightarrow> u16" where
  "timestamp16 now =
     (let ts = word_of_int (UnixMilli now) in if ts = tsMissing then ts + 1 else ts)"

definition timestampDiff :: "u16 \<Rightarrow> u16 \<Rightarrow> u16" where
  "timestampDiff tsnew tsold = tsnew - tsold"

section \<open>The nonce\<close>

definition valid_packet :: "Packet \<Rightarrow> bool" where
  "valid_packet p \<longleftrightarrow> Seq p < 2 ^ 63"

lemma bit_directionMask: "bit directionMask k \<longleftrightarrow> k = 63"
  unfolding directionMask_def bit_push_bit_iff bit_1_iff by auto

lemma bit_sequenceMask: "bit sequenceMask k \<longleftrightarrow> k < 63"
  unfolding sequenceMask_def bit_not_iff bit_directionMask by auto

lemma and_directionMask: "w AND directionMask = 0 \<longleftrightarrow> \<not> bit w 63"
proof
  assume "w AND directionMask = 0"
  then have "\<not> bit (w AND directionMask) 63" by simp
  then show "\<not> bit w 63" unfolding bit_and_iff bit_directionMask by blast
next
  assume "\<not> bit w 63"
  then show "w AND directionMask = 0"
    by (intro bit_word_eqI) (unfold bit_and_iff bit_directionMask, auto)
qed

lemma and_sequenceMask_less: "w AND sequenceMask < 2 ^ 63"
proof -
  have "w AND sequenceMask = take_bit 63 w"
    by (rule bit_word_eqI) (unfold bit_and_iff bit_sequenceMask bit_take_bit_iff, auto)
  then have "unat (w AND sequenceMask) < 2 ^ 63"
    by (simp only: unsigned_take_bit_eq take_bit_nat_less_exp)
  then show ?thesis by (simp add: word_less_nat_alt)
qed

lemma and_sequenceMask_id: "w < 2 ^ 63 \<Longrightarrow> w AND sequenceMask = w"
proof (rule bit_word_eqI)
  fix k :: nat
  assume "w < 2 ^ 63"
  then have "unat w < 2 ^ 63" by (simp add: word_less_nat_alt)
  then have "bit w k \<Longrightarrow> k < 63" using bit_beyond [of w 63 k] by linarith
  then show "bit (w AND sequenceMask) k = bit w k" unfolding bit_and_iff bit_sequenceMask by blast
qed

lemma bit_directionVal: "bit (push_bit 63 (directionVal d)) k \<longleftrightarrow> k = 63 \<and> d = ToClient"
  unfolding bit_push_bit_iff by (cases d) (auto simp: directionVal_def bit_1_iff)

text \<open>A nonce value splits into its direction and its sequence number, and is put together again.\<close>

lemma nonce_split:
  "(push_bit 63 (directionVal d) OR (s AND sequenceMask)) AND sequenceMask = s AND sequenceMask"
  "(push_bit 63 (directionVal d) OR (s AND sequenceMask)) AND directionMask \<noteq> 0 \<longleftrightarrow> d = ToClient"
proof -
  show "(push_bit 63 (directionVal d) OR (s AND sequenceMask)) AND sequenceMask = s AND sequenceMask"
    by (rule bit_word_eqI) (unfold bit_and_iff bit_or_iff bit_sequenceMask bit_directionVal, auto)
  show "(push_bit 63 (directionVal d) OR (s AND sequenceMask)) AND directionMask \<noteq> 0 \<longleftrightarrow> d = ToClient"
    unfolding and_directionMask bit_or_iff bit_and_iff bit_directionVal bit_sequenceMask by auto
qed

lemma nonce_join:
  "push_bit 63 (directionVal (if v AND directionMask \<noteq> 0 then ToClient else ToServer))
     OR ((v AND sequenceMask) AND sequenceMask) = v"
proof (rule bit_word_eqI)
  fix k :: nat
  assume "k < LENGTH(64)"
  then have "k < 63 \<or> k = 63" by auto
  then show "bit (push_bit 63 (directionVal (if v AND directionMask \<noteq> 0 then ToClient else ToServer))
      OR ((v AND sequenceMask) AND sequenceMask)) k = bit v k"
    unfolding bit_or_iff bit_and_iff bit_directionVal bit_sequenceMask and_directionMask by auto
qed

interpretation packet: canonical_codec toMessage packetFromMessage valid_packet
proof
  show "packetFromMessage (toMessage p) = Inr p" if "valid_packet p" for p
    using that nonce_split [of "Dir p" "Seq p"] and_sequenceMask_id [of "Seq p"]
    by (cases p) (auto simp: valid_packet_def toMessage_def packetFromMessage_def,
        (metis Direction.exhaust)+)
next
  fix m p
  assume "packetFromMessage m = Inr p"
  then have l: "4 \<le> length (Text m)"
    and p: "p = \<lparr>Seq = NonceVal m AND sequenceMask,
                Dir = (if NonceVal m AND directionMask \<noteq> 0 then ToClient else ToServer),
                Timestamp = Uint16 (take 2 (Text m)),
                TimestampReply = Uint16 (take 2 (drop 2 (Text m))),
                Payload = drop 4 (Text m)\<rparr>"
    by (auto simp: packetFromMessage_def split: if_splits)
  have "take 2 (Text m) @ take 2 (drop 2 (Text m)) @ drop 4 (Text m) = Text m"
    using append_take_drop_id [of 2 "drop 2 (Text m)"] append_take_drop_id [of 2 "Text m"] by simp
  then show "toMessage p = m"
    using l nonce_join [of "NonceVal m"] by (simp add: p toMessage_def PutUint16_Uint16)
  show "valid_packet p" unfolding valid_packet_def p Packet.simps by (rule and_sequenceMask_less)
qed

section \<open>Properties\<close>

text \<open>Packets. A packet whose sequence number fits 63 bits is read back from its message,
  direction and timestamps included, and whatever message parses is the encoding of the packet it
  parses to; only texts without room for the timestamps are refused.\<close>

theorem packet_roundtrip:
  "(valid_packet p \<longrightarrow> packetFromMessage (toMessage p) = Inr p) \<and>
   (packetFromMessage m = Inr q \<longrightarrow> toMessage q = m \<and> valid_packet q) \<and>
   (packetFromMessage m = Inl ErrShortPacket \<longleftrightarrow> length (Text m) < 4)"
  using packet.dec_enc [of p] packet.enc_dec [of m q] packet.dec_valid [of m q]
  by (auto simp: packetFromMessage_def)

lemma packet_roundtrip_witness:
  "packetFromMessage (toMessage \<lparr>Seq = 5, Dir = ToClient, Timestamp = 1, TimestampReply = 2, Payload = [9]\<rparr>)
     = Inr \<lparr>Seq = 5, Dir = ToClient, Timestamp = 1, TimestampReply = 2, Payload = [9]\<rparr>"
  using packet_roundtrip [of "\<lparr>Seq = 5, Dir = ToClient, Timestamp = 1, TimestampReply = 2, Payload = [9]\<rparr>"
      "\<lparr>NonceVal = 0, Text = []\<rparr>" undefined]
  by (simp add: valid_packet_def)

lemma timestamp16_not_missing: "timestamp16 t \<noteq> tsMissing"
  by (auto simp: timestamp16_def tsMissing_def Let_def)

lemma timestamp16_step:
  "\<exists>a. timestamp16 t = word_of_int (UnixMilli t + a) \<and>
     (a = 0 \<or> a = 1) \<and> (a = 1 \<longleftrightarrow> word_of_int (UnixMilli t) = tsMissing)"
  by (cases "word_of_int (UnixMilli t) = tsMissing")
    (auto simp: timestamp16_def Let_def intro: exI [of _ 0] exI [of _ 1])

text \<open>The 16-bit clock. A timestamp is never the sentinel for a missing reply, and the
  difference of the timestamps of two instants less than 65535 ms apart is their distance in
  milliseconds, up to the one millisecond the sentinel is stepped over, whatever the wrap-around.\<close>

theorem timestamp_clock:
  assumes "UnixMilli s \<le> UnixMilli t" "UnixMilli t - UnixMilli s < 65535"
  shows "timestamp16 t \<noteq> tsMissing \<and>
    \<bar>uint (timestampDiff (timestamp16 t) (timestamp16 s)) - (UnixMilli t - UnixMilli s)\<bar> \<le> 1"
proof -
  obtain a b where
    a: "timestamp16 t = word_of_int (UnixMilli t + a)" "a = 0 \<or> a = 1"
      "a = 1 \<longleftrightarrow> word_of_int (UnixMilli t) = tsMissing" and
    b: "timestamp16 s = word_of_int (UnixMilli s + b)" "b = 0 \<or> b = 1"
      "b = 1 \<longleftrightarrow> word_of_int (UnixMilli s) = tsMissing"
    using timestamp16_step [of t] timestamp16_step [of s] by blast
  let ?d = "UnixMilli t - UnixMilli s + a - b"
  have "a = b" if "UnixMilli t = UnixMilli s" using that a(2,3) b(2,3) by (auto simp: that)
  then have "a = b \<or> UnixMilli s < UnixMilli t" using assms(1) by linarith
  then have "0 \<le> ?d" "?d < 65536" using assms a(2) b(2) by auto
  moreover have "timestampDiff (timestamp16 t) (timestamp16 s) = word_of_int ?d"
    by (simp add: a(1) b(1) timestampDiff_def algebra_simps)
  moreover have "uint (word_of_int x :: u16) = x" if "0 \<le> x" "x < 65536" for x
    using that by (simp add: unsigned_of_int take_bit_int_eq_self)
  ultimately have "uint (timestampDiff (timestamp16 t) (timestamp16 s)) = ?d"
    by metis
  then show ?thesis using a(2) b(2) timestamp16_not_missing by auto
qed

lemma timestamp_clock_witness:
  "\<bar>uint (timestampDiff (timestamp16 (unixEpoch + 70000 * 1000000)) (timestamp16 (unixEpoch + 65000 * 1000000)))
     - 5000\<bar> \<le> 1"
  using timestamp_clock [of "unixEpoch + 65000 * 1000000" "unixEpoch + 70000 * 1000000"]
  by (simp add: UnixMilli_def)

end
