(* ===== verification/Float64.thy ===== *)
theory Float64
  imports Complex_Main Gosh_Prelude
begin

text \<open>
  The part of Go's \<^verbatim>\<open>float64\<close> arithmetic that the round-trip estimator uses. A float64 is the
  rational it denotes; an operation computes the exact result and rounds it to the nearest
  representable number, ties to even. The estimator stays inside the range of the finite
  numbers (below \<open>2 ^ 16\<close>), so overflow, infinities and NaN do not occur; subnormal numbers do
  (a variance that decays) and are included.
\<close>

type_synonym float64 = rat

text \<open>Round half to even.\<close>

definition roundEven :: "rat \<Rightarrow> int" where
  "roundEven x =
     (let f = \<lfloor>x\<rfloor>; d = x - of_int f
      in if d < 1 / 2 then f else if 1 / 2 < d then f + 1 else if even f then f else f + 1)"

text \<open>The distance between neighbouring floats at a magnitude: the greatest \<open>2 ^ (n - 1074)\<close>
  that leaves a significand of 53 bits, and \<open>2 ^ (-1074)\<close> for subnormal numbers.\<close>

fun quantum :: "nat \<Rightarrow> rat \<Rightarrow> rat" where
  "quantum 0 x = 1 / 2 ^ 1074"
| "quantum (Suc n) x =
     (let q = 2 ^ Suc n / 2 ^ 1074 in if 2 ^ 52 * q \<le> x then q else quantum n x)"

definition roundFloat :: "rat \<Rightarrow> float64" where
  "roundFloat x = (let q = quantum 2045 \<bar>x\<bar> in q * of_int (roundEven (x / q)))"

definition fadd :: "float64 \<Rightarrow> float64 \<Rightarrow> float64" where
  "fadd x y = roundFloat (x + y)"

definition fsub :: "float64 \<Rightarrow> float64 \<Rightarrow> float64" where
  "fsub x y = roundFloat (x - y)"

definition fmul :: "float64 \<Rightarrow> float64 \<Rightarrow> float64" where
  "fmul x y = roundFloat (x * y)"

definition fdiv :: "float64 \<Rightarrow> float64 \<Rightarrow> float64" where
  "fdiv x y = roundFloat (x / y)"

text \<open>Conversion of an unsigned integer below \<open>2 ^ 53\<close>, which is exact, and \<^verbatim>\<open>math.Abs\<close>.\<close>

definition float_of_u16 :: "u16 \<Rightarrow> float64" where
  "float_of_u16 w = of_nat (unat w)"

definition fabs :: "float64 \<Rightarrow> float64" where
  "fabs x = \<bar>x\<bar>"

section \<open>Rounding stays between integers\<close>

lemma roundEven_le: "x \<le> of_int n \<Longrightarrow> roundEven x \<le> n"
proof -
  assume x: "x \<le> of_int n"
  then have f: "\<lfloor>x\<rfloor> \<le> n" by (metis floor_mono floor_of_int)
  show ?thesis
  proof (cases "\<lfloor>x\<rfloor> = n")
    case True
    then have "x = of_int n" using x by linarith
    then show ?thesis by (simp add: roundEven_def)
  next
    case False
    then show ?thesis using f by (auto simp: roundEven_def Let_def)
  qed
qed

lemma roundEven_ge: "of_int n \<le> x \<Longrightarrow> n \<le> roundEven x"
proof -
  assume "of_int n \<le> x"
  then have "n \<le> \<lfloor>x\<rfloor>" by (simp add: le_floor_iff)
  then show ?thesis by (auto simp: roundEven_def Let_def)
qed

lemma quantum_pos: "0 < quantum n x"
  by (induction n) (simp_all add: Let_def)

lemma power_quotient:
  assumes "2 ^ 52 * (2 ^ a / 2 ^ b :: rat) * 2 ^ j < 2 ^ 53"
  shows "a + j \<le> b" "(2 ^ a / 2 ^ b :: rat) * 2 ^ (b - (a + j)) = 1 / 2 ^ j"
proof -
  have "(2 :: rat) ^ 52 * 2 ^ (a + j) < 2 ^ 52 * 2 ^ Suc b"
    using assms by (simp add: power_add field_simps)
  then have "(2 :: rat) ^ (a + j) < 2 ^ Suc b" by (rule mult_left_less_imp_less) simp
  then have "a + j < Suc b" by (simp only: power_strict_increasing_iff)
  then show ab: "a + j \<le> b" by simp
  then have "b = a + j + (b - (a + j))" by simp
  then have "(2 :: rat) ^ b = 2 ^ a * 2 ^ j * 2 ^ (b - (a + j))" by (metis power_add)
  then show "(2 ^ a / 2 ^ b :: rat) * 2 ^ (b - (a + j)) = 1 / 2 ^ j"
    by (simp add: field_simps)
qed

text \<open>Below \<open>2 ^ (53 - j)\<close> the quantum divides \<open>1 / 2 ^ j\<close>.\<close>

lemma quantum_divides:
  assumes "x * 2 ^ j < 2 ^ 53" "j \<le> 1074"
  shows "\<exists>k. quantum n x * 2 ^ k = 1 / 2 ^ j"
proof (induction n)
  case 0
  have "(2 :: rat) ^ 1074 = 2 ^ j * 2 ^ (1074 - j)" using assms(2) by (simp flip: power_add)
  then have "quantum 0 x * 2 ^ (1074 - j) = 1 / 2 ^ j" by (simp only: quantum.simps) (simp add: field_simps)
  then show ?case by blast
next
  case (Suc n)
  let ?q = "2 ^ Suc n / 2 ^ 1074 :: rat"
  show ?case
  proof (cases "2 ^ 52 * ?q \<le> x")
    case True
    then have "2 ^ 52 * ?q * 2 ^ j \<le> x * 2 ^ j" by (intro mult_right_mono) simp_all
    then have "2 ^ 52 * ?q * 2 ^ j < 2 ^ 53" using assms(1) by (rule le_less_trans)
    then have "?q * 2 ^ (1074 - (Suc n + j)) = 1 / 2 ^ j" by (rule power_quotient(2))
    then show ?thesis using True by (auto simp: Let_def simp del: power_Suc)
  next
    case False
    then show ?thesis using Suc by (simp add: Let_def del: power_Suc)
  qed
qed

lemma roundFloat_bounds:
  assumes "\<bar>x\<bar> * 2 ^ j < 2 ^ 53" "j \<le> 1074"
  shows "x \<le> of_int n / 2 ^ j \<Longrightarrow> roundFloat x \<le> of_int n / 2 ^ j"
    "of_int n / 2 ^ j \<le> x \<Longrightarrow> of_int n / 2 ^ j \<le> roundFloat x"
proof -
  let ?q = "quantum 2045 \<bar>x\<bar>"
  obtain k where k: "?q * 2 ^ k = 1 / 2 ^ j" using quantum_divides [OF assms] by blast
  have q: "0 < ?q" by (rule quantum_pos)
  have scale: "?q * of_int (n * 2 ^ k) = of_int n / 2 ^ j"
  proof -
    have "?q * of_int (n * 2 ^ k) = of_int n * (?q * 2 ^ k)" by (simp add: ac_simps)
    then show ?thesis by (simp only: k) simp
  qed
  then have inv: "of_int n / 2 ^ j / ?q = of_int (n * 2 ^ k)" using q by (simp add: field_simps)
  show "roundFloat x \<le> of_int n / 2 ^ j" if "x \<le> of_int n / 2 ^ j"
  proof -
    have "x / ?q \<le> of_int (n * 2 ^ k)" using that q inv by (metis divide_right_mono less_imp_le)
    then have "of_int (roundEven (x / ?q)) \<le> (of_int (n * 2 ^ k) :: rat)"
      by (simp only: of_int_le_iff roundEven_le)
    then have "?q * of_int (roundEven (x / ?q)) \<le> ?q * of_int (n * 2 ^ k)"
      using q by (intro mult_left_mono) auto
    then show ?thesis by (simp only: scale roundFloat_def Let_def)
  qed
  show "of_int n / 2 ^ j \<le> roundFloat x" if "of_int n / 2 ^ j \<le> x"
  proof -
    have "of_int (n * 2 ^ k) \<le> x / ?q" using that q inv by (metis divide_right_mono less_imp_le)
    then have "(of_int (n * 2 ^ k) :: rat) \<le> of_int (roundEven (x / ?q))"
      by (simp only: of_int_le_iff roundEven_ge)
    then have "?q * of_int (n * 2 ^ k) \<le> ?q * of_int (roundEven (x / ?q))"
      using q by (intro mult_left_mono) auto
    then show ?thesis by (simp only: scale roundFloat_def Let_def)
  qed
qed

lemma roundFloat_int:
  assumes "\<bar>n\<bar> < 2 ^ 53"
  shows "roundFloat (of_int n) = of_int n"
proof -
  have "\<bar>of_int n :: rat\<bar> < 2 ^ 53"
    using assms by (metis of_int_abs of_int_less_iff of_int_numeral of_int_power)
  then show ?thesis using roundFloat_bounds [of "of_int n" 0 n] by simp
qed

text \<open>The bounds the estimator needs, in eighths below \<open>2 ^ 16\<close>.\<close>

lemma roundFloat_eighths:
  assumes "0 \<le> x" "x \<le> of_int n / 8" "n \<le> 8 * 65536"
  shows "0 \<le> roundFloat x" "roundFloat x \<le> of_int n / 8"
proof -
  have "(of_int n :: rat) \<le> of_int (8 * 65536)" using assms(3) by (simp only: of_int_le_iff)
  then have "\<bar>x\<bar> * 2 ^ 3 < 2 ^ 53" using assms(1,2) by simp
  from roundFloat_bounds [OF this, of n] roundFloat_bounds [OF this, of 0] assms
  show "0 \<le> roundFloat x" "roundFloat x \<le> of_int n / 8" by simp_all
qed

lemma fabs_fsub:
  assumes "0 \<le> x" "x \<le> 65535" "0 \<le> y" "y \<le> 65535"
  shows "0 \<le> fabs (fsub x y) \<and> fabs (fsub x y) \<le> 65535"
proof -
  have "\<bar>x - y\<bar> * 2 ^ 0 < 2 ^ 53" using assms by (simp add: abs_less_iff)
  from roundFloat_bounds(1) [OF this, of 65535] roundFloat_bounds(2) [OF this, of "-65535"] assms
  show ?thesis by (simp add: fabs_def fsub_def abs_le_iff)
qed

end
