(* ===== verification/Connection.thy ===== *)
theory Connection
  imports Packet Float64
begin

unbundle bit_operations_syntax

text \<open>
  \<^verbatim>\<open>internal/network/connection.go\<close>: the client end of the datagram layer.

  The operating system and the clock are a script of answers: every call consumes the next
  answer and is logged, so that a theorem quantified over all worlds speaks of every behaviour
  of the network, the dialer and the clock. \<^verbatim>\<open>rawDialUDP\<close> answers in time or not at all; the
  goroutine that closes a socket which arrives after the timeout is outside the model.

  The two goroutines share the connection under \<^verbatim>\<open>mu\<close> and \<^verbatim>\<open>sockMu\<close>. The operations below are
  whole calls; the sections they perform under a lock (\<open>sendHeader\<close>, \<open>recvCommit\<close>, the hop
  check, the socket swap) are separate definitions, and \<open>conn_step\<close> interleaves those.
\<close>

section \<open>The world\<close>

record answer =
  ansTime :: time
  ansResolve :: "error + string"
  ansDial :: "(error + nat) option"
  ansErr :: "error option"
  ansRead :: "error + bytes"
  ansRand :: "nat \<Rightarrow> byte"

datatype event =
    EvNow
  | EvResolve string
  | EvDial string
  | EvClose nat
  | EvDeadline nat time
  | EvWrite nat bytes
  | EvRead nat nat
  | EvRand nat

record world =
  script :: "nat \<Rightarrow> answer"
  step :: nat
  log :: "event list"

definition call :: "event \<Rightarrow> world \<Rightarrow> answer \<times> world" where
  "call ev w = (script w (step w), w\<lparr>step := step w + 1, log := log w @ [ev]\<rparr>)"

definition timeNow :: "world \<Rightarrow> time \<times> world" where
  "timeNow w = (let (a, w) = call EvNow w in (ansTime a, w))"

definition randRead :: "nat \<Rightarrow> world \<Rightarrow> bytes \<times> world" where
  "randRead n w = (let (a, w) = call (EvRand n) w in (map (ansRand a) [0..<n], w))"

definition sockClose :: "nat \<Rightarrow> world \<Rightarrow> error option \<times> world" where
  "sockClose s w = (let (a, w) = call (EvClose s) w in (ansErr a, w))"

section \<open>The connection\<close>

definition DefaultSendMTU :: int where
  "DefaultSendMTU = 500"

definition network_AddedBytes :: int where
  "network_AddedBytes = 8 + 4"

definition crypto_AddedBytes :: int where
  "crypto_AddedBytes = 16"

definition receiveMTU :: nat where
  "receiveMTU = 2048"

definition minRTO :: duration where
  "minRTO = 50 * millisecond"

definition maxRTO :: duration where
  "maxRTO = 1000 * millisecond"

definition dialTimeout :: duration where
  "dialTimeout = 1500 * millisecond"

definition writeTimeout :: duration where
  "writeTimeout = 500 * millisecond"

definition portHopInterval :: duration where
  "portHopInterval = 10 * second"

record Connection =
  raddr :: string
  sock :: nat
  closed :: bool
  session :: Session
  nextSeq :: u64
  expectedReceiverSeq :: u64
  savedTimestamp :: u16
  savedTimestampReceivedAt :: time
  haveSavedTimestamp :: bool
  rttHit :: bool
  srtt :: float64
  rttvar :: float64
  lastHeard :: time
  lastPortChoice :: time
  lastRoundtripSuccess :: time

definition dialUDP :: "string \<Rightarrow> world \<Rightarrow> (error + nat) \<times> world" where
  "dialUDP addr w =
     (let (a, w) = call (EvDial addr) w
      in (case ansDial a of None \<Rightarrow> Inl ErrDialTimeout | Some r \<Rightarrow> r, w))"

definition newConnection :: "string \<Rightarrow> nat \<Rightarrow> Session \<Rightarrow> time \<Rightarrow> Connection" where
  "newConnection udpAddr s sess now =
     \<lparr>raddr = udpAddr, sock = s, closed = False, session = sess,
      nextSeq = 0, expectedReceiverSeq = 0, savedTimestamp = 0,
      savedTimestampReceivedAt = 0, haveSavedTimestamp = False,
      rttHit = False, srtt = 1000, rttvar = 500, lastHeard = 0,
      lastPortChoice = now, lastRoundtripSuccess = 0\<rparr>"

definition Dial :: "string \<Rightarrow> bytes \<Rightarrow> world \<Rightarrow> (error + Connection) \<times> world" where
  "Dial addr key w =
     (case NewSession key of
        Inl e \<Rightarrow> (Inl e, w)
      | Inr sess \<Rightarrow>
          (let (a, w) = call (EvResolve addr) w
           in case ansResolve a of
                Inl e \<Rightarrow> (Inl e, w)
              | Inr udpAddr \<Rightarrow>
                  (let (r, w) = dialUDP udpAddr w
                   in case r of
                        Inl e \<Rightarrow> (Inl e, w)
                      | Inr s \<Rightarrow>
                          (let (now, w) = timeNow w
                           in (Inr (newConnection udpAddr s sess now), w)))))"

definition Close :: "Connection \<Rightarrow> world \<Rightarrow> Connection \<times> error option \<times> world" where
  "Close c w = (let c = c\<lparr>closed := True\<rparr>; (e, w) = sockClose (sock c) w in (c, e, w))"

definition redial :: "Connection \<Rightarrow> world \<Rightarrow> Connection \<times> error option \<times> world" where
  "redial c w =
     (let (r, w) = dialUDP (raddr c) w
      in case r of
           Inl e \<Rightarrow> (c, Some e, w)
         | Inr newSock \<Rightarrow>
             (let old = sock c;
                  c = c\<lparr>sock := newSock\<rparr>;
                  (_, w) = sockClose old w;
                  (now, w) = timeNow w
              in (c\<lparr>lastPortChoice := now\<rparr>, None, w)))"

definition SetLastRoundtripSuccess :: "Connection \<Rightarrow> time \<Rightarrow> Connection" where
  "SetLastRoundtripSuccess c t =
     (if lastRoundtripSuccess c < t then c\<lparr>lastRoundtripSuccess := t\<rparr> else c)"

definition hopDue :: "Connection \<Rightarrow> time \<Rightarrow> bool" where
  "hopDue c now \<longleftrightarrow>
     portHopInterval < timeSub now (lastPortChoice c) \<and>
     portHopInterval < timeSub now (lastRoundtripSuccess c)"

definition maybeHopPort :: "Connection \<Rightarrow> time \<Rightarrow> world \<Rightarrow> Connection \<times> bool \<times> world" where
  "maybeHopPort c now w =
     (if \<not> hopDue c now then (c, False, w)
      else
        let (c, err, w) = redial c w
        in case err of
             Some _ \<Rightarrow> (c\<lparr>lastPortChoice := now\<rparr>, False, w)
           | None \<Rightarrow> (c, True, w))"

text \<open>The section of \<^verbatim>\<open>Send\<close> under \<^verbatim>\<open>mu\<close>: the header of the next packet.\<close>

definition sendHeader :: "Connection \<Rightarrow> time \<Rightarrow> bytes \<Rightarrow> Connection \<times> Packet" where
  "sendHeader c now payload =
     (let held = timeSub now (savedTimestampReceivedAt c);
          echo = haveSavedTimestamp c \<and> held < second;
          reply = (if echo then
                     let r = savedTimestamp c + word_of_int (Milliseconds held)
                     in if r = tsMissing then r + 1 else r
                   else tsMissing);
          c = (if echo then c\<lparr>haveSavedTimestamp := False\<rparr> else c);
          p = \<lparr>Seq = nextSeq c, Dir = ToServer, Timestamp = timestamp16 now,
               TimestampReply = reply, Payload = payload\<rparr>
      in (c\<lparr>nextSeq := nextSeq c + 1\<rparr>, p))"

definition writeDatagram :: "Connection \<Rightarrow> bytes \<Rightarrow> world \<Rightarrow> error option \<times> world" where
  "writeDatagram c b w =
     (let s = sock c;
          (now, w) = timeNow w;
          (a, w) = call (EvDeadline s (now + writeTimeout)) w
      in case ansErr a of
           Some e \<Rightarrow> (Some e, w)
         | None \<Rightarrow> (let (a, w) = call (EvWrite s b) w in (ansErr a, w)))"

text \<open>The end of \<^verbatim>\<open>Send\<close>, after the header: writing, and the one redial.\<close>

definition transmit :: "Connection \<Rightarrow> bool \<Rightarrow> bytes \<Rightarrow> world \<Rightarrow> Connection \<times> error option \<times> world" where
  "transmit c hopped wire w =
     (let (err, w) = writeDatagram c wire w
      in case err of
           None \<Rightarrow> (c, None, w)
         | Some e \<Rightarrow>
             if closed c \<or> hopped then (c, Some e, w)
             else
               let (c, rerr, w) = redial c w
               in case rerr of
                    Some re \<Rightarrow> (c, Some (ErrJoin e re), w)
                  | None \<Rightarrow> (let (err, w) = writeDatagram c wire w in (c, err, w)))"

definition Send :: "Connection \<Rightarrow> bytes \<Rightarrow> world \<Rightarrow> Connection \<times> error option \<times> world" where
  "Send c payload w =
     (let (now, w) = timeNow w;
          (c, hopped, w) = maybeHopPort c now w;
          (c, p) = sendHeader c now payload
      in case Encrypt_Message (session c) (toMessage p) of
           Inl e \<Rightarrow> (c, Some e, w)
         | Inr wire \<Rightarrow> transmit c hopped wire w)"

section \<open>Receiving\<close>

text \<open>The estimator, on a measured round trip of \<open>r\<close> milliseconds.\<close>

definition updateRTT :: "Connection \<Rightarrow> float64 \<Rightarrow> Connection" where
  "updateRTT c r =
     (if \<not> rttHit c then c\<lparr>srtt := r, rttvar := fdiv r 2, rttHit := True\<rparr>
      else
        let c = c\<lparr>rttvar := fadd (fmul (3 / 4) (rttvar c)) (fmul (1 / 4) (fabs (fsub (srtt c) r)))\<rparr>
        in c\<lparr>srtt := fadd (fmul (7 / 8) (srtt c)) (fmul (1 / 8) r)\<rparr>)"

text \<open>The section of \<^verbatim>\<open>Recv\<close> under \<^verbatim>\<open>mu\<close>.\<close>

definition recvCommit :: "Connection \<Rightarrow> Packet \<Rightarrow> world \<Rightarrow> Connection \<times> (error + bytes) \<times> world" where
  "recvCommit c p w =
     (if Seq p < expectedReceiverSeq c then (c, Inl ErrOldSequence, w)
      else
        let c = c\<lparr>expectedReceiverSeq := Seq p + 1\<rparr>;
            (now, w) = timeNow w;
            c = c\<lparr>lastHeard := now, savedTimestamp := Timestamp p,
                  savedTimestampReceivedAt := now, haveSavedTimestamp := True\<rparr>;
            c = (if TimestampReply p \<noteq> tsMissing
                 then updateRTT c (float_of_u16 (timestampDiff (timestamp16 now) (TimestampReply p)))
                 else c)
        in (c, Inr (Payload p), w))"

text \<open>Opening a datagram, before the lock is taken.\<close>

definition openPacket :: "Connection \<Rightarrow> bytes \<Rightarrow> error + Packet" where
  "openPacket c d =
     (case Decrypt_Message (session c) d of
        Inl e \<Rightarrow> Inl e
      | Inr msg \<Rightarrow>
          (case packetFromMessage msg of
             Inl e \<Rightarrow> Inl e
           | Inr p \<Rightarrow> if Dir p \<noteq> ToClient then Inl ErrDirection else Inr p))"

definition Recv :: "Connection \<Rightarrow> duration \<Rightarrow> world \<Rightarrow> Connection \<times> (error + bytes) \<times> world" where
  "Recv c timeout w =
     (let s = sock c;
          (now, w) = timeNow w;
          (a, w) = call (EvDeadline s (now + timeout)) w
      in case ansErr a of
           Some e \<Rightarrow> (c, Inl e, w)
         | None \<Rightarrow>
             (let (a, w) = call (EvRead s receiveMTU) w
              in case ansRead a of
                   Inl e \<Rightarrow> (c, Inl e, w)
                 | Inr d \<Rightarrow>
                     (case openPacket c (take receiveMTU d) of
                        Inl e \<Rightarrow> (c, Inl e, w)
                      | Inr p \<Rightarrow> recvCommit c p w)))"

section \<open>Estimates\<close>

definition SRTT :: "Connection \<Rightarrow> float64" where
  "SRTT c = srtt c"

definition Timeout :: "Connection \<Rightarrow> duration" where
  "Timeout c =
     (let rto = \<lceil>fadd (srtt c) (fmul 4 (rttvar c))\<rceil> * millisecond
      in if rto < minRTO then minRTO else if maxRTO < rto then maxRTO else rto)"

definition LastHeard :: "Connection \<Rightarrow> time" where
  "LastHeard c = lastHeard c"

definition MTU :: "Connection \<Rightarrow> int" where
  "MTU c = DefaultSendMTU - network_AddedBytes - crypto_AddedBytes"

section \<open>The sections under the lock, interleaved\<close>

text \<open>
  What one atomic section does to the connection, labelled with the packet it emits or the
  datagram it accepts. Datagrams are opened outside the lock, but the session never changes.
\<close>

datatype conn_label = Sent Packet | Accepted bytes Packet | Quiet

inductive conn_step :: "Connection \<Rightarrow> conn_label \<Rightarrow> Connection \<Rightarrow> bool" where
  header: "sendHeader c now payload = (c', p) \<Longrightarrow> conn_step c (Sent p) c'"
| commit: "openPacket c d = Inr p \<Longrightarrow> recvCommit c p w = (c', Inr b, w') \<Longrightarrow>
    conn_step c (Accepted d p) c'"
| stale: "openPacket c d = Inr p \<Longrightarrow> recvCommit c p w = (c', Inl e, w') \<Longrightarrow> conn_step c Quiet c'"
| swap: "conn_step c Quiet (c\<lparr>sock := s\<rparr>)"
| port: "conn_step c Quiet (c\<lparr>lastPortChoice := t\<rparr>)"
| roundtrip: "conn_step c Quiet (SetLastRoundtripSuccess c t)"
| close: "conn_step c Quiet (c\<lparr>closed := True\<rparr>)"

inductive conn_run :: "Connection \<Rightarrow> conn_label list \<Rightarrow> Connection \<Rightarrow> bool" where
  conn_refl: "conn_run c [] c"
| conn_more: "conn_run c ls c' \<Longrightarrow> conn_step c' a c'' \<Longrightarrow> conn_run c (ls @ [a]) c''"

inductive_cases conn_stepE: "conn_step c a c'"

fun sentOf :: "conn_label list \<Rightarrow> Packet list" where
  "sentOf [] = []"
| "sentOf (Sent p # ls) = p # sentOf ls"
| "sentOf (_ # ls) = sentOf ls"

fun acceptedOf :: "conn_label list \<Rightarrow> (bytes \<times> Packet) list" where
  "acceptedOf [] = []"
| "acceptedOf (Accepted d p # ls) = (d, p) # acceptedOf ls"
| "acceptedOf (_ # ls) = acceptedOf ls"

lemma sentOf_append [simp]: "sentOf (ls @ ks) = sentOf ls @ sentOf ks"
  by (induction ls rule: sentOf.induct) simp_all

lemma acceptedOf_append [simp]: "acceptedOf (ls @ ks) = acceptedOf ls @ acceptedOf ks"
  by (induction ls rule: acceptedOf.induct) simp_all

lemma conn_run_trans:
  "conn_run c' ks c'' \<Longrightarrow> conn_run c ls c' \<Longrightarrow> conn_run c (ls @ ks) c''"
proof (induction c' ks c'' rule: conn_run.induct)
  case (conn_more c' ks d a d')
  then show ?case using conn_run.conn_more [of c "ls @ ks" d a d'] by simp
qed simp

lemma conn_run_step: "conn_step c a c' \<Longrightarrow> conn_run c [a] c'"
  using conn_run.conn_more [OF conn_run.conn_refl] by fastforce

section \<open>What the sections do\<close>

lemma sendHeader_fields:
  assumes "sendHeader c now payload = (c', p)"
  shows "Seq p = nextSeq c" "Dir p = ToServer" "Timestamp p = timestamp16 now" "Payload p = payload"
    "c' = c\<lparr>nextSeq := nextSeq c + 1, haveSavedTimestamp := haveSavedTimestamp c'\<rparr>"
  using assms by (auto simp: sendHeader_def Let_def)

lemma openPacket_props:
  assumes "openPacket c d = Inr p"
  shows "Dir p = ToClient" "Seq p < 2 ^ 63"
  using assms packet.dec_valid [of _ p]
  by (auto simp: openPacket_def valid_packet_def split: sum.splits if_splits)

lemma updateRTT_fields [simp]:
  "session (updateRTT c r) = session c" "expectedReceiverSeq (updateRTT c r) = expectedReceiverSeq c"
  "nextSeq (updateRTT c r) = nextSeq c" "haveSavedTimestamp (updateRTT c r) = haveSavedTimestamp c"
  "savedTimestamp (updateRTT c r) = savedTimestamp c"
  "savedTimestampReceivedAt (updateRTT c r) = savedTimestampReceivedAt c"
  "lastHeard (updateRTT c r) = lastHeard c" "sock (updateRTT c r) = sock c"
  "closed (updateRTT c r) = closed c" "raddr (updateRTT c r) = raddr c"
  by (simp_all add: updateRTT_def Let_def)

lemma recvCommit_Inr:
  assumes "recvCommit c p w = (c', Inr b, w')"
  shows "\<not> Seq p < expectedReceiverSeq c" "expectedReceiverSeq c' = Seq p + 1" "b = Payload p"
    "nextSeq c' = nextSeq c" "session c' = session c" "haveSavedTimestamp c'" "savedTimestamp c' = Timestamp p"
    "savedTimestampReceivedAt c' = fst (timeNow w)" "lastHeard c' = fst (timeNow w)"
  using assms by (auto simp: recvCommit_def Let_def split: if_splits prod.splits)

lemma recvCommit_Inl:
  assumes "recvCommit c p w = (c', Inl e, w')"
  shows "c' = c" "e = ErrOldSequence" "w' = w" "Seq p < expectedReceiverSeq c"
  using assms by (auto simp: recvCommit_def Let_def split: if_splits prod.splits)

lemma conn_step_session: "conn_step c a c' \<Longrightarrow> session c' = session c"
  by (erule conn_stepE)
    (auto simp: sendHeader_def Let_def recvCommit_Inr SetLastRoundtripSuccess_def dest: recvCommit_Inl(1))

section \<open>Sequence numbers\<close>

lemma conn_step_quiet:
  assumes "conn_step c Quiet c'"
  shows "nextSeq c' = nextSeq c" "expectedReceiverSeq c' = expectedReceiverSeq c"
  using assms by (auto elim!: conn_stepE simp: SetLastRoundtripSuccess_def dest!: recvCommit_Inl(1))

lemma conn_step_sent:
  assumes "conn_step c (Sent p) c'"
  shows "Seq p = nextSeq c" "Dir p = ToServer" "nextSeq c' = nextSeq c + 1"
    "expectedReceiverSeq c' = expectedReceiverSeq c"
proof -
  obtain now payload where h: "sendHeader c now payload = (c', p)"
    using assms by (auto elim: conn_stepE)
  note f = sendHeader_fields [OF h]
  show "Seq p = nextSeq c" "Dir p = ToServer" by (fact f)+
  show "nextSeq c' = nextSeq c + 1" "expectedReceiverSeq c' = expectedReceiverSeq c"
    by (subst f(5), simp)+
qed

lemma conn_step_accepted:
  assumes "conn_step c (Accepted d p) c'"
  shows "expectedReceiverSeq c \<le> Seq p" "unat (expectedReceiverSeq c') = unat (Seq p) + 1"
    "nextSeq c' = nextSeq c" "openPacket c d = Inr p"
proof -
  obtain w b w' where r: "recvCommit c p w = (c', Inr b, w')" and o: "openPacket c d = Inr p"
    using assms by (auto elim: conn_stepE)
  note f = recvCommit_Inr [OF r]
  have "unat (Seq p) < 2 ^ 63" using openPacket_props(2) [OF o] by (simp add: word_less_nat_alt)
  then have "unat (Seq p + 1) = unat (Seq p) + 1" by (simp add: unat_word_ariths)
  then show "unat (expectedReceiverSeq c') = unat (Seq p) + 1" by (simp add: f)
  show "expectedReceiverSeq c \<le> Seq p" using f(1) by (simp add: not_less)
  show "nextSeq c' = nextSeq c" by (fact f)
  show "openPacket c d = Inr p" by (fact o)
qed

lemma accepted_increasing:
  assumes "conn_run c ls c'"
  shows "sorted_wrt (<) (map (\<lambda>(d, p). unat (Seq p)) (acceptedOf ls)) \<and>
    unat (expectedReceiverSeq c) \<le> unat (expectedReceiverSeq c') \<and>
    (\<forall>(d, p) \<in> set (acceptedOf ls). unat (expectedReceiverSeq c) \<le> unat (Seq p) \<and>
       unat (Seq p) < unat (expectedReceiverSeq c') \<and> openPacket c d = Inr p) \<and> session c' = session c"
  using assms
proof (induction rule: conn_run.induct)
  case (conn_more c ls c' a c'')
  have s: "session c'' = session c" using conn_step_session [OF conn_more(2)] conn_more(3) by simp
  then have op: "openPacket c' d = openPacket c d" for d
    using conn_more(3) by (simp add: openPacket_def)
  show ?case
  proof (cases a)
    case (Sent p)
    then show ?thesis using conn_more conn_step_sent(4) s by fastforce
  next
    case (Accepted d p)
    note f = conn_step_accepted [OF conn_more(2) [unfolded Accepted]]
    have "unat (expectedReceiverSeq c') \<le> unat (Seq p)" using f(1) by (simp add: word_le_nat_alt)
    then show ?thesis
      using conn_more(3) f(2,4) op s Accepted by (auto simp: sorted_wrt_append less_Suc_eq_le)
  next
    case Quiet
    then show ?thesis using conn_more conn_step_quiet(2) s by fastforce
  qed
qed simp

lemma sent_consecutive:
  assumes "conn_run c ls c'"
  shows "map Seq (sentOf ls) = map (\<lambda>i. nextSeq c + of_nat i) [0..<length (sentOf ls)] \<and>
    nextSeq c' = nextSeq c + of_nat (length (sentOf ls)) \<and> (\<forall>p \<in> set (sentOf ls). Dir p = ToServer)"
  using assms
proof (induction rule: conn_run.induct)
  case (conn_more c ls c' a c'')
  then show ?case
    by (cases a) (auto simp: conn_step_sent conn_step_quiet conn_step_accepted)
qed simp


section \<open>The calls are runs of sections\<close>

lemma redial_run:
  assumes "redial c w = (c', e, w')"
  shows "conn_run c [] c' \<or> conn_run c [Quiet, Quiet] c'"
proof (cases "fst (dialUDP (raddr c) w)")
  case (Inl a)
  then show ?thesis using assms by (auto simp: redial_def Let_def split: prod.splits intro: conn_refl)
next
  case (Inr s)
  then obtain t where "c' = c\<lparr>sock := s, lastPortChoice := t\<rparr>"
    using assms by (auto simp: redial_def Let_def split: prod.splits)
  then show ?thesis
    using conn_run_trans [OF conn_run_step [OF port [of "c\<lparr>sock := s\<rparr>" t]] conn_run_step [OF swap]] by simp
qed

lemma redial_quiet: "redial c w = (c', e, w') \<Longrightarrow> \<exists>ls. conn_run c ls c' \<and> sentOf ls = [] \<and> acceptedOf ls = []"
  using redial_run [of c w c' e w'] by force

lemma maybeHopPort_quiet:
  assumes "maybeHopPort c now w = (c', h, w')"
  shows "\<exists>ls. conn_run c ls c' \<and> sentOf ls = [] \<and> acceptedOf ls = []"
proof (cases "hopDue c now")
  case False
  then show ?thesis using assms by (auto simp: maybeHopPort_def intro: exI [of _ "[]"] conn_refl)
next
  case True
  obtain d e v where r: "redial c w = (d, e, v)" by (metis prod_cases3)
  then obtain ls where ls: "conn_run c ls d" "sentOf ls = []" "acceptedOf ls = []"
    using redial_quiet by blast
  then have "conn_run c (ls @ [Quiet]) (d\<lparr>lastPortChoice := now\<rparr>)"
    using conn_run.conn_more port by blast
  then have "c' = d \<or> (\<exists>ls. conn_run c ls c' \<and> sentOf ls = [] \<and> acceptedOf ls = [])"
    using assms True r ls
    by (auto simp: maybeHopPort_def split: option.splits intro!: exI [of _ "ls @ [Quiet]"])
  then show ?thesis using ls by blast
qed

lemma Send_split:
  assumes "Send c payload w = (c', err, w')"
  obtains now w1 c2 hopped w2 c3 p where
    "timeNow w = (now, w1)" "maybeHopPort c now w1 = (c2, hopped, w2)"
    "sendHeader c2 now payload = (c3, p)"
    "(\<exists>e. Encrypt_Message (session c3) (toMessage p) = Inl e \<and> c' = c3 \<and> err = Some e \<and> w' = w2) \<or>
     (\<exists>wire. Encrypt_Message (session c3) (toMessage p) = Inr wire \<and>
        transmit c3 hopped wire w2 = (c', err, w'))"
proof -
  obtain now w1 where 1: "timeNow w = (now, w1)" by fastforce
  obtain c2 hopped w2 where 2: "maybeHopPort c now w1 = (c2, hopped, w2)" by (metis prod_cases3)
  obtain c3 p where 3: "sendHeader c2 now payload = (c3, p)" by fastforce
  show thesis
    using that [OF 1 2 3] assms
    by (cases "Encrypt_Message (session c3) (toMessage p)")
      (simp_all add: Send_def 1 2 3 Let_def)
qed

lemma transmit_quiet:
  assumes "transmit c hopped wire w = (c', err, w')"
  shows "\<exists>ls. conn_run c ls c' \<and> sentOf ls = [] \<and> acceptedOf ls = []"
proof -
  have "c' = c \<or> (\<exists>w1 e w2. redial c w1 = (c', e, w2))"
    using assms by (auto simp: transmit_def Let_def split: prod.splits option.splits if_splits)
  then show ?thesis using redial_quiet conn_refl by fastforce
qed

lemma Send_run:
  assumes "Send c payload w = (c', err, w')"
  shows "\<exists>ls p. conn_run c ls c' \<and> sentOf ls = [p] \<and> acceptedOf ls = [] \<and> Payload p = payload"
proof -
  obtain now w1 c2 hopped w2 c3 p where s:
    "timeNow w = (now, w1)" "maybeHopPort c now w1 = (c2, hopped, w2)"
    "sendHeader c2 now payload = (c3, p)"
    "(\<exists>e. Encrypt_Message (session c3) (toMessage p) = Inl e \<and> c' = c3 \<and> err = Some e \<and> w' = w2) \<or>
     (\<exists>wire. Encrypt_Message (session c3) (toMessage p) = Inr wire \<and>
        transmit c3 hopped wire w2 = (c', err, w'))"
    using assms by (rule Send_split)
  obtain ls where ls: "conn_run c ls c2" "sentOf ls = []" "acceptedOf ls = []"
    using maybeHopPort_quiet [OF s(2)] by blast
  have 3: "conn_run c (ls @ [Sent p]) c3" using conn_more [OF ls(1) header [OF s(3)]] .
  obtain ks where ks: "conn_run c3 ks c'" "sentOf ks = []" "acceptedOf ks = []"
    using s(4) transmit_quiet conn_refl by fastforce
  have "conn_run c ((ls @ [Sent p]) @ ks) c'" using conn_run_trans [OF ks(1) 3] .
  then show ?thesis
    using ls ks sendHeader_fields(4) [OF s(3)] by (intro exI [of _ "(ls @ [Sent p]) @ ks"] exI [of _ p]) simp
qed

lemma Recv_cases:
  assumes "Recv c timeout w = (c', r, w')"
  shows "(\<exists>e. r = Inl e \<and> c' = c) \<or>
    (\<exists>d p w1. ansRead (script w (step w + 2)) = Inr d \<and> openPacket c (take receiveMTU d) = Inr p \<and>
       recvCommit c p w1 = (c', r, w') \<and> r = Inr (Payload p))"
proof (cases r)
  case (Inl e)
  then show ?thesis
    using assms by (auto simp: Recv_def timeNow_def call_def Let_def split: option.splits sum.splits
        dest: recvCommit_Inl(1))
next
  case (Inr b)
  then show ?thesis
    using assms by (fastforce simp: Recv_def timeNow_def call_def Let_def split: option.splits sum.splits
        dest: recvCommit_Inr(3))
qed

section \<open>What a call does to the world\<close>

text \<open>The events a call appends to the log.\<close>

definition logged :: "world \<Rightarrow> world \<Rightarrow> event list" where
  "logged w w' = drop (length (log w)) (log w')"

definition extends :: "world \<Rightarrow> event list \<Rightarrow> world \<Rightarrow> bool" where
  "extends w evs w' \<longleftrightarrow> script w' = script w \<and> log w' = log w @ evs"

lemma extends_refl [simp]: "extends w [] w"
  by (simp add: extends_def)

lemma extends_trans: "extends w es w' \<Longrightarrow> extends w' fs w'' \<Longrightarrow> extends w (es @ fs) w''"
  by (simp add: extends_def)

lemma extends_logged: "extends w es w' \<Longrightarrow> logged w w' = es"
  by (simp add: extends_def logged_def)

lemma extends_call [simp]: "extends w [ev] (snd (call ev w))"
  by (simp add: extends_def call_def)

definition dials :: "event list \<Rightarrow> nat" where
  "dials es = length (filter (\<lambda>e. \<exists>a. e = EvDial a) es)"

definition writes :: "event list \<Rightarrow> bytes list" where
  "writes es = concat (map (\<lambda>e. case e of EvWrite s b \<Rightarrow> [b] | _ \<Rightarrow> []) es)"

lemma dials_simps [simp]:
  "dials [] = 0" "dials (es @ fs) = dials es + dials fs" "dials (EvDial a # es) = Suc (dials es)"
  "dials (EvNow # es) = dials es" "dials (EvClose s # es) = dials es"
  "dials (EvDeadline s t # es) = dials es" "dials (EvWrite s b # es) = dials es"
  by (simp_all add: dials_def)

lemma writes_simps [simp]:
  "writes [] = []" "writes (es @ fs) = writes es @ writes fs" "writes (EvDial a # es) = writes es"
  "writes (EvNow # es) = writes es" "writes (EvClose s # es) = writes es"
  "writes (EvDeadline s t # es) = writes es" "writes (EvWrite s b # es) = b # writes es"
  by (simp_all add: writes_def)

lemma timeNow_extends: "timeNow w = (t, w') \<Longrightarrow> extends w [EvNow] w'"
  by (auto simp: timeNow_def call_def extends_def)

lemma redial_extends:
  assumes "redial c w = (c', e, w')"
  shows "\<exists>es. extends w es w' \<and> dials es = 1 \<and> writes es = [] \<and> session c' = session c"
  using assms
  by (auto simp: redial_def dialUDP_def sockClose_def timeNow_def call_def extends_def Let_def
      split: sum.splits option.splits)

lemma maybeHopPort_extends:
  assumes "maybeHopPort c now w = (c', h, w')"
  shows "\<exists>es. extends w es w' \<and> dials es = (if hopDue c now then 1 else 0) \<and> writes es = [] \<and>
    session c' = session c \<and> (h \<longrightarrow> hopDue c now)"
proof (cases "hopDue c now")
  case True
  obtain d e v where r: "redial c w = (d, e, v)" by (metis prod_cases3)
  then show ?thesis using assms True redial_extends [OF r] by (auto simp: maybeHopPort_def split: option.splits)
next
  case False
  then show ?thesis using assms by (auto simp: maybeHopPort_def intro!: exI [of _ "[]"])
qed

lemma writeDatagram_extends:
  assumes "writeDatagram c b w = (e, w')"
  shows "\<exists>es. extends w es w' \<and> dials es = 0 \<and> (writes es = [b] \<or> e \<noteq> None \<and> writes es = [])"
  using assms
  by (auto simp: writeDatagram_def timeNow_def call_def extends_def Let_def split: option.splits) metis

lemma transmit_extends:
  assumes "transmit c hopped wire w = (c', err, w')"
  shows "\<exists>es. extends w es w' \<and> dials es \<le> 1 \<and> length (writes es) \<le> 2 \<and>
    set (writes es) \<subseteq> {wire} \<and> (err = None \<longrightarrow> wire \<in> set (writes es)) \<and> (hopped \<longrightarrow> dials es = 0)"
proof -
  obtain e v where w1: "writeDatagram c wire w = (e, v)" by fastforce
  obtain es where es: "extends w es v" "dials es = 0" "writes es = [wire] \<or> e \<noteq> None \<and> writes es = []"
    using writeDatagram_extends [OF w1] by blast
  show ?thesis
  proof (cases "e = None \<or> closed c \<or> hopped")
    case True
    then show ?thesis
      using assms w1 es by (intro exI [of _ es]) (auto simp: transmit_def split: option.splits)
  next
    case False
    obtain d re u where r: "redial c v = (d, re, u)" by (metis prod_cases3)
    obtain fs where fs: "extends v fs u" "dials fs = 1" "writes fs = []"
      using redial_extends [OF r] by blast
    obtain e2 x where w2: "writeDatagram d wire u = (e2, x)" by fastforce
    obtain gs where gs: "extends u gs x" "dials gs = 0" "writes gs = [wire] \<or> e2 \<noteq> None \<and> writes gs = []"
      using writeDatagram_extends [OF w2] by blast
    note x1 = extends_trans [OF es(1) fs(1)] and x2 = extends_trans [OF extends_trans [OF es(1) fs(1)] gs(1)]
    show ?thesis
    proof (cases re)
      case None
      then have "w' = x" "err = e2" using assms False w1 r w2 by (auto simp: transmit_def)
      then show ?thesis using x2 es fs gs False by (intro exI [of _ "(es @ fs) @ gs"]) auto
    next
      case (Some b)
      then have "w' = u" "err \<noteq> None" using assms False w1 r by (auto simp: transmit_def)
      then show ?thesis using x1 es fs False by (intro exI [of _ "es @ fs"]) auto
    qed
  qed
qed

lemma toMessage_sealable: "length (Payload p) < 2 ^ 32 \<Longrightarrow> sealable (toMessage p)"
  by (simp add: sealable_def toMessage_def)

lemma Encrypt_packet:
  assumes "length (Payload p) < 2 ^ 32"
  obtains wire where "Encrypt_Message (newSession key) (toMessage p) = Inr wire"
    "length wire = length (Payload p) + 28" "take 8 wire = PutUint64 (NonceVal (toMessage p))"
proof -
  obtain ct where "Encrypt_Message (newSession key) (toMessage p) = Inr (PutUint64 (NonceVal (toMessage p)) @ ct)"
    "length ct = length (Text (toMessage p)) + 16"
    using Encrypt_newSession [OF toMessage_sealable [OF assms], of key] by blast
  then show thesis using that by (auto simp: toMessage_def)
qed

lemma sendHeader_session: "sendHeader c now payload = (c', p) \<Longrightarrow> session c' = session c"
  by (auto simp: sendHeader_def Let_def)

lemma Send_extends:
  assumes s: "Send c payload w = (c', err, w')" and key: "session c = newSession key"
    and len: "length payload < 2 ^ 32"
  shows "\<exists>p wire ls. conn_run c ls c' \<and> sentOf ls = [p] \<and> Payload p = payload \<and>
    Encrypt_Message (session c) (toMessage p) = Inr wire \<and> length wire = length payload + 28 \<and>
    dials (logged w w') \<le> 2 \<and> length (writes (logged w w')) \<le> 2 \<and>
    set (writes (logged w w')) \<subseteq> {wire} \<and> (err = None \<longrightarrow> wire \<in> set (writes (logged w w')))"
proof -
  obtain now w1 c2 hopped w2 c3 p where sp:
    "timeNow w = (now, w1)" "maybeHopPort c now w1 = (c2, hopped, w2)"
    "sendHeader c2 now payload = (c3, p)"
    "(\<exists>e. Encrypt_Message (session c3) (toMessage p) = Inl e \<and> c' = c3 \<and> err = Some e \<and> w' = w2) \<or>
     (\<exists>wire. Encrypt_Message (session c3) (toMessage p) = Inr wire \<and>
        transmit c3 hopped wire w2 = (c', err, w'))"
    using s by (rule Send_split)
  obtain es where es: "extends w1 es w2" "dials es \<le> 1" "writes es = []" "session c2 = session c"
    using maybeHopPort_extends [OF sp(2)] by (auto split: if_splits)
  have sess: "session c3 = newSession key" using sendHeader_session [OF sp(3)] es(4) key by simp
  have pay: "Payload p = payload" by (rule sendHeader_fields(4) [OF sp(3)])
  obtain wire where wire: "Encrypt_Message (newSession key) (toMessage p) = Inr wire"
    "length wire = length payload + 28"
    using Encrypt_packet [of p key] len pay by metis
  then have tr: "transmit c3 hopped wire w2 = (c', err, w')" using sp(4) sess by simp
  obtain fs where fs: "extends w2 fs w'" "dials fs \<le> 1" "length (writes fs) \<le> 2"
    "set (writes fs) \<subseteq> {wire}" "err = None \<longrightarrow> wire \<in> set (writes fs)"
    using transmit_extends [OF tr] by blast
  have ev: "logged w w' = ([EvNow] @ es) @ fs"
    using extends_trans [OF extends_trans [OF timeNow_extends [OF sp(1)] es(1)] fs(1)] by (rule extends_logged)
  obtain ls where ls: "conn_run c ls c2" "sentOf ls = []" "acceptedOf ls = []"
    using maybeHopPort_quiet [OF sp(2)] by blast
  obtain ks where ks: "conn_run c3 ks c'" "sentOf ks = []" "acceptedOf ks = []"
    using transmit_quiet [OF tr] by blast
  have "conn_run c ((ls @ [Sent p]) @ ks) c'"
    using conn_run_trans [OF ks(1) conn_more [OF ls(1) header [OF sp(3)]]] .
  moreover have "sentOf ((ls @ [Sent p]) @ ks) = [p]" using ls ks by simp
  ultimately show ?thesis
    using wire pay es fs key unfolding ev by (intro exI conjI) (assumption | simp | force)+
qed


section \<open>The estimator\<close>

definition rtt_ok :: "Connection \<Rightarrow> bool" where
  "rtt_ok c \<longleftrightarrow> 0 \<le> srtt c \<and> srtt c \<le> 65535 \<and> 0 \<le> rttvar c \<and> rttvar c \<le> 65535"

lemma weighted:
  assumes "0 \<le> x" "x \<le> 65535" "0 \<le> y" "y \<le> 65535" "0 \<le> k" "k \<le> 8"
  shows "0 \<le> fadd (fmul (of_int k / 8) x) (fmul (of_int (8 - k) / 8) y) \<and>
    fadd (fmul (of_int k / 8) x) (fmul (of_int (8 - k) / 8) y) \<le> 65535"
proof -
  have f: "0 \<le> fmul (of_int n / 8) z \<and> fmul (of_int n / 8) z \<le> of_int (n * 65535) / 8"
    if "0 \<le> n" "n \<le> 8" "0 \<le> z" "z \<le> 65535" for n z
  proof -
    have "of_int n * z \<le> of_int n * 65535" using that by (intro mult_left_mono) simp_all
    then show ?thesis
      using that roundFloat_eighths [of "of_int n / 8 * z" "n * 65535"] by (simp add: fmul_def)
  qed
  let ?a = "fmul (of_int k / 8) x" and ?b = "fmul (of_int (8 - k) / 8) y"
  have a: "0 \<le> ?a" "?a \<le> of_int (k * 65535) / 8" using f [of k x] assms by auto
  have b: "0 \<le> ?b" "?b \<le> of_int ((8 - k) * 65535) / 8" using f [of "8 - k" y] assms by auto
  have "?a + ?b \<le> of_int (8 * 65535) / 8"
    using a(2) b(2) by (simp add: field_simps)
  then show ?thesis
    using a(1) b(1) roundFloat_eighths [of "?a + ?b" "8 * 65535"] by (simp add: fadd_def)
qed

lemma updateRTT_ok:
  assumes "rtt_ok c" "0 \<le> r" "r \<le> 65535"
  shows "rtt_ok (updateRTT c r)"
proof (cases "rttHit c")
  case False
  have "0 \<le> fdiv r 2 \<and> fdiv r 2 \<le> 65535"
    using assms roundFloat_eighths [of "r / 2" "8 * 65535"] by (simp add: fdiv_def)
  then show ?thesis using False assms by (simp add: updateRTT_def rtt_ok_def)
next
  case True
  have d: "0 \<le> fabs (fsub (srtt c) r) \<and> fabs (fsub (srtt c) r) \<le> 65535"
    using fabs_fsub assms by (simp add: rtt_ok_def)
  show ?thesis
    using True assms d weighted [of "rttvar c" "fabs (fsub (srtt c) r)" 6] weighted [of "srtt c" r 7]
    by (simp add: updateRTT_def rtt_ok_def Let_def)
qed

lemma float_of_u16_bounds: "0 \<le> float_of_u16 w \<and> float_of_u16 w \<le> 65535"
proof -
  have "unat w \<le> 65535" using unsigned_less [of w, where 'a = nat] by simp
  then have "(of_nat (unat w) :: rat) \<le> of_nat 65535" by (simp only: of_nat_le_iff)
  then show ?thesis unfolding float_of_u16_def by (metis of_nat_0_le_iff of_nat_numeral)
qed

lemma recvCommit_rtt: "rtt_ok c \<Longrightarrow> recvCommit c p w = (c', r, w') \<Longrightarrow> rtt_ok c'"
  using updateRTT_ok float_of_u16_bounds
  by (auto simp: recvCommit_def Let_def rtt_ok_def [of "_\<lparr>lastHeard := _\<rparr>"] split: if_splits prod.splits)
    (auto simp: rtt_ok_def)

lemma conn_step_rtt: "conn_step c a c' \<Longrightarrow> rtt_ok c \<Longrightarrow> rtt_ok c'"
  by (erule conn_stepE)
    (auto simp: sendHeader_def Let_def SetLastRoundtripSuccess_def intro: recvCommit_rtt,
      auto simp: rtt_ok_def)

section \<open>Properties\<close>

text \<open>C10: replay protection. In every interleaving of the sections the two goroutines execute, the
  sequence numbers of the accepted datagrams increase strictly, so no datagram is accepted twice,
  and every accepted datagram is one the session opens, in the server's direction.\<close>

theorem no_replay:
  assumes "conn_run c ls c'"
  shows "sorted_wrt (<) (map (\<lambda>(d, p). unat (Seq p)) (acceptedOf ls)) \<and> distinct (map fst (acceptedOf ls)) \<and>
    (\<forall>(d, p) \<in> set (acceptedOf ls). openPacket c d = Inr p \<and> Dir p = ToClient \<and>
       unat (expectedReceiverSeq c) \<le> unat (Seq p) \<and> unat (Seq p) < unat (expectedReceiverSeq c'))"
proof -
  note inc = accepted_increasing [OF assms]
  have "openPacket c (fst x) = Inr (snd x)" if "x \<in> set (acceptedOf ls)" for x
    using inc that by (cases x) auto
  then have "x = y" if "x \<in> set (acceptedOf ls)" "y \<in> set (acceptedOf ls)" "fst x = fst y" for x y
    using that by (metis Inr_inject prod_eqI)
  then have "inj_on fst (set (acceptedOf ls))" by (rule inj_onI)
  moreover have "distinct (map (\<lambda>(d, p). unat (Seq p)) (acceptedOf ls))"
    using inc strict_sorted_iff by blast
  then have "distinct (acceptedOf ls)" by (simp add: distinct_map)
  ultimately have "distinct (map fst (acceptedOf ls))" by (simp add: distinct_map)
  then show ?thesis using inc openPacket_props(1) by auto
qed

lemma openPacket_sealed:
  assumes "session c = newSession key" "valid_packet p" "Dir p = ToClient" "length (Payload p) < 2 ^ 32"
  shows "openPacket c (sealed (newSession key) (toMessage p)) = Inr p"
  using assms datagram.dec_enc [OF toMessage_sealable [OF assms(4)], of key] packet.dec_enc [OF assms(2)]
  by (simp add: openPacket_def)

lemma commit_fresh:
  assumes "expectedReceiverSeq c \<le> Seq p"
  shows "\<exists>c' w'. recvCommit c p w = (c', Inr (Payload p), w')"
  using assms by (auto simp: recvCommit_def Let_def not_less split: prod.splits)

lemma no_replay_witness:
  "\<exists>c c' d p. conn_run c [Accepted d p] c' \<and> unat (Seq p) = 5 \<and> unat (expectedReceiverSeq c') = 6 \<and>
     Dir p = ToClient"
proof -
  let ?p = "\<lparr>Seq = 5, Dir = ToClient, Timestamp = 1, TimestampReply = 2, Payload = [9]\<rparr>"
  let ?c = "newConnection ''h'' 0 (newSession (replicate 16 0)) 0"
  let ?d = "sealed (newSession (replicate 16 0)) (toMessage ?p)"
  have o: "openPacket ?c ?d = Inr ?p"
    by (rule openPacket_sealed) (simp_all add: newConnection_def valid_packet_def)
  obtain c' w' where r: "recvCommit ?c ?p undefined = (c', Inr (Payload ?p), w')"
    using commit_fresh [of ?c ?p undefined] by (auto simp: newConnection_def)
  have run: "conn_run ?c [Accepted ?d ?p] c'" by (rule conn_run_step) (rule commit [OF o r])
  then have "Dir ?p = ToClient" using no_replay [OF run] by simp
  moreover have "unat (expectedReceiverSeq c') = 6" using recvCommit_Inr(2) [OF r] by simp
  ultimately show ?thesis using run by (intro exI conjI) (assumption | simp)+
qed


lemma nonce_to_server:
  assumes "Seq p < 2 ^ 63" "Dir p = ToServer"
  shows "NonceVal (toMessage p) = Seq p"
  using assms and_sequenceMask_id by (simp add: toMessage_def directionVal_def)

text \<open>C11: nonces. Over any interleaving, the packets the client emits are numbered consecutively;
  as long as fewer than \<open>2 ^ 63\<close> have been sent, no two share a nonce value, and all lie in the
  client's half of the nonce space, so no nonce of the server's is ever used for sealing.\<close>

theorem nonces_unique:
  assumes "conn_run c ls c'" "nextSeq c = 0" "length (sentOf ls) < 2 ^ 63"
  shows "map (\<lambda>p. NonceVal (toMessage p)) (sentOf ls) = map of_nat [0..<length (sentOf ls)] \<and>
    distinct (map (\<lambda>p. NonceVal (toMessage p)) (sentOf ls)) \<and>
    (\<forall>p \<in> set (sentOf ls). NonceVal (toMessage p) AND directionMask = 0)"
proof -
  let ?n = "length (sentOf ls)"
  have seqs: "map Seq (sentOf ls) = map of_nat [0..<?n]" and dirs: "\<forall>p \<in> set (sentOf ls). Dir p = ToServer"
    using sent_consecutive [OF assms(1)] assms(2) by auto
  have u: "unat (of_nat i :: u64) = i" if "i < ?n" for i
    using that assms(3) by (simp add: unsigned_of_nat take_bit_nat_eq_self)
  have small: "Seq p < 2 ^ 63" if "p \<in> set (sentOf ls)" for p
  proof -
    have "Seq p \<in> set (map of_nat [0..<?n])" using that seqs by (metis image_eqI set_map)
    then obtain i where "i < ?n" "Seq p = of_nat i" by auto
    then show ?thesis using u assms(3) by (simp add: word_less_nat_alt)
  qed
  have nv: "map (\<lambda>p. NonceVal (toMessage p)) (sentOf ls) = map Seq (sentOf ls)"
    using small dirs nonce_to_server by simp
  have "inj_on (of_nat :: nat \<Rightarrow> u64) {..<?n}" using u by (metis inj_onI lessThan_iff)
  then have "distinct (map (of_nat :: nat \<Rightarrow> u64) [0..<?n])" by (simp add: distinct_map lessThan_atLeast0)
  moreover have "Seq p AND directionMask = 0" if "p \<in> set (sentOf ls)" for p
    using small [OF that] bit_beyond [of "Seq p" 63 63] by (simp add: and_directionMask word_less_nat_alt)
  ultimately show ?thesis using nv seqs small dirs nonce_to_server by simp
qed

lemma nonces_unique_witness:
  "\<exists>c ls c'. conn_run c ls c' \<and> map (\<lambda>p. NonceVal (toMessage p)) (sentOf ls) = [0, 1]"
proof -
  let ?c = "newConnection ''h'' 0 (newSession (replicate 16 0)) 0"
  obtain c1 p1 where 1: "sendHeader ?c 0 [] = (c1, p1)" by fastforce
  obtain c2 p2 where 2: "sendHeader c1 0 [] = (c2, p2)" by fastforce
  have "conn_run ?c ([Sent p1] @ [Sent p2]) c2"
    by (rule conn_more [OF conn_run_step [OF header [OF 1]] header [OF 2]])
  note run = this
  have "map (\<lambda>p. NonceVal (toMessage p)) (sentOf ([Sent p1] @ [Sent p2])) = [0, 1]"
    using nonces_unique [OF run] by (simp add: newConnection_def upt_rec)
  then show ?thesis using run by (intro exI conjI)
qed

text \<open>C27: one \<open>Send\<close>. It consumes one sequence number, seals the payload once and, whatever the
  operating system answers, writes nothing but that one datagram (at most twice: the retry after a
  redial repeats the same bytes); success means it was handed to a socket. A payload within the MTU
  makes a datagram of at most 500 bytes.\<close>

theorem send_one_datagram:
  assumes "NewSession key = Inr (session c)" "Send c payload w = (c', err, w')" "length payload < 2 ^ 32"
  shows "\<exists>p wire ls. conn_run c ls c' \<and> sentOf ls = [p] \<and> Payload p = payload \<and>
    Encrypt_Message (session c) (toMessage p) = Inr wire \<and>
    set (writes (logged w w')) \<subseteq> {wire} \<and> length (writes (logged w w')) \<le> 2 \<and>
    (err = None \<longrightarrow> wire \<in> set (writes (logged w w'))) \<and> dials (logged w w') \<le> 2 \<and>
    (int (length payload) \<le> MTU c \<longrightarrow> int (length wire) \<le> DefaultSendMTU)"
proof -
  have "session c = newSession key"
    using assms(1) by (simp add: NewSession_def New_def newSession_def split: if_splits)
  then show ?thesis
    using Send_extends [OF assms(2) _ assms(3)]
    by (fastforce simp: MTU_def DefaultSendMTU_def network_AddedBytes_def crypto_AddedBytes_def)
qed

text \<open>A world in which every call succeeds, and one in which dialing and writing fail.\<close>

definition goodWorld :: world where
  "goodWorld = \<lparr>script = (\<lambda>_. \<lparr>ansTime = 5 * second, ansResolve = Inr ''a'', ansDial = Some (Inr 7), ansErr = None,
     ansRead = Inr [], ansRand = (\<lambda>_. 0)\<rparr>), step = 0, log = []\<rparr>"

definition deadWorld :: world where
  "deadWorld = \<lparr>script = (\<lambda>n. \<lparr>ansTime = 11 * second, ansResolve = Inl (ErrOS 1), ansDial = Some (Inl (ErrOS 2)),
     ansErr = Some (ErrOS 3), ansRead = Inl (ErrOS 4), ansRand = (\<lambda>_. 0)\<rparr>), step = 0, log = []\<rparr>"

lemma NewSession_zero: "NewSession (replicate 16 0) = Inr (newSession (replicate 16 0))"
  by (simp add: NewSession_def New_def newSession_def)

lemma send_one_datagram_witness:
  "\<exists>c' err w' wire. Send (newConnection ''h'' 0 (newSession (replicate 16 0)) 0) [1, 2, 3] goodWorld = (c', err, w') \<and>
     set (writes (logged goodWorld w')) \<subseteq> {wire} \<and> int (length wire) \<le> 500"
proof -
  let ?c = "newConnection ''h'' 0 (newSession (replicate 16 0)) 0"
  obtain c' err w' where s: "Send ?c [1, 2, 3] goodWorld = (c', err, w')" by (metis prod_cases3)
  show ?thesis
    using send_one_datagram [OF _ s, of "replicate 16 0"] s
    by (auto simp: newConnection_def NewSession_zero MTU_def DefaultSendMTU_def network_AddedBytes_def
        crypto_AddedBytes_def)
qed


text \<open>C12: receiving. Whatever the socket delivers, \<open>Recv\<close> either returns an error and leaves the
  connection untouched, or it returns the payload of a datagram that was sealed under the session
  key, in the server's direction, with a sequence number not seen before; then exactly the
  datagrams up to that number are refused from now on. Reflected and forged datagrams are errors.\<close>

theorem recv_authentic:
  assumes "NewSession key = Inr (session c)" "Recv c timeout w = (c', r, w')"
  shows "(\<exists>e. r = Inl e \<and> c' = c) \<or>
    (\<exists>d p. ansRead (script w (step w + 2)) = Inr d \<and> r = Inr (Payload p) \<and>
       Encrypt_Message (session c) (toMessage p) = Inr (take receiveMTU d) \<and> Dir p = ToClient \<and>
       expectedReceiverSeq c \<le> Seq p \<and> unat (expectedReceiverSeq c') = unat (Seq p) + 1)"
proof -
  have k: "session c = newSession key"
    using assms(1) by (simp add: NewSession_def New_def newSession_def split: if_splits)
  consider (err) e where "r = Inl e" "c' = c"
    | (acc) d p w1 where "ansRead (script w (step w + 2)) = Inr d" "openPacket c (take receiveMTU d) = Inr p"
      "recvCommit c p w1 = (c', r, w')" "r = Inr (Payload p)"
    using Recv_cases [OF assms(2)] by blast
  then show ?thesis
  proof cases
    case acc
    have st: "conn_step c (Accepted (take receiveMTU d) p) c'"
      using commit [OF acc(2)] acc(3,4) by blast
    obtain m where m: "Decrypt_Message (session c) (take receiveMTU d) = Inr m" "packetFromMessage m = Inr p"
      using acc(2) by (auto simp: openPacket_def split: sum.splits if_splits)
    then have "Encrypt_Message (session c) (toMessage p) = Inr (take receiveMTU d)"
      using packet.enc_dec [OF m(2)] datagram.enc_dec [of key _ m] datagram.dec_valid [of key _ m]
        Encrypt_newSession [of m key] by (auto simp: k sealed_def)
    then show ?thesis
      using acc(1,4) openPacket_props(1) [OF acc(2)] conn_step_accepted(1,2) [OF st] by blast
  qed blast
qed

lemma recv_authentic_witness:
  "\<exists>c' e w'. Recv (newConnection ''h'' 0 (newSession (replicate 16 0)) 0) 0 deadWorld = (c', Inl e, w') \<and>
     c' = newConnection ''h'' 0 (newSession (replicate 16 0)) 0"
proof -
  let ?c = "newConnection ''h'' 0 (newSession (replicate 16 0)) 0"
  obtain c' r w' where s: "Recv ?c 0 deadWorld = (c', r, w')" by (metis prod_cases3)
  have "ansRead (script deadWorld (step deadWorld + 2)) = Inl (ErrOS 4)" by (simp add: deadWorld_def)
  then show ?thesis
    using recv_authentic [OF _ s, of "replicate 16 0"] s
    by (auto simp: newConnection_def NewSession_zero)
qed

text \<open>An authentic, fresh datagram is accepted: when the socket delivers the sealing of a
  packet in the server's direction whose number is not below the expected one, \<open>Recv\<close> returns
  its payload, remembers its timestamp for the echo, and has heard from the server now.\<close>

theorem recv_accepts_fresh:
  assumes "NewSession key = Inr (session c)" "valid_packet p" "Dir p = ToClient"
    and "expectedReceiverSeq c \<le> Seq p"
    and "Encrypt_Message (session c) (toMessage p) = Inr d" "length d \<le> receiveMTU"
    and "ansErr (script w (step w + 1)) = None" "ansRead (script w (step w + 2)) = Inr d"
  shows "\<exists>c' w'. Recv c timeout w = (c', Inr (Payload p), w') \<and>
    LastHeard c' = ansTime (script w (step w + 3)) \<and> haveSavedTimestamp c' \<and>
    savedTimestamp c' = Timestamp p"
proof -
  have k: "session c = newSession key"
    using assms(1) by (simp add: NewSession_def New_def newSession_def split: if_splits)
  have len: "length (Payload p) < 2 ^ 32"
  proof -
    have "length (drop 4 (nonceBytes (NonceVal (toMessage p)))) + length (Text (toMessage p)) \<le> length d"
      using assms(5) unfolding Encrypt_Message_def Let_def k newSession_def Session.simps
      by (rule ocb.Seal_length)
    then show ?thesis using assms(6) by (simp add: toMessage_def receiveMTU_def)
  qed
  have o: "openPacket c d = Inr p"
    using openPacket_sealed [OF k assms(2,3) len] assms(5) by (simp add: k sealed_def)
  let ?w = "w\<lparr>step := step w + 3, log := log w @ [EvNow, EvDeadline (sock c) (ansTime (script w (step w)) + timeout),
      EvRead (sock c) receiveMTU]\<rparr>"
  obtain c' w' where r: "recvCommit c p ?w = (c', Inr (Payload p), w')"
    using commit_fresh [OF assms(4)] by blast
  have "Recv c timeout w = (c', Inr (Payload p), w')"
    using assms(6,7,8) o r
    by (simp add: Recv_def timeNow_def call_def Let_def numeral_3_eq_3 numeral_2_eq_2)
  then show ?thesis
    using recvCommit_Inr [OF r] by (simp add: LastHeard_def timeNow_def call_def)
qed


lemma recv_accepts_fresh_witness:
  "\<exists>w c' w'. Recv (newConnection ''h'' 0 (newSession (replicate 16 0)) 0) 0 w = (c', Inr [9], w') \<and>
     savedTimestamp c' = 1"
proof -
  let ?c = "newConnection ''h'' 0 (newSession (replicate 16 0)) 0"
  let ?p = "\<lparr>Seq = 5, Dir = ToClient, Timestamp = 1, TimestampReply = 2, Payload = [9]\<rparr>"
  obtain d where d: "Encrypt_Message (newSession (replicate 16 0)) (toMessage ?p) = Inr d" "length d = 29"
    using Encrypt_packet [of ?p "replicate 16 0"] by auto
  let ?w = "goodWorld\<lparr>script := (\<lambda>n. (script goodWorld n)\<lparr>ansRead := Inr d\<rparr>)\<rparr>"
  show ?thesis
    using recv_accepts_fresh [of "replicate 16 0" ?c ?p d ?w 0] d
    by (auto simp: newConnection_def NewSession_zero valid_packet_def receiveMTU_def goodWorld_def)
qed

text \<open>C28: the round-trip estimator. From a fresh connection on, under every interleaving and in
  rounded float64 arithmetic, the smoothed round trip and its variance stay between 0 and 65535 ms,
  and the retransmission timeout lies between 50 ms and 1 s.\<close>

theorem rtt_bounded:
  assumes "conn_run (newConnection addr s sess t) ls c"
  shows "0 \<le> SRTT c \<and> SRTT c \<le> 65535 \<and> 0 \<le> rttvar c \<and> rttvar c \<le> 65535 \<and>
    50 * millisecond \<le> Timeout c \<and> Timeout c \<le> 1 * second"
proof -
  have "conn_run c0 ls c \<Longrightarrow> rtt_ok c0 \<Longrightarrow> rtt_ok c" for c0 c
    by (induction rule: conn_run.induct) (auto intro: conn_step_rtt)
  then have "rtt_ok c" using assms by (simp add: newConnection_def rtt_ok_def)
  then show ?thesis
    by (auto simp: rtt_ok_def SRTT_def Timeout_def minRTO_def maxRTO_def Let_def go_time)
qed

lemma rtt_bounded_witness:
  "SRTT (newConnection ''h'' 0 (newSession (replicate 16 0)) 0) \<le> 65535 \<and>
   Timeout (newConnection ''h'' 0 (newSession (replicate 16 0)) 0) \<le> 1 * second"
  using rtt_bounded [OF conn_refl] by blast

text \<open>The echo of timestamps. The header written within a second of an accepted packet
  carries that packet's timestamp advanced by the whole milliseconds it was held (stepping over the
  sentinel); the echo is used up, so the next header before another packet arrives carries none.\<close>

theorem timestamp_echo:
  assumes "recvCommit c p w = (c1, Inr b, w1)" "sendHeader c1 now payload = (c2, q)"
    and "sendHeader c2 now2 payload2 = (c3, q2)"
    and "0 \<le> now - ansTime (script w (step w))" "now - ansTime (script w (step w)) < second"
  shows "TimestampReply q \<noteq> tsMissing \<and>
    (let echo = Timestamp p + word_of_int ((now - ansTime (script w (step w))) div 1000000)
     in TimestampReply q = (if echo = tsMissing then 0 else echo)) \<and>
    TimestampReply q2 = tsMissing"
proof -
  have c1: "haveSavedTimestamp c1" "savedTimestamp c1 = Timestamp p"
    "savedTimestampReceivedAt c1 = ansTime (script w (step w))"
    using recvCommit_Inr(6,7,8) [OF assms(1)] by (simp_all add: timeNow_def call_def)
  have t: "timeSub now (ansTime (script w (step w))) = now - ansTime (script w (step w))"
    using assms(4,5) by (simp add: go_time)
  have "haveSavedTimestamp c2 = False"
    using assms(2,5) c1 t by (auto simp: sendHeader_def Let_def)
  then show ?thesis
    using assms(2-5) c1 t
    by (auto simp: sendHeader_def Let_def Milliseconds_def tdiv_def tsMissing_def)
qed

lemma timestamp_echo_witness:
  "\<exists>c1 w1 c2 q. recvCommit (newConnection ''h'' 0 (newSession (replicate 16 0)) 0)
      \<lparr>Seq = 5, Dir = ToClient, Timestamp = 1, TimestampReply = 0xFFFF, Payload = [9]\<rparr> goodWorld = (c1, Inr [9], w1) \<and>
    sendHeader c1 (5 * second + 3 * millisecond) [] = (c2, q) \<and> TimestampReply q = 4"
proof -
  let ?p = "\<lparr>Seq = 5, Dir = ToClient, Timestamp = 1, TimestampReply = 0xFFFF, Payload = [9]\<rparr>"
  let ?c = "newConnection ''h'' 0 (newSession (replicate 16 0)) 0"
  obtain c1 w1 where r: "recvCommit ?c ?p goodWorld = (c1, Inr (Payload ?p), w1)"
    using commit_fresh [of ?c ?p goodWorld] by (auto simp: newConnection_def)
  obtain c2 q where s: "sendHeader c1 (5 * second + 3 * millisecond) [] = (c2, q)" by fastforce
  obtain c3 q2 where s2: "sendHeader c2 0 [] = (c3, q2)" by fastforce
  show ?thesis
    using timestamp_echo [OF r s s2] r s by (simp add: goodWorld_def go_time tsMissing_def)
qed

text \<open>The comment on the dial timeout says that one \<open>Send\<close> never dials twice. It does when
  the proactive port hop is due and its dial fails: \<open>maybeHopPort\<close> reports no hop, the write on the
  old socket fails, and the error path dials again.\<close>

theorem send_dials_twice:
  "\<exists>c' err w'. Send (newConnection ''h'' 0 (newSession (replicate 16 0)) 0) [] deadWorld = (c', err, w') \<and>
     dials (logged deadWorld w') = 2"
proof -
  let ?c = "newConnection ''h'' 0 (newSession (replicate 16 0)) 0"
  let ?s = "newSession (replicate 16 0)"
  have enc: "\<exists>wire. Encrypt_Message ?s (toMessage p) = Inr wire" if "Payload p = []" for p
    using Encrypt_packet [of p "replicate 16 0"] that by auto
  let ?p = "\<lparr>Seq = 0, Dir = ToServer, Timestamp = timestamp16 (11 * second), TimestampReply = tsMissing, Payload = []\<rparr>"
  obtain wire where w: "Encrypt_Message ?s (toMessage ?p) = Inr wire" using enc [of ?p] by auto
  have "hopDue ?c (11 * second)" by (simp add: hopDue_def newConnection_def portHopInterval_def go_time)
  then show ?thesis
    using w
    by (simp add: Send_def maybeHopPort_def redial_def dialUDP_def timeNow_def call_def sendHeader_def Let_def
        transmit_def writeDatagram_def deadWorld_def logged_def newConnection_def dials_def)
qed

end
