(* ===== verification/Wire.thy ===== *)
theory Wire
  imports Gosh_Prelude
begin

unbundle bit_operations_syntax

text \<open>
  Package \<^verbatim>\<open>internal/wire\<close>: the hand-written proto2 codec. Varints, tags and
  length-delimited fields, the field walker \<open>parseFields\<close> with its visitor, and the three
  messages (\<open>Instruction\<close>, \<open>UserMessage\<close>, \<open>HostMessage\<close>). A visitor closure of the source
  is a function on the state it captures; the state is dropped when an error is returned, as
  the callers of \<open>parseFields\<close> do.

  Go's \<^verbatim>\<open>int\<close> is an \<open>int\<close> (the shipped targets are 64-bit); conversions to and from
  \<^verbatim>\<open>uint64\<close> are \<open>word_of_int\<close>, \<open>unat\<close> and \<open>sint\<close>.
\<close>

section \<open>Varints and fields\<close>

definition wireVarint :: int where "wireVarint = 0"
definition wireI64 :: int where "wireI64 = 1"
definition wireBytes :: int where "wireBytes = 2"
definition wireI32 :: int where "wireI32 = 5"

lemma drop_bit_7_less:
  assumes "0x80 \<le> (v :: u64)"
  shows "unat (drop_bit 7 v) < unat v"
proof -
  have "128 \<le> unat v"
    using assms by (simp add: word_le_nat_alt)
  then show ?thesis
    by (simp add: drop_bit_eq_div unat_div)
qed

function appendVarint :: "bytes \<Rightarrow> u64 \<Rightarrow> bytes" where
  "appendVarint b v =
     (if 0x80 \<le> v then appendVarint (b @ [ucast v OR 0x80]) (drop_bit 7 v)
      else b @ [ucast v])"
  by pat_completeness auto
termination
  by (relation "measure (\<lambda>(b, v). unat v)") (auto simp: drop_bit_7_less)

definition appendTag :: "bytes \<Rightarrow> int \<Rightarrow> int \<Rightarrow> bytes" where
  "appendTag b fld ty = appendVarint b (push_bit 3 (word_of_int fld) OR word_of_int ty)"

definition appendBytesField :: "bytes \<Rightarrow> int \<Rightarrow> bytes \<Rightarrow> bytes" where
  "appendBytesField b fld v =
     (let b = appendTag b fld wireBytes;
          b = appendVarint b (word_of_nat (length v))
      in b @ v)"

definition appendUint64Field :: "bytes \<Rightarrow> int \<Rightarrow> u64 \<Rightarrow> bytes" where
  "appendUint64Field b fld v = appendVarint (appendTag b fld wireVarint) v"

text \<open>The loop of \<^verbatim>\<open>readVarint\<close>: index \<open>i\<close>, accumulator \<open>v\<close>, the bytes from \<open>i\<close> on.\<close>

fun readVarint_loop :: "bytes \<Rightarrow> nat \<Rightarrow> u64 \<Rightarrow> error + u64 \<times> nat" where
  "readVarint_loop [] i v = Inl ErrTruncated"
| "readVarint_loop (c # cs) i v =
     (if 10 \<le> i then Inl ErrVarintOverflow
      else let v = v OR push_bit (7 * i) (ucast (c AND 0x7F))
           in if c < 0x80 then Inr (v, i + 1) else readVarint_loop cs (i + 1) v)"

definition readVarint :: "bytes \<Rightarrow> error + u64 \<times> nat" where
  "readVarint b = readVarint_loop b 0 0"

record field =
  num :: int
  wtyp :: int
  varix :: u64
  data :: bytes

text \<open>
  One iteration of the walker: the key, then the switch on the wire type, giving the field at
  the front and the bytes after it, or the error the iteration returns.
\<close>

definition readValue :: "field \<Rightarrow> bytes \<Rightarrow> error + field \<times> bytes" where
  "readValue f b =
     (if wtyp f = wireVarint then
        (case readVarint b of
           Inl e \<Rightarrow> Inl e
         | Inr (v, n) \<Rightarrow> Inr (f\<lparr>varix := v\<rparr>, drop n b))
      else if wtyp f = wireBytes then
        (case readVarint b of
           Inl e \<Rightarrow> Inl e
         | Inr (l, n) \<Rightarrow>
             let b = drop n b
             in if length b < unat l then Inl ErrTruncated
                else Inr (f\<lparr>data := take (unat l) b\<rparr>, drop (unat l) b))
      else if wtyp f = wireI64 then
        (if length b < 8 then Inl ErrTruncated else Inr (f, drop 8 b))
      else if wtyp f = wireI32 then
        (if length b < 4 then Inl ErrTruncated else Inr (f, drop 4 b))
      else Inl (ErrWireType (wtyp f)))"

definition readField :: "bytes \<Rightarrow> error + field \<times> bytes" where
  "readField b =
     (case readVarint b of
        Inl e \<Rightarrow> Inl e
      | Inr (key, n) \<Rightarrow>
          let f = \<lparr>num = int (unat (drop_bit 3 key)), wtyp = int (unat (key AND 7)),
                   varix = 0, data = []\<rparr>
          in if num f = 0 then Inl ErrFieldZero else readValue f (drop n b))"

lemma readVarint_loop_length:
  "readVarint_loop b i v = Inr (r, n) \<Longrightarrow> i < n \<and> n \<le> i + length b"
  by (induction b i v rule: readVarint_loop.induct) (auto simp: Let_def split: if_splits)

lemma readVarint_length: "readVarint b = Inr (r, n) \<Longrightarrow> 0 < n \<and> n \<le> length b"
  unfolding readVarint_def using readVarint_loop_length [of b 0 0 r n] by simp

lemma readValue_le: "readValue f b = Inr (g, b') \<Longrightarrow> length b' \<le> length b"
  by (auto simp: readValue_def Let_def split: sum.splits if_splits)

lemma readField_decreases:
  assumes "readField b = Inr (f, b')"
  shows "length b' < length b"
proof -
  obtain key n g where "readVarint b = Inr (key, n)" "readValue g (drop n b) = Inr (f, b')"
    using assms by (auto simp: readField_def Let_def split: sum.splits if_splits)
  then show ?thesis
    using readVarint_length [of b key n] readValue_le [of g "drop n b" f b'] by auto
qed

function parseFields ::
  "bytes \<Rightarrow> (field \<Rightarrow> 's \<Rightarrow> error + 's) \<Rightarrow> 's \<Rightarrow> error + 's" where
  "parseFields b visit s =
     (if b = [] then Inr s
      else case readField b of
             Inl e \<Rightarrow> Inl e
           | Inr (f, b') \<Rightarrow>
               (case visit f s of
                  Inl e \<Rightarrow> Inl e
                | Inr s' \<Rightarrow> parseFields b' visit s'))"
  by pat_completeness auto
termination
  by (relation "measure (\<lambda>(b, visit, s). length b)") (auto dest: readField_decreases)

declare appendVarint.simps [simp del] parseFields.simps [simp del]

section \<open>TransportBuffers.Instruction\<close>

record Instruction =
  ProtocolVersion :: u32
  OldNum :: u64
  NewNum :: u64
  AckNum :: u64
  ThrowawayNum :: u64
  Diff :: bytes
  Chaff :: bytes

definition zeroInstruction :: Instruction where
  "zeroInstruction = \<lparr>ProtocolVersion = 0, OldNum = 0, NewNum = 0, AckNum = 0,
     ThrowawayNum = 0, Diff = [], Chaff = []\<rparr>"

definition Marshal :: "Instruction \<Rightarrow> bytes" where
  "Marshal inst =
     (let b = [];
          b = appendUint64Field b 1 (ucast (ProtocolVersion inst));
          b = appendUint64Field b 2 (OldNum inst);
          b = appendUint64Field b 3 (NewNum inst);
          b = appendUint64Field b 4 (AckNum inst);
          b = appendUint64Field b 5 (ThrowawayNum inst);
          b = appendBytesField b 6 (Diff inst);
          b = appendBytesField b 7 (Chaff inst)
      in b)"

definition visitInstruction :: "field \<Rightarrow> Instruction \<Rightarrow> error + Instruction" where
  "visitInstruction f inst =
     (if num f = 1 then
        (if 0xFFFFFFFF < varix f then Inl ErrProtocolOverflow
         else Inr (inst\<lparr>ProtocolVersion := ucast (varix f)\<rparr>))
      else if num f = 2 then Inr (inst\<lparr>OldNum := varix f\<rparr>)
      else if num f = 3 then Inr (inst\<lparr>NewNum := varix f\<rparr>)
      else if num f = 4 then Inr (inst\<lparr>AckNum := varix f\<rparr>)
      else if num f = 5 then Inr (inst\<lparr>ThrowawayNum := varix f\<rparr>)
      else if num f = 6 then Inr (inst\<lparr>Diff := data f\<rparr>)
      else if num f = 7 then Inr (inst\<lparr>Chaff := data f\<rparr>)
      else Inr inst)"

definition UnmarshalInstruction :: "bytes \<Rightarrow> error + Instruction" where
  "UnmarshalInstruction b = parseFields b visitInstruction zeroInstruction"

section \<open>ClientBuffers.UserMessage\<close>

record UserEvent =
  Keys :: bytes
  Resize :: bool
  Width :: int
  Height :: int

definition zeroUserEvent :: UserEvent where
  "zeroUserEvent = \<lparr>Keys = [], Resize = False, Width = 0, Height = 0\<rparr>"

definition marshalUserEvent :: "UserEvent \<Rightarrow> bytes" where
  "marshalUserEvent ev =
     (if Resize ev then
        let rm = appendUint64Field [] 5 (word_of_int (Width ev));
            rm = appendUint64Field rm 6 (word_of_int (Height ev))
        in appendBytesField [] 3 rm
      else
        let ks = appendBytesField [] 4 (Keys ev)
        in appendBytesField [] 2 ks)"

fun MarshalUserMessage_loop :: "bytes \<Rightarrow> UserEvent list \<Rightarrow> bytes" where
  "MarshalUserMessage_loop out [] = out"
| "MarshalUserMessage_loop out (ev # evs) =
     MarshalUserMessage_loop (appendBytesField out 1 (marshalUserEvent ev)) evs"

definition MarshalUserMessage :: "UserEvent list \<Rightarrow> bytes" where
  "MarshalUserMessage events = MarshalUserMessage_loop [] events"

definition visitKeystroke :: "field \<Rightarrow> UserEvent list \<Rightarrow> error + UserEvent list" where
  "visitKeystroke k events =
     (if num k = 4 \<and> wtyp k = wireBytes
      then Inr (events @ [zeroUserEvent\<lparr>Keys := data k\<rparr>]) else Inr events)"

definition visitResize :: "field \<Rightarrow> UserEvent \<Rightarrow> error + UserEvent" where
  "visitResize r ev =
     (if num r = 5 then Inr (ev\<lparr>Width := sint (varix r)\<rparr>)
      else if num r = 6 then Inr (ev\<lparr>Height := sint (varix r)\<rparr>)
      else Inr ev)"

definition visitUserExt :: "field \<Rightarrow> UserEvent list \<Rightarrow> error + UserEvent list" where
  "visitUserExt ext events =
     (if num ext = 2 \<and> wtyp ext = wireBytes then parseFields (data ext) visitKeystroke events
      else if num ext = 3 \<and> wtyp ext = wireBytes then
        (case parseFields (data ext) visitResize (zeroUserEvent\<lparr>Resize := True\<rparr>) of
           Inl e \<Rightarrow> Inl e
         | Inr ev \<Rightarrow> Inr (events @ [ev]))
      else Inr events)"

definition visitUserMessage :: "field \<Rightarrow> UserEvent list \<Rightarrow> error + UserEvent list" where
  "visitUserMessage f events =
     (if num f \<noteq> 1 \<or> wtyp f \<noteq> wireBytes then Inr events
      else parseFields (data f) visitUserExt events)"

definition UnmarshalUserMessage :: "bytes \<Rightarrow> error + UserEvent list" where
  "UnmarshalUserMessage b = parseFields b visitUserMessage []"

section \<open>HostBuffers.HostMessage\<close>

record HostEvent =
  Bytes :: bytes
  HostResize :: bool
  HostWidth :: int
  HostHeight :: int
  EchoAck :: bool
  EchoAckNum :: u64

definition zeroHostEvent :: HostEvent where
  "zeroHostEvent = \<lparr>Bytes = [], HostResize = False, HostWidth = 0, HostHeight = 0,
     EchoAck = False, EchoAckNum = 0\<rparr>"

definition visitHostBytes :: "field \<Rightarrow> HostEvent list \<Rightarrow> error + HostEvent list" where
  "visitHostBytes h events =
     (if num h = 4 \<and> wtyp h = wireBytes
      then Inr (events @ [zeroHostEvent\<lparr>Bytes := data h\<rparr>]) else Inr events)"

definition visitHostResize :: "field \<Rightarrow> HostEvent \<Rightarrow> error + HostEvent" where
  "visitHostResize r ev =
     (if num r = 5 then Inr (ev\<lparr>HostWidth := sint (varix r)\<rparr>)
      else if num r = 6 then Inr (ev\<lparr>HostHeight := sint (varix r)\<rparr>)
      else Inr ev)"

definition visitEchoAck :: "field \<Rightarrow> HostEvent \<Rightarrow> error + HostEvent" where
  "visitEchoAck e ev = (if num e = 8 then Inr (ev\<lparr>EchoAckNum := varix e\<rparr>) else Inr ev)"

definition visitHostExt :: "field \<Rightarrow> HostEvent list \<Rightarrow> error + HostEvent list" where
  "visitHostExt ext events =
     (if num ext = 2 \<and> wtyp ext = wireBytes then parseFields (data ext) visitHostBytes events
      else if num ext = 3 \<and> wtyp ext = wireBytes then
        (case parseFields (data ext) visitHostResize (zeroHostEvent\<lparr>HostResize := True\<rparr>) of
           Inl e \<Rightarrow> Inl e
         | Inr ev \<Rightarrow> Inr (events @ [ev]))
      else if num ext = 7 \<and> wtyp ext = wireBytes then
        (case parseFields (data ext) visitEchoAck (zeroHostEvent\<lparr>EchoAck := True\<rparr>) of
           Inl e \<Rightarrow> Inl e
         | Inr ev \<Rightarrow> Inr (events @ [ev]))
      else Inr events)"

definition visitHostMessage :: "field \<Rightarrow> HostEvent list \<Rightarrow> error + HostEvent list" where
  "visitHostMessage f events =
     (if num f \<noteq> 1 \<or> wtyp f \<noteq> wireBytes then Inr events
      else parseFields (data f) visitHostExt events)"

definition UnmarshalHostMessage :: "bytes \<Rightarrow> error + HostEvent list" where
  "UnmarshalHostMessage b = parseFields b visitHostMessage []"

section \<open>Framing lemmas\<close>

lemma appendVarint_append: "appendVarint b v = b @ appendVarint [] v"
proof (induction "unat v" arbitrary: b v rule: less_induct)
  case less
  show ?case
  proof (cases "0x80 \<le> v")
    case True
    then have IH: "appendVarint c (drop_bit 7 v) = c @ appendVarint [] (drop_bit 7 v)" for c
      using less.hyps drop_bit_7_less by blast
    show ?thesis
      using True IH [of "b @ [ucast v OR 0x80]"] IH [of "[ucast v OR 0x80]"]
      by (simp add: appendVarint.simps [of b v] appendVarint.simps [of "[]" v])
  next
    case False
    then show ?thesis
      by (simp add: appendVarint.simps [of b v] appendVarint.simps [of "[]" v])
  qed
qed

lemma varint_Cons: "0x80 \<le> v \<Longrightarrow> appendVarint [] v = (ucast v OR 0x80) # appendVarint [] (drop_bit 7 v)"
  by (simp add: appendVarint.simps [of "[]" v] appendVarint_append [of "[ucast v OR 0x80]"])

lemma varint_small: "\<not> 0x80 \<le> v \<Longrightarrow> appendVarint [] v = [ucast v]"
  by (simp add: appendVarint.simps [of "[]" v])

lemma continuation_mask: "(ucast v OR 0x80 :: byte) AND 0x7F = ucast v AND 0x7F"
  by (simp add: bit.conj_disj_distrib2)

lemma continuation_flag: "\<not> (ucast v OR 0x80 :: byte) < 0x80"
proof
  assume "(ucast v OR 0x80 :: byte) < 0x80"
  then have "\<not> bit (ucast v OR 0x80 :: byte) 7"
    by (intro bit_beyond [where k = 7]) (simp_all add: word_less_nat_alt)
  then show False by (simp add: bit_or_iff)
qed

lemma varint_join:
  "(a OR push_bit (7 * i) (ucast (ucast v AND 0x7F :: byte))) OR push_bit (7 * Suc i) (drop_bit 7 v)
     = a OR push_bit (7 * i) (v :: u64)"
proof -
  have m: "(0x7F :: byte) = mask 7" by (simp add: mask_eq_exp_minus_1)
  show ?thesis unfolding m
  proof (rule bit_word_eqI)
    fix n :: nat assume "n < LENGTH(64)"
    then show "bit ((a OR push_bit (7 * i) (ucast (ucast v AND mask 7 :: byte))) OR
        push_bit (7 * Suc i) (drop_bit 7 v)) n = bit (a OR push_bit (7 * i) v) n"
      by (cases "7 * i + 7 \<le> n") (auto simp: bit_simps)
  qed
qed

lemma final_byte:
  assumes "\<not> 0x80 \<le> (v :: u64)"
  shows "(ucast v :: byte) < 0x80" "ucast (ucast v AND 0x7F :: byte) = v"
proof -
  have u: "unat v < 128" using assms by (simp add: word_less_nat_alt not_le)
  then show "(ucast v :: byte) < 0x80"
    by (simp add: word_less_nat_alt unsigned_ucast_eq take_bit_eq_mod)
  have m: "(0x7F :: byte) = mask 7" by (simp add: mask_eq_exp_minus_1)
  show "ucast (ucast v AND 0x7F :: byte) = v" unfolding m
  proof (rule bit_word_eqI)
    fix n :: nat assume "n < LENGTH(64)"
    then show "bit (ucast (ucast v AND mask 7 :: byte) :: u64) n = bit v n"
      using bit_beyond [of v 7 n] u by (cases "7 \<le> n") (auto simp: bit_simps)
  qed
qed

lemma readVarint_loop_append:
  assumes "unat v < 2 ^ (64 - 7 * i)" "i < 10"
  shows "readVarint_loop (appendVarint [] v @ rest) i a
    = Inr (a OR push_bit (7 * i) v, i + length (appendVarint [] v))"
  using assms
proof (induction "unat v" arbitrary: v i a rule: less_induct)
  case less
  show ?case
  proof (cases "0x80 \<le> v")
    case True
    have big: "128 \<le> unat v" using True by (simp add: word_le_nat_alt)
    have "i < 9"
    proof (rule ccontr)
      assume "\<not> i < 9"
      then have "i = 9" using less.prems by simp
      then show False using less.prems big by simp
    qed
    have "(2::nat) ^ (64 - 7 * i) = 2 ^ 7 * 2 ^ (64 - 7 * Suc i)"
      unfolding power_add [symmetric] using \<open>i < 9\<close> by (intro arg_cong [where f = "power 2"]) auto
    then have "unat (drop_bit 7 v) < 2 ^ (64 - 7 * Suc i)"
      using less.prems by (simp add: unat_drop_bit div_less_iff_less_mult mult.commute)
    moreover have "unat (drop_bit 7 v) < unat v" using True by (rule drop_bit_7_less)
    ultimately have IH: "readVarint_loop (appendVarint [] (drop_bit 7 v) @ rest) (Suc i) c
      = Inr (c OR push_bit (7 * Suc i) (drop_bit 7 v), Suc i + length (appendVarint [] (drop_bit 7 v)))" for c
      using less.hyps \<open>i < 9\<close> by simp
    show ?thesis
      using True \<open>i < 9\<close>
      by (simp add: varint_Cons IH continuation_mask continuation_flag varint_join del: mult_Suc_right)
  next
    case False
    then show ?thesis
      using less.prems by (simp add: varint_small final_byte)
  qed
qed

lemma readVarint_append [framing]:
  "readVarint (appendVarint [] v @ rest) = Inr (v, length (appendVarint [] v))"
  unfolding readVarint_def using unsigned_less [of v] by (subst readVarint_loop_append) auto

lemma appendVarint_neq_Nil [simp]: "appendVarint [] v \<noteq> []"
  by (cases "0x80 \<le> v") (simp_all add: varint_Cons varint_small)

lemma appendTag_append: "appendTag b fld ty = b @ appendTag [] fld ty"
  unfolding appendTag_def by (rule appendVarint_append)

lemma appendBytesField_append: "appendBytesField b fld v = b @ appendBytesField [] fld v"
  unfolding appendBytesField_def Let_def
  by (subst (1 2) appendVarint_append) (simp add: appendTag_append [of b])

lemma appendUint64Field_append: "appendUint64Field b fld v = b @ appendUint64Field [] fld v"
  unfolding appendUint64Field_def
  by (subst (1 2) appendVarint_append) (simp add: appendTag_append [of b])

text \<open>Field numbers proto2 allows; tags of such fields split back into number and type.\<close>

definition field_number :: "int \<Rightarrow> bool" where
  "field_number n \<longleftrightarrow> 0 < n \<and> n < 2 ^ 29"

lemma tag_split:
  assumes "field_number n" "t \<in> {wireVarint, wireBytes}"
  shows "drop_bit 3 (push_bit 3 (word_of_int n) OR word_of_int t :: u64) = word_of_int n"
    and "(push_bit 3 (word_of_int n) OR word_of_int t :: u64) AND 7 = word_of_int t"
proof -
  let ?f = "word_of_int n :: u64"
  have t: "t = 0 \<or> t = 2" using assms(2) by (auto simp: wireVarint_def wireBytes_def)
  have f: "unat ?f < 2 ^ 29"
    using assms(1) by (auto simp: field_number_def unsigned_of_int take_bit_int_eq_self)
  have b2: "bit (2 :: u64) k \<longleftrightarrow> k = 1" for k
    using bit_exp_iff [where 'a = u64, of 1 k] by auto
  show "drop_bit 3 (push_bit 3 ?f OR word_of_int t) = ?f"
  proof (rule bit_word_eqI)
    fix k :: nat
    assume "k < LENGTH(64)"
    then show "bit (drop_bit 3 (push_bit 3 ?f OR word_of_int t)) k = bit ?f k"
      using t bit_beyond [OF f, of k] by (cases "29 \<le> k") (auto simp: bit_simps b2)
  qed
  have m: "(7 :: u64) = mask 3" by (simp add: mask_eq_exp_minus_1)
  show "(push_bit 3 ?f OR word_of_int t) AND 7 = word_of_int t"
    unfolding m by (rule bit_word_eqI) (use t in \<open>auto simp: bit_simps b2\<close>)
qed

lemma readVarint_tag:
  assumes "field_number n" "t \<in> {wireVarint, wireBytes}"
  obtains key where "\<And>rest. readVarint (appendTag [] n t @ rest) = Inr (key, length (appendTag [] n t))"
    and "int (unat (drop_bit 3 key)) = n" and "int (unat (key AND 7)) = t"
proof
  let ?key = "push_bit 3 (word_of_int n) OR word_of_int t :: u64"
  show "readVarint (appendTag [] n t @ rest) = Inr (?key, length (appendTag [] n t))" for rest
    unfolding appendTag_def by (rule readVarint_append)
  show "int (unat (drop_bit 3 ?key)) = n"
    unfolding tag_split(1) [OF assms]
    using assms(1) by (simp add: field_number_def unsigned_of_int take_bit_int_eq_self)
  show "int (unat (?key AND 7)) = t"
    unfolding tag_split(2) [OF assms]
    using assms(2) by (auto simp: wireVarint_def wireBytes_def)
qed

lemma readField_bytes [framing]:
  assumes "field_number n" "length v < 2 ^ 64"
  shows "readField (appendBytesField [] n v @ rest)
    = Inr (\<lparr>num = n, wtyp = wireBytes, varix = 0, data = v\<rparr>, rest)"
proof -
  have l: "unat (word_of_nat (length v) :: u64) = length v"
    using assms(2) by (simp add: unsigned_of_nat take_bit_nat_eq_self)
  have e: "appendBytesField [] n v @ rest =
    appendTag [] n wireBytes @ appendVarint [] (word_of_nat (length v)) @ v @ rest"
    unfolding appendBytesField_def Let_def by (subst appendVarint_append) simp
  have "n \<noteq> 0" "wireBytes \<noteq> wireVarint"
    using assms(1) by (auto simp: field_number_def wireBytes_def wireVarint_def)
  then show ?thesis
    unfolding e readField_def readValue_def
    by (rule_tac readVarint_tag [OF assms(1), of wireBytes])
       (simp_all add: readVarint_append l Let_def)
qed

lemma readField_uint64 [framing]:
  assumes "field_number n"
  shows "readField (appendUint64Field [] n v @ rest)
    = Inr (\<lparr>num = n, wtyp = wireVarint, varix = v, data = []\<rparr>, rest)"
proof -
  have e: "appendUint64Field [] n v @ rest = appendTag [] n wireVarint @ appendVarint [] v @ rest"
    unfolding appendUint64Field_def by (subst appendVarint_append) simp
  have "n \<noteq> 0" using assms(1) by (simp add: field_number_def)
  then show ?thesis
    unfolding e readField_def readValue_def
    by (rule_tac readVarint_tag [OF assms(1), of wireVarint])
       (simp_all add: readVarint_append Let_def)
qed

lemma parseFields_Nil [simp]: "parseFields [] visit s = Inr s"
  by (simp add: parseFields.simps [of "[]"])

lemma field_neq_Nil [simp]: "appendBytesField [] n v \<noteq> []" "appendUint64Field [] n w \<noteq> []"
proof -
  show "appendBytesField [] n v \<noteq> []"
    unfolding appendBytesField_def Let_def by (subst appendVarint_append) simp
  show "appendUint64Field [] n w \<noteq> []"
    unfolding appendUint64Field_def by (subst appendVarint_append) simp
qed

lemma parseFields_bytes [framing]:
  assumes "field_number n" "length v < 2 ^ 64"
  shows "parseFields (appendBytesField [] n v @ rest) visit s =
    (case visit \<lparr>num = n, wtyp = wireBytes, varix = 0, data = v\<rparr> s of
       Inl e \<Rightarrow> Inl e | Inr s' \<Rightarrow> parseFields rest visit s')"
  by (subst parseFields.simps) (simp add: readField_bytes [OF assms])

lemma parseFields_uint64 [framing]:
  assumes "field_number n"
  shows "parseFields (appendUint64Field [] n v @ rest) visit s =
    (case visit \<lparr>num = n, wtyp = wireVarint, varix = v, data = []\<rparr> s of
       Inl e \<Rightarrow> Inl e | Inr s' \<Rightarrow> parseFields rest visit s')"
  by (subst parseFields.simps) (simp add: readField_uint64 [OF assms])

lemmas parseFields_bytes_end = parseFields_bytes [where rest = "[]", simplified]
lemmas parseFields_uint64_end = parseFields_uint64 [where rest = "[]", simplified]

lemma field_number_numeral [simp]:
  "field_number 1" "field_number 2" "field_number 3" "field_number 4" "field_number 5"
  "field_number 6" "field_number 7" "field_number 8"
  by (simp_all add: field_number_def)

section \<open>Prefix stability of the walker\<close>

lemma readVarint_loop_prefix:
  "readVarint_loop a i v = Inr r \<Longrightarrow> readVarint_loop (a @ b) i v = Inr r"
  by (induction a i v rule: readVarint_loop.induct) (auto simp: Let_def split: if_splits)

lemma readVarint_prefix: "readVarint a = Inr r \<Longrightarrow> readVarint (a @ b) = Inr r"
  unfolding readVarint_def by (rule readVarint_loop_prefix)

lemma readVarint_loop_bound:
  "readVarint_loop b i v = Inr (r, n) \<Longrightarrow> n \<le> 10"
  by (induction b i v rule: readVarint_loop.induct) (auto simp: Let_def split: if_splits)

lemma readVarint_split:
  assumes "readVarint a = Inr (v, n)"
  shows "readVarint (a @ b) = Inr (v, n)" "drop n (a @ b) = drop n a @ b"
  using readVarint_prefix [OF assms] readVarint_length [OF assms] by auto

lemma readValue_prefix:
  assumes "readValue f a = Inr (g, a')"
  shows "readValue f (a @ b) = Inr (g, a' @ b)"
proof -
  consider (varint) "wtyp f = wireVarint"
    | (bytes) "wtyp f \<noteq> wireVarint" "wtyp f = wireBytes"
    | (fixed) "wtyp f \<noteq> wireVarint" "wtyp f \<noteq> wireBytes" by blast
  then show ?thesis
  proof cases
    case varint
    then obtain v n where v: "readVarint a = Inr (v, n)" "g = f\<lparr>varix := v\<rparr>" "a' = drop n a"
      using assms by (auto simp: readValue_def split: sum.splits)
    show ?thesis
      using varint v(2,3) by (simp add: readValue_def readVarint_split [OF v(1)] del: drop_append)
  next
    case bytes
    then obtain l n where v: "readVarint a = Inr (l, n)" and l: "unat l \<le> length (drop n a)"
      "g = f\<lparr>data := take (unat l) (drop n a)\<rparr>" "a' = drop (unat l) (drop n a)"
      using assms by (auto simp: readValue_def Let_def not_less split: sum.splits if_splits)
    show ?thesis
      using bytes l readVarint_length [OF v]
      by (simp only: readValue_def readVarint_split [OF v]) (simp add: Let_def)
  next
    case fixed
    then show ?thesis
      using assms by (auto simp: readValue_def split: if_splits)
  qed
qed

lemma readField_prefix:
  assumes "readField a = Inr (f, a')"
  shows "readField (a @ b) = Inr (f, a' @ b)"
proof -
  obtain key n where key: "readVarint a = Inr (key, n)"
    using assms by (auto simp: readField_def split: sum.splits)
  show ?thesis
    using assms readVarint_split [OF key, of b]
    by (auto simp: readField_def key Let_def intro: readValue_prefix split: if_splits)
qed

lemma parseFields_append:
  "parseFields a visit s = Inr s' \<Longrightarrow> parseFields (a @ b) visit s = parseFields b visit s'"
proof (induction a visit s rule: parseFields.induct)
  case (1 a visit s)
  show ?case
  proof (cases "a = []")
    case True
    then show ?thesis using "1.prems" by simp
  next
    case False
    then obtain f a' s1 where f: "readField a = Inr (f, a')" "visit f s = Inr s1"
      "parseFields a' visit s1 = Inr s'"
      using "1.prems" by (auto simp: parseFields.simps [of a] split: sum.splits)
    have "parseFields (a' @ b) visit s1 = parseFields b visit s'"
      using "1.IH" False f by simp
    then show ?thesis
      using False f readField_prefix [OF f(1), of b] by (simp add: parseFields.simps [of "a @ b"])
  qed
qed

section \<open>Properties\<close>

text \<open>The fields of a message in order, the view an interpreting visitor has of it.\<close>

definition fieldsOf :: "bytes \<Rightarrow> error + field list" where
  "fieldsOf b = parseFields b (\<lambda>f fs. Inr (fs @ [f])) []"

definition wf_instruction :: "Instruction \<Rightarrow> bool" where
  "wf_instruction inst \<longleftrightarrow> length (Diff inst) < 2 ^ 64 \<and> length (Chaff inst) < 2 ^ 64"

definition go_int :: "int \<Rightarrow> bool" where
  "go_int n \<longleftrightarrow> - (2 ^ 63) \<le> n \<and> n < 2 ^ 63"

definition wf_user_event :: "UserEvent \<Rightarrow> bool" where
  "wf_user_event ev \<longleftrightarrow>
     (if Resize ev then Keys ev = [] \<and> go_int (Width ev) \<and> go_int (Height ev)
      else Width ev = 0 \<and> Height ev = 0)"

text \<open>The server's side of the HostMessage encoding, from the proto2 layout of the comment.\<close>

definition encodeHostEvent :: "HostEvent \<Rightarrow> bytes" where
  "encodeHostEvent ev =
     (if HostResize ev then
        appendBytesField [] 3 (appendUint64Field [] 5 (word_of_int (HostWidth ev)) @
          appendUint64Field [] 6 (word_of_int (HostHeight ev)))
      else if EchoAck ev then appendBytesField [] 7 (appendUint64Field [] 8 (EchoAckNum ev))
      else appendBytesField [] 2 (appendBytesField [] 4 (Bytes ev)))"

definition encodeHostMessage :: "HostEvent list \<Rightarrow> bytes" where
  "encodeHostMessage evs = concat (map (\<lambda>ev. appendBytesField [] 1 (encodeHostEvent ev)) evs)"

definition wf_host_event :: "HostEvent \<Rightarrow> bool" where
  "wf_host_event ev \<longleftrightarrow>
     (if HostResize ev then
        Bytes ev = [] \<and> \<not> EchoAck ev \<and> EchoAckNum ev = 0 \<and> go_int (HostWidth ev) \<and>
        go_int (HostHeight ev)
      else HostWidth ev = 0 \<and> HostHeight ev = 0 \<and>
        (if EchoAck ev then Bytes ev = [] else EchoAckNum ev = 0))"

lemma sint_go_int: "go_int n \<Longrightarrow> sint (word_of_int n :: u64) = n"
  by (simp add: go_int_def signed_of_int signed_take_bit_int_eq_self)

lemma length_appendBytesField: "length v < length (appendBytesField [] n v)"
  unfolding appendBytesField_def Let_def by (subst appendVarint_append) simp

lemma length_appendBytesField_append [simp]:
  "length v < 2 ^ 64" if "length (appendBytesField [] n v @ rest) < 2 ^ 64"
  using that length_appendBytesField [of v n] by simp

lemma append_field_out:
  "NO_MATCH [] b \<Longrightarrow> appendBytesField b n v = b @ appendBytesField [] n v"
  "NO_MATCH [] b \<Longrightarrow> appendUint64Field b n w = b @ appendUint64Field [] n w"
  by (rule appendBytesField_append, rule appendUint64Field_append)

lemma Marshal_fields:
  "Marshal inst =
     appendUint64Field [] 1 (ucast (ProtocolVersion inst)) @ appendUint64Field [] 2 (OldNum inst) @
     appendUint64Field [] 3 (NewNum inst) @ appendUint64Field [] 4 (AckNum inst) @
     appendUint64Field [] 5 (ThrowawayNum inst) @ appendBytesField [] 6 (Diff inst) @
     appendBytesField [] 7 (Chaff inst)"
  unfolding Marshal_def Let_def by (simp add: append_field_out)

lemma ucast_u32_le: "\<not> 0xFFFFFFFF < (ucast (v :: u32) :: u64)"
proof -
  have "unat v < 4294967296" using unsigned_less [of v, where 'a = nat] by simp
  then show ?thesis by (simp add: word_less_nat_alt unsigned_ucast_eq take_bit_nat_eq_self)
qed

lemma ucast_u32_id: "(ucast (ucast (v :: u32) :: u64) :: u32) = v"
  by (rule bit_word_eqI) (simp add: bit_simps)

lemma parseFields_Marshal:
  assumes "wf_instruction inst"
  shows "parseFields (Marshal inst @ rest) visitInstruction s
    = parseFields rest visitInstruction inst"
  using assms unfolding Marshal_fields wf_instruction_def
  by (cases inst, cases s) (simp add: framing visitInstruction_def ucast_u32_le ucast_u32_id)
lemma parseFields_unknown:
  assumes "parseFields u (\<lambda>f fs. Inr (fs @ [f])) acc = Inr fs"
    and "\<And>f s. f \<in> set fs \<Longrightarrow> visit f s = Inr s"
  shows "parseFields u visit s = Inr s \<and> set acc \<subseteq> set fs"
  using assms(1)
proof (induction "length u" arbitrary: u acc rule: less_induct)
  case less
  show ?case
  proof (cases "u = []")
    case True
    then show ?thesis using less.prems by simp
  next
    case False
    then obtain f u' where f: "readField u = Inr (f, u')"
      and rest: "parseFields u' (\<lambda>f fs. Inr (fs @ [f])) (acc @ [f]) = Inr fs"
      using less.prems by (auto simp: parseFields.simps [of u] split: sum.splits)
    have "parseFields u' visit s = Inr s \<and> set (acc @ [f]) \<subseteq> set fs"
      using less.hyps [OF readField_decreases [OF f] rest] .
    then show ?thesis
      using False f assms(2) [of f] by (simp add: parseFields.simps [of u])
  qed
qed

lemma MarshalUserMessage_concat:
  "MarshalUserMessage evs = concat (map (\<lambda>ev. appendBytesField [] 1 (marshalUserEvent ev)) evs)"
proof -
  have "MarshalUserMessage_loop out evs
      = out @ concat (map (\<lambda>ev. appendBytesField [] 1 (marshalUserEvent ev)) evs)" for out
    by (induction evs arbitrary: out) (simp_all add: append_field_out)
  then show ?thesis by (simp add: MarshalUserMessage_def)
qed

lemma parse_user_event:
  assumes "wf_user_event ev" "length (marshalUserEvent ev) < 2 ^ 64"
  shows "parseFields (marshalUserEvent ev) visitUserExt evs = Inr (evs @ [ev])"
proof (cases "Resize ev")
  case True
  let ?rm = "appendUint64Field [] 5 (word_of_int (Width ev)) @
      appendUint64Field [] 6 (word_of_int (Height ev))"
  have "length ?rm < 2 ^ 64"
    using assms(2) True length_appendBytesField [of ?rm 3]
    by (simp add: marshalUserEvent_def append_field_out)
  then show ?thesis
    using assms(1) True
    by (cases ev) (simp add: marshalUserEvent_def append_field_out wf_user_event_def visitUserExt_def
        parseFields_bytes_end parseFields_uint64 parseFields_uint64_end visitResize_def sint_go_int
        zeroUserEvent_def)
next
  case False
  let ?ks = "appendBytesField [] 4 (Keys ev)"
  have "length ?ks < 2 ^ 64"
    using assms(2) False length_appendBytesField [of ?ks 2] by (simp add: marshalUserEvent_def)
  moreover have "length (Keys ev) < 2 ^ 64"
    using calculation length_appendBytesField [of "Keys ev" 4] by simp
  ultimately show ?thesis
    using assms(1) False
    by (cases ev) (simp add: marshalUserEvent_def wf_user_event_def visitUserExt_def
        parseFields_bytes_end visitKeystroke_def zeroUserEvent_def)
qed

lemma parse_user_message:
  assumes "length (MarshalUserMessage evs) < 2 ^ 64" "list_all wf_user_event evs"
  shows "parseFields (MarshalUserMessage evs) visitUserMessage acc = Inr (acc @ evs)"
  using assms
proof (induction evs arbitrary: acc)
  case Nil
  then show ?case by (simp add: MarshalUserMessage_concat)
next
  case (Cons ev evs)
  let ?m = "marshalUserEvent ev"
  have m: "length ?m < 2 ^ 64"
    using Cons.prems length_appendBytesField [of ?m 1] by (simp add: MarshalUserMessage_concat)
  have r: "parseFields (MarshalUserMessage evs) visitUserMessage a = Inr (a @ evs)" for a
    using Cons by (simp add: MarshalUserMessage_concat)
  have "MarshalUserMessage (ev # evs) = appendBytesField [] 1 ?m @ MarshalUserMessage evs"
    by (simp add: MarshalUserMessage_concat)
  moreover have "visitUserMessage \<lparr>num = 1, wtyp = wireBytes, varix = 0, data = ?m\<rparr> acc
      = Inr (acc @ [ev])"
    using Cons.prems parse_user_event [OF _ m] by (simp add: visitUserMessage_def)
  ultimately show ?case
    by (simp add: parseFields_bytes [OF _ m] r)
qed

lemma parse_host_event:
  assumes "wf_host_event ev" "length (encodeHostEvent ev) < 2 ^ 64"
  shows "parseFields (encodeHostEvent ev) visitHostExt evs = Inr (evs @ [ev])"
proof -
  consider "HostResize ev" | "\<not> HostResize ev" "EchoAck ev" | "\<not> HostResize ev" "\<not> EchoAck ev"
    by blast
  then show ?thesis
  proof cases
    case 1
    let ?rm = "appendUint64Field [] 5 (word_of_int (HostWidth ev)) @
        appendUint64Field [] 6 (word_of_int (HostHeight ev))"
    have "length ?rm < 2 ^ 64"
      using assms(2) 1 length_appendBytesField [of ?rm 3] by (simp add: encodeHostEvent_def)
    then show ?thesis
      using assms(1) 1
      by (cases ev) (simp add: encodeHostEvent_def wf_host_event_def visitHostExt_def
          parseFields_bytes_end parseFields_uint64 parseFields_uint64_end visitHostResize_def
          sint_go_int zeroHostEvent_def)
  next
    case 2
    let ?ea = "appendUint64Field [] 8 (EchoAckNum ev)"
    have "length ?ea < 2 ^ 64"
      using assms(2) 2 length_appendBytesField [of ?ea 7] by (simp add: encodeHostEvent_def)
    then show ?thesis
      using assms(1) 2
      by (cases ev) (simp add: encodeHostEvent_def wf_host_event_def visitHostExt_def
          parseFields_bytes_end parseFields_uint64_end visitEchoAck_def zeroHostEvent_def)
  next
    case 3
    let ?hb = "appendBytesField [] 4 (Bytes ev)"
    have hb: "length ?hb < 2 ^ 64"
      using assms(2) 3 length_appendBytesField [of ?hb 2] by (simp add: encodeHostEvent_def)
    then have "length (Bytes ev) < 2 ^ 64"
      using length_appendBytesField [of "Bytes ev" 4] by simp
    then show ?thesis
      using assms(1) 3 hb
      by (cases ev) (simp add: encodeHostEvent_def wf_host_event_def visitHostExt_def
          parseFields_bytes_end visitHostBytes_def zeroHostEvent_def)
  qed
qed

lemma parse_host_message:
  assumes "length (encodeHostMessage evs) < 2 ^ 64" "list_all wf_host_event evs"
  shows "parseFields (encodeHostMessage evs) visitHostMessage acc = Inr (acc @ evs)"
  using assms
proof (induction evs arbitrary: acc)
  case Nil
  then show ?case by (simp add: encodeHostMessage_def)
next
  case (Cons ev evs)
  let ?m = "encodeHostEvent ev"
  have m: "length ?m < 2 ^ 64"
    using Cons.prems length_appendBytesField [of ?m 1] by (simp add: encodeHostMessage_def)
  have r: "parseFields (encodeHostMessage evs) visitHostMessage a = Inr (a @ evs)" for a
    using Cons by (simp add: encodeHostMessage_def)
  have "encodeHostMessage (ev # evs) = appendBytesField [] 1 ?m @ encodeHostMessage evs"
    by (simp add: encodeHostMessage_def)
  moreover have "visitHostMessage \<lparr>num = 1, wtyp = wireBytes, varix = 0, data = ?m\<rparr> acc
      = Inr (acc @ [ev])"
    using Cons.prems parse_host_event [OF _ m] by (simp add: visitHostMessage_def)
  ultimately show ?case
    by (simp add: parseFields_bytes [OF _ m] r)
qed

interpretation instruction: codec Marshal UnmarshalInstruction wf_instruction
proof
  show "UnmarshalInstruction (Marshal inst) = Inr inst" if "wf_instruction inst" for inst
    using parseFields_Marshal [OF that, of "[]"] by (simp add: UnmarshalInstruction_def)
qed

interpretation user_message: codec MarshalUserMessage UnmarshalUserMessage
  "\<lambda>evs. list_all wf_user_event evs \<and> length (MarshalUserMessage evs) < 2 ^ 64"
  by unfold_locales (simp add: UnmarshalUserMessage_def parse_user_message)

interpretation host_message: codec encodeHostMessage UnmarshalHostMessage
  "\<lambda>evs. list_all wf_host_event evs \<and> length (encodeHostMessage evs) < 2 ^ 64"
  by unfold_locales (simp add: UnmarshalHostMessage_def parse_host_message)

lemma length_appendVarint_bound: "length (appendVarint [] v) \<le> 10"
proof -
  have "readVarint_loop (appendVarint [] v) 0 0 = Inr (v, length (appendVarint [] v))"
    using readVarint_append [of v "[]"] by (simp add: readVarint_def)
  then show ?thesis by (rule readVarint_loop_bound)
qed

lemma length_appendBytesField_bound:
  "length (appendBytesField [] n v) \<le> length v + 20"
proof -
  have "length (appendBytesField [] n v)
      = length (appendTag [] n wireBytes) + length (appendVarint [] (word_of_nat (length v))) + length v"
    unfolding appendBytesField_def Let_def by (subst appendVarint_append) simp
  then show ?thesis
    using length_appendVarint_bound [of "word_of_nat (length v)"]
      length_appendVarint_bound [of "push_bit 3 (word_of_int n) OR word_of_int wireBytes"]
    by (simp add: appendTag_def)
qed

lemma length_appendUint64Field_bound: "length (appendUint64Field [] n v) \<le> 20"
proof -
  have "length (appendUint64Field [] n v)
      = length (appendTag [] n wireVarint) + length (appendVarint [] v)"
    unfolding appendUint64Field_def by (subst appendVarint_append) simp
  then show ?thesis
    using length_appendVarint_bound [of v]
      length_appendVarint_bound [of "push_bit 3 (word_of_int n) OR word_of_int wireVarint"]
    by (simp add: appendTag_def)
qed

lemma length_marshalUserEvent_bound: "length (marshalUserEvent ev) \<le> length (Keys ev) + 60"
  using length_appendBytesField_bound [of 3 "appendUint64Field [] 5 (word_of_int (Width ev)) @
      appendUint64Field [] 6 (word_of_int (Height ev))"]
    length_appendUint64Field_bound [of 5 "word_of_int (Width ev)"]
    length_appendUint64Field_bound [of 6 "word_of_int (Height ev)"]
    length_appendBytesField_bound [of 2 "appendBytesField [] 4 (Keys ev)"]
    length_appendBytesField_bound [of 4 "Keys ev"]
  by (auto simp: marshalUserEvent_def append_field_out)

lemma length_MarshalUserMessage_bound:
  "length (MarshalUserMessage evs) \<le> sum_list (map (\<lambda>ev. length (Keys ev) + 80) evs)"
proof (induction evs)
  case (Cons ev evs)
  then show ?case
    using length_appendBytesField_bound [of 1 "marshalUserEvent ev"]
      length_marshalUserEvent_bound [of ev]
    by (simp add: MarshalUserMessage_concat)
qed (simp add: MarshalUserMessage_concat)

lemma length_encodeHostMessage_bound:
  "length (encodeHostMessage evs) \<le> sum_list (map (\<lambda>ev. length (Bytes ev) + 80) evs)"
proof (induction evs)
  case (Cons ev evs)
  have "length (encodeHostEvent ev) \<le> length (Bytes ev) + 60"
    using length_appendBytesField_bound [of 3 "appendUint64Field [] 5 (word_of_int (HostWidth ev)) @
        appendUint64Field [] 6 (word_of_int (HostHeight ev))"]
      length_appendUint64Field_bound [of 5 "word_of_int (HostWidth ev)"]
      length_appendUint64Field_bound [of 6 "word_of_int (HostHeight ev)"]
      length_appendBytesField_bound [of 7 "appendUint64Field [] 8 (EchoAckNum ev)"]
      length_appendUint64Field_bound [of 8 "EchoAckNum ev"]
      length_appendBytesField_bound [of 2 "appendBytesField [] 4 (Bytes ev)"]
      length_appendBytesField_bound [of 4 "Bytes ev"]
    by (auto simp: encodeHostEvent_def)
  then show ?case
    using Cons length_appendBytesField_bound [of 1 "encodeHostEvent ev"]
    by (simp add: encodeHostMessage_def)
qed (simp add: encodeHostMessage_def)

section \<open>Claims\<close>

text \<open>A varint of any 64-bit value decodes to that value, whatever bytes follow, and the
  decoder reports exactly the bytes the encoder wrote, at most ten of them.\<close>

theorem varint_roundtrip:
  "readVarint (appendVarint [] v @ rest) = Inr (v, length (appendVarint [] v))
     \<and> length (appendVarint [] v) \<le> 10"
  using readVarint_append length_appendVarint_bound by blast

text \<open>C25: Every instruction the client can build is recovered from its serialized form, all
  seven fields included, even when unknown fields written by a newer peer stand before and after
  it.\<close>

theorem instruction_roundtrip:
  assumes "wf_instruction inst"
    and "fieldsOf pre = Inr fs" "fieldsOf post = Inr gs"
    and "list_all (\<lambda>f. 7 < num f) (fs @ gs)"
  shows "UnmarshalInstruction (pre @ Marshal inst @ post) = Inr inst"
proof -
  have skip: "visitInstruction f s = Inr s" if "7 < num f" for f s
    using that by (simp add: visitInstruction_def)
  have "parseFields pre visitInstruction zeroInstruction = Inr zeroInstruction"
    using parseFields_unknown [of pre "[]" fs visitInstruction] assms(2,4) skip
    by (auto simp: fieldsOf_def list_all_iff)
  moreover have "parseFields post visitInstruction inst = Inr inst"
    using parseFields_unknown [of post "[]" gs visitInstruction] assms(3,4) skip
    by (auto simp: fieldsOf_def list_all_iff)
  ultimately show ?thesis
    by (simp add: UnmarshalInstruction_def parseFields_append parseFields_Marshal [OF assms(1)])
qed

theorem instruction_roundtrip_witness:
  "UnmarshalInstruction ([] @ Marshal (zeroInstruction\<lparr>OldNum := 300, Diff := [1, 2, 3]\<rparr>)
     @ appendUint64Field [] 8 5) = Inr (zeroInstruction\<lparr>OldNum := 300, Diff := [1, 2, 3]\<rparr>)"
proof (rule instruction_roundtrip)
  show "wf_instruction (zeroInstruction\<lparr>OldNum := 300, Diff := [1, 2, 3]\<rparr>)"
    by (simp add: wf_instruction_def zeroInstruction_def)
  show "fieldsOf [] = Inr []" by (simp add: fieldsOf_def)
  show "fieldsOf (appendUint64Field [] 8 5) =
      Inr [\<lparr>num = 8, wtyp = wireVarint, varix = 5, data = []\<rparr>]"
    by (simp add: fieldsOf_def parseFields_uint64_end)
  show "list_all (\<lambda>f. 7 < num f) ([] @ [\<lparr>num = 8, wtyp = wireVarint, varix = 5, data = []\<rparr>])"
    by simp
qed

text \<open>A list of keystroke runs and resizes survives serialization as a UserMessage: decoding
  gives the same events in the same order, sizes with their sign.\<close>

theorem user_message_roundtrip:
  assumes "list_all wf_user_event evs" "length (MarshalUserMessage evs) < 2 ^ 64"
  shows "UnmarshalUserMessage (MarshalUserMessage evs) = Inr evs"
  using assms by (blast intro: user_message.dec_enc)

theorem user_message_roundtrip_witness:
  "UnmarshalUserMessage (MarshalUserMessage
      [\<lparr>Keys = [0x61, 0x62], Resize = False, Width = 0, Height = 0\<rparr>,
       \<lparr>Keys = [], Resize = True, Width = 80, Height = -1\<rparr>])
    = Inr [\<lparr>Keys = [0x61, 0x62], Resize = False, Width = 0, Height = 0\<rparr>,
       \<lparr>Keys = [], Resize = True, Width = 80, Height = -1\<rparr>]"
proof (rule user_message_roundtrip)
  show "list_all wf_user_event [\<lparr>Keys = [0x61, 0x62], Resize = False, Width = 0, Height = 0\<rparr>,
       \<lparr>Keys = [], Resize = True, Width = 80, Height = -1\<rparr>]"
    by (simp add: wf_user_event_def go_int_def)
  show "length (MarshalUserMessage
      [\<lparr>Keys = [0x61, 0x62], Resize = False, Width = 0, Height = 0\<rparr>,
       \<lparr>Keys = [], Resize = True, Width = 80, Height = -1\<rparr>]) < 2 ^ 64"
    by (rule le_less_trans [OF length_MarshalUserMessage_bound]) simp
qed

text \<open>What the server serializes as a HostMessage (terminal bytes, resizes, echo
  acknowledgments, in any order) is what the client decodes.\<close>

theorem host_message_roundtrip:
  assumes "list_all wf_host_event evs" "length (encodeHostMessage evs) < 2 ^ 64"
  shows "UnmarshalHostMessage (encodeHostMessage evs) = Inr evs"
  using assms by (blast intro: host_message.dec_enc)

theorem host_message_roundtrip_witness:
  "UnmarshalHostMessage (encodeHostMessage
      [zeroHostEvent\<lparr>Bytes := [0x68, 0x69]\<rparr>, zeroHostEvent\<lparr>EchoAck := True, EchoAckNum := 7\<rparr>])
    = Inr [zeroHostEvent\<lparr>Bytes := [0x68, 0x69]\<rparr>,
        zeroHostEvent\<lparr>EchoAck := True, EchoAckNum := 7\<rparr>]"
proof (rule host_message_roundtrip)
  show "list_all wf_host_event [zeroHostEvent\<lparr>Bytes := [0x68, 0x69]\<rparr>,
      zeroHostEvent\<lparr>EchoAck := True, EchoAckNum := 7\<rparr>]"
    by (simp add: wf_host_event_def zeroHostEvent_def)
  show "length (encodeHostMessage [zeroHostEvent\<lparr>Bytes := [0x68, 0x69]\<rparr>,
      zeroHostEvent\<lparr>EchoAck := True, EchoAckNum := 7\<rparr>]) < 2 ^ 64"
    by (rule le_less_trans [OF length_encodeHostMessage_bound]) (simp add: zeroHostEvent_def)
qed

end
