(* ===== verification/User_Stream.thy ===== *)
theory User_Stream
  imports Wire "HOL-Library.Sublist"
begin

text \<open>
  Package \<^verbatim>\<open>internal/statesync\<close>: the outgoing \<open>UserStream\<close>, its operations and the diff a
  peer state lacks. A stream is the value of its event slice; the methods with a pointer
  receiver that mutate it return the new value. The reference semantics is the receiver's:
  \<open>applyDiff\<close> decodes a diff and appends its events to the state it is based on, keystroke runs
  as single bytes.
\<close>

section \<open>The stream and its operations\<close>

record UserStream =
  events :: "UserEvent list"

definition emptyStream :: UserStream where
  "emptyStream = \<lparr>events = []\<rparr>"

fun PushKeys :: "UserStream \<Rightarrow> bytes \<Rightarrow> UserStream" where
  "PushKeys u [] = u"
| "PushKeys u (c # b) = PushKeys (u\<lparr>events := events u @ [zeroUserEvent\<lparr>Keys := [c]\<rparr>]\<rparr>) b"

definition PushResize :: "UserStream \<Rightarrow> int \<Rightarrow> int \<Rightarrow> UserStream" where
  "PushResize u width height =
     u\<lparr>events := events u @ [zeroUserEvent\<lparr>Resize := True, Width := width, Height := height\<rparr>]\<rparr>"

definition Clone :: "UserStream \<Rightarrow> UserStream" where
  "Clone u = \<lparr>events = events u\<rparr>"

definition sameEvent :: "UserEvent \<Rightarrow> UserEvent \<Rightarrow> bool" where
  "sameEvent a b \<longleftrightarrow>
     \<not> (Resize a \<noteq> Resize b \<or> Width a \<noteq> Width b \<or> Height a \<noteq> Height b \<or> Keys a \<noteq> Keys b)"

definition Equal :: "UserStream \<Rightarrow> UserStream \<Rightarrow> bool" where
  "Equal u w \<longleftrightarrow>
     length (events u) = length (events w) \<and>
     list_all (\<lambda>i. sameEvent (events u ! i) (events w ! i)) [0..<length (events u)]"

definition Subtract :: "UserStream \<Rightarrow> UserStream \<Rightarrow> UserStream" where
  "Subtract u pre =
     (let n = length (events pre);
          n = (if length (events u) < n then length (events u) else n)
      in u\<lparr>events := drop n (events u)\<rparr>)"

fun coalesce :: "UserEvent list \<Rightarrow> UserEvent list \<Rightarrow> UserEvent list" where
  "coalesce coalesced [] = coalesced"
| "coalesce coalesced (ev # sfx) =
     (if Resize ev then coalesce (coalesced @ [ev]) sfx
      else if coalesced \<noteq> [] \<and> \<not> Resize (last coalesced) then
        coalesce (butlast coalesced @
          [(last coalesced)\<lparr>Keys := Keys (last coalesced) @ Keys ev\<rparr>]) sfx
      else coalesce (coalesced @ [zeroUserEvent\<lparr>Keys := Keys ev\<rparr>]) sfx)"

definition DiffFrom :: "UserStream \<Rightarrow> UserStream \<Rightarrow> bytes" where
  "DiffFrom u existing =
     (if length (events u) \<le> length (events existing) then []
      else MarshalUserMessage (coalesce [] (drop (length (events existing)) (events u))))"

section \<open>The receiver's view\<close>

definition expandEvent :: "UserEvent \<Rightarrow> UserEvent list" where
  "expandEvent ev =
     (if Resize ev then [ev] else map (\<lambda>c. zeroUserEvent\<lparr>Keys := [c]\<rparr>) (Keys ev))"

definition expand :: "UserEvent list \<Rightarrow> UserEvent list" where
  "expand evs = concat (map expandEvent evs)"

definition applyDiff :: "UserStream \<Rightarrow> bytes \<Rightarrow> error + UserStream" where
  "applyDiff u diff =
     (case UnmarshalUserMessage diff of
        Inl e \<Rightarrow> Inl e
      | Inr evs \<Rightarrow> Inr (u\<lparr>events := events u @ expand evs\<rparr>))"

text \<open>The streams the client builds: one byte per keystroke event, sizes in \<^verbatim>\<open>int\<close> range.\<close>

definition normal_event :: "UserEvent \<Rightarrow> bool" where
  "normal_event ev \<longleftrightarrow> wf_user_event ev \<and> (Resize ev \<or> length (Keys ev) = 1)"

definition wf_stream :: "UserStream \<Rightarrow> bool" where
  "wf_stream u \<longleftrightarrow> list_all normal_event (events u) \<and> length (events u) < 2 ^ 56"

definition stream_prefix :: "UserStream \<Rightarrow> UserStream \<Rightarrow> bool" where
  "stream_prefix u w \<longleftrightarrow> prefix (events u) (events w)"

section \<open>Lemmas\<close>

lemma events_PushKeys:
  "events (PushKeys u b) = events u @ map (\<lambda>c. zeroUserEvent\<lparr>Keys := [c]\<rparr>) b"
  by (induction u b rule: PushKeys.induct) simp_all

lemma Clone_id [simp]: "Clone u = u"
  by (cases u) (simp add: Clone_def)

lemma sameEvent_eq [simp]: "sameEvent a b \<longleftrightarrow> a = b"
  by (cases a, cases b) (auto simp: sameEvent_def)

lemma Equal_eq: "Equal u w \<longleftrightarrow> u = w"
proof -
  have "Equal u w \<longleftrightarrow> events u = events w"
    by (simp add: Equal_def list_all_iff Ball_def list_eq_iff_nth_eq [of "events u"] cong: conj_cong)
  then show ?thesis by (cases u, cases w) simp
qed

lemma events_Subtract [simp]: "events (Subtract u p) = drop (length (events p)) (events u)"
  by (simp add: Subtract_def Let_def)

lemma expand_simps [simp]:
  "expand [] = []" "expand (ev # evs) = expandEvent ev @ expand evs"
  "expand (evs @ fs) = expand evs @ expand fs"
  by (simp_all add: expand_def)

lemma normal_key: "normal_event ev \<Longrightarrow> \<not> Resize ev \<Longrightarrow> \<exists>c. ev = zeroUserEvent\<lparr>Keys := [c]\<rparr>"
  by (cases ev) (auto simp: normal_event_def wf_user_event_def zeroUserEvent_def length_Suc_conv)

lemma expandEvent_normal [simp]: "normal_event ev \<Longrightarrow> expandEvent ev = [ev]"
  by (cases "Resize ev") (auto simp: expandEvent_def zeroUserEvent_def dest!: normal_key)

lemma expand_normal [simp]: "list_all normal_event evs \<Longrightarrow> expand evs = evs"
  by (induction evs) simp_all

lemma expand_last:
  assumes "acc \<noteq> []" "\<not> Resize (last acc)"
  shows "expand (butlast acc @ [(last acc)\<lparr>Keys := Keys (last acc) @ ks\<rparr>])
    = expand acc @ map (\<lambda>c. zeroUserEvent\<lparr>Keys := [c]\<rparr>) ks"
proof -
  have "expand acc = expand (butlast acc) @ expandEvent (last acc)"
    using assms(1) append_butlast_last_id [of acc] expand_simps(3) [of "butlast acc" "[last acc]"]
    by simp
  then show ?thesis
    using assms(2) by (simp add: expandEvent_def)
qed

lemma expand_coalesce: "expand (coalesce acc evs) = expand acc @ expand evs"
proof (induction acc evs rule: coalesce.induct)
  case (2 acc ev evs)
  show ?case
    using "2.IH" expand_last [of acc "Keys ev"]
    by (auto simp: expandEvent_def zeroUserEvent_def)
qed simp

lemma wf_coalesce:
  "list_all wf_user_event acc \<Longrightarrow> list_all wf_user_event evs \<Longrightarrow>
    list_all wf_user_event (coalesce acc evs)"
proof (induction acc evs rule: coalesce.induct)
  case (2 acc ev evs)
  have "list_all wf_user_event (butlast acc @ [(last acc)\<lparr>Keys := ks\<rparr>])"
    if "acc \<noteq> []" "\<not> Resize (last acc)" for ks
    using that "2.prems" last_in_set [of acc]
    by (auto simp: list_all_iff wf_user_event_def dest: in_set_butlastD)
  moreover have "wf_user_event (zeroUserEvent\<lparr>Keys := ks\<rparr>)" for ks
    by (simp add: wf_user_event_def zeroUserEvent_def)
  ultimately show ?case
    using 2 by simp
qed simp

lemma sum_list_map_snoc:
  assumes "xs \<noteq> []"
  shows "sum_list (map f xs) = sum_list (map f (butlast xs)) + (f (last xs) :: nat)"
  using assms by (induction xs rule: rev_induct) simp_all

lemma coalesce_size:
  "sum_list (map (\<lambda>ev. length (Keys ev) + 80) (coalesce acc evs))
     \<le> sum_list (map (\<lambda>ev. length (Keys ev) + 80) acc)
        + sum_list (map (\<lambda>ev. length (Keys ev) + 80) evs)"
proof (induction acc evs rule: coalesce.induct)
  case (2 acc ev evs)
  have "sum_list (map (\<lambda>ev. length (Keys ev) + 80)
      (butlast acc @ [(last acc)\<lparr>Keys := Keys (last acc) @ Keys ev\<rparr>]))
    = sum_list (map (\<lambda>ev. length (Keys ev) + 80) acc) + length (Keys ev)" if "acc \<noteq> []"
    using that by (simp add: sum_list_map_snoc [of acc])
  then show ?case
    using "2.IH" by (auto simp: zeroUserEvent_def)
qed simp

lemma normal_size: "list_all normal_event evs \<Longrightarrow>
    sum_list (map (\<lambda>ev. length (Keys ev) + 80) evs) \<le> 81 * length evs"
  by (induction evs) (auto simp: normal_event_def wf_user_event_def split: if_splits)

lemma DiffFrom_size:
  assumes "list_all normal_event s" "length s < 2 ^ 56"
  shows "length (MarshalUserMessage (coalesce [] s)) < 2 ^ 64"
proof -
  have "length (MarshalUserMessage (coalesce [] s)) \<le> 81 * length s"
    using length_MarshalUserMessage_bound [of "coalesce [] s"] coalesce_size [of "[]" s]
      normal_size [OF assms(1)] by simp
  then show ?thesis using assms(2) by simp
qed

lemma DiffFrom_decodes:
  assumes "wf_stream u" "length (events e) < length (events u)"
  shows "UnmarshalUserMessage (DiffFrom u e)
    = Inr (coalesce [] (drop (length (events e)) (events u)))"
proof -
  let ?s = "drop (length (events e)) (events u)"
  have n: "list_all normal_event ?s" "length ?s < 2 ^ 56"
    using assms(1) by (auto simp: wf_stream_def list_all_iff dest: in_set_dropD)
  have "list_all wf_user_event (coalesce [] ?s)"
    using wf_coalesce [of "[]" ?s] n(1) by (auto simp: list_all_iff normal_event_def)
  then show ?thesis
    using assms(2) DiffFrom_size [OF n] user_message.dec_enc by (simp add: DiffFrom_def)
qed

lemma UnmarshalUserMessage_Nil [simp]: "UnmarshalUserMessage [] = Inr []"
  by (simp add: UnmarshalUserMessage_def)

lemma MarshalUserMessage_Nil_iff: "MarshalUserMessage evs = [] \<longleftrightarrow> evs = []"
  by (cases evs) (simp_all add: MarshalUserMessage_concat)

lemma coalesce_Nil_iff: "coalesce acc evs = [] \<longleftrightarrow> acc = [] \<and> evs = []"
  by (induction acc evs rule: coalesce.induct) auto

lemma DiffFrom_Nil_iff: "DiffFrom u e = [] \<longleftrightarrow> length (events u) \<le> length (events e)"
  by (simp add: DiffFrom_def MarshalUserMessage_Nil_iff coalesce_Nil_iff)

lemma DiffFrom_sync:
  assumes "wf_stream u" "stream_prefix e u"
  shows "applyDiff e (DiffFrom u e) = Inr u"
proof -
  obtain s where s: "events u = events e @ s"
    using assms(2) by (auto simp: stream_prefix_def prefix_def)
  have norm: "list_all normal_event s" using assms(1) s by (simp add: wf_stream_def)
  show ?thesis
  proof (cases s)
    case Nil
    then show ?thesis
      using s by (cases e, cases u) (simp add: DiffFrom_def applyDiff_def)
  next
    case Cons
    then have "UnmarshalUserMessage (DiffFrom u e) = Inr (coalesce [] s)"
      using DiffFrom_decodes [OF assms(1), of e] s by simp
    then show ?thesis
      using norm s by (cases e, cases u) (simp add: applyDiff_def expand_coalesce)
  qed
qed

lemma wf_stream_Subtract: "wf_stream u \<Longrightarrow> wf_stream (Subtract u k)"
  by (auto simp: wf_stream_def list_all_iff dest: in_set_dropD)

lemma stream_prefix_Subtract:
  "stream_prefix u w \<Longrightarrow> stream_prefix (Subtract u k) (Subtract w k)"
  by (auto simp: stream_prefix_def prefix_def)

lemma stream_prefix_refl [simp]: "stream_prefix u u"
  by (simp add: stream_prefix_def)

lemma stream_prefix_trans: "stream_prefix u v \<Longrightarrow> stream_prefix v w \<Longrightarrow> stream_prefix u w"
  by (auto simp: stream_prefix_def)

lemma stream_prefix_length: "stream_prefix u w \<Longrightarrow> length (events u) \<le> length (events w)"
  by (simp add: stream_prefix_def prefix_length_le)

lemma stream_prefix_eq:
  "stream_prefix u w \<Longrightarrow> length (events w) \<le> length (events u) \<Longrightarrow> u = w"
  by (cases u, cases w) (auto simp: stream_prefix_def prefix_def)

lemma stream_prefix_Push:
  "stream_prefix u (PushKeys u b)" "stream_prefix u (PushResize u w h)"
  by (simp_all add: stream_prefix_def events_PushKeys PushResize_def)

section \<open>Claims\<close>

text \<open>C9: The diff computed against any earlier state of the stream brings a receiver holding that
  state exactly to the current one: decoding it and appending its events to the old state gives
  the current stream. This is what lets the sender base a diff on whichever sent state it assumes
  the server holds.\<close>

theorem diff_synchronizes:
  assumes "wf_stream u" "stream_prefix existing u"
  shows "applyDiff existing (DiffFrom u existing) = Inr u
    \<and> (DiffFrom u existing = [] \<longleftrightarrow> existing = u)"
  using DiffFrom_sync [OF assms] stream_prefix_eq [OF assms(2)] by (auto simp: DiffFrom_Nil_iff)

theorem diff_synchronizes_witness:
  "applyDiff (PushResize emptyStream 80 24)
     (DiffFrom (PushKeys (PushResize emptyStream 80 24) [0x6C, 0x73]) (PushResize emptyStream 80 24))
   = Inr (PushKeys (PushResize emptyStream 80 24) [0x6C, 0x73])"
proof (rule diff_synchronizes [THEN conjunct1])
  show "wf_stream (PushKeys (PushResize emptyStream 80 24) [0x6C, 0x73])"
    by (simp add: wf_stream_def events_PushKeys PushResize_def emptyStream_def normal_event_def
        wf_user_event_def zeroUserEvent_def go_int_def)
  show "stream_prefix (PushResize emptyStream 80 24)
      (PushKeys (PushResize emptyStream 80 24) [0x6C, 0x73])"
    by (rule stream_prefix_Push)
qed

text \<open>Cutting an acknowledged prefix off both streams never changes the diff between them, so
  rationalizing the sender's states is invisible on the wire.\<close>

theorem subtract_keeps_diffs:
  assumes "stream_prefix known existing" "stream_prefix existing u"
  shows "DiffFrom (Subtract u known) (Subtract existing known) = DiffFrom u existing"
proof -
  obtain s t where "events existing = events known @ s" "events u = events known @ s @ t"
    using assms by (auto simp: stream_prefix_def prefix_def)
  then show ?thesis
    by (simp add: DiffFrom_def)
qed

theorem subtract_keeps_diffs_witness:
  "DiffFrom (Subtract (PushKeys emptyStream [1, 2, 3]) (PushKeys emptyStream [1]))
     (Subtract (PushKeys emptyStream [1, 2]) (PushKeys emptyStream [1]))
   = DiffFrom (PushKeys emptyStream [1, 2, 3]) (PushKeys emptyStream [1, 2])"
  by (rule subtract_keeps_diffs) (simp_all add: stream_prefix_def events_PushKeys)

end
