(* ===== verification/Fragment.thy ===== *)
theory Fragment
  imports Gosh_Prelude
begin

unbundle bit_operations_syntax

text \<open>
  \<^verbatim>\<open>internal/transport/fragment.go\<close>: fragment headers, the fragmenter and the assembly.

  zlib is a parameter: \<open>deflate\<close> is what the writer of \<^verbatim>\<open>compress\<close> leaves in its buffer,
  \<open>inflate n b\<close> is what \<^verbatim>\<open>io.ReadAll\<close> returns of a reader over \<open>b\<close> limited to \<open>n\<close> bytes
  (\<open>None\<close> when opening or reading fails). The documented behaviour used is \<open>zlib\<close>: reading
  what the writer wrote gives the input back, up to the limit.

  The loop of \<^verbatim>\<open>makeFragments\<close> returns \<open>None\<close> where the source does not return: a chunk
  size of zero appends empty fragments forever and a negative one panics in the slice expression.
\<close>

section \<open>Fragments\<close>

definition fragHeaderLen :: nat where
  "fragHeaderLen = 10"

record fragment =
  fragId :: u64
  fragNum :: u16
  final :: bool
  contents :: bytes

definition marshal :: "fragment \<Rightarrow> bytes" where
  "marshal f =
     (let combined = fragNum f;
          combined = (if final f then combined OR 0x8000 else combined)
      in PutUint64 (fragId f) @ PutUint16 combined @ contents f)"

definition parseFragment :: "bytes \<Rightarrow> error + fragment" where
  "parseFragment b =
     (if length b < fragHeaderLen then Inl ErrShortFragment
      else
        let combined = Uint16 (take 2 (drop 8 b))
        in Inr \<lparr>fragId = Uint64 (take 8 b), fragNum = combined AND 0x7FFF,
                final = (combined AND 0x8000 \<noteq> 0), contents = drop 10 b\<rparr>)"

section \<open>Compression\<close>

definition maxUncompressed :: nat where
  "maxUncompressed = 4194304"

definition compress :: "(bytes \<Rightarrow> bytes) \<Rightarrow> bytes \<Rightarrow> bytes" where
  "compress deflate b = deflate b"

definition uncompress :: "(nat \<Rightarrow> bytes \<Rightarrow> bytes option) \<Rightarrow> bytes \<Rightarrow> error + bytes" where
  "uncompress inflate b =
     (case inflate (maxUncompressed + 1) b of
        None \<Rightarrow> Inl ErrBadPayload
      | Some out \<Rightarrow> if maxUncompressed < length out then Inl ErrTooLarge else Inr out)"

definition zlib :: "(bytes \<Rightarrow> bytes) \<Rightarrow> (nat \<Rightarrow> bytes \<Rightarrow> bytes option) \<Rightarrow> bool" where
  "zlib deflate inflate \<longleftrightarrow> (\<forall>n b. inflate n (deflate b) = Some (take n b))"

section \<open>The fragmenter\<close>

record fragmenter =
  nextID :: u64
  lastPayload :: bytes
  lastMTU :: int

definition zeroFragmenter :: fragmenter where
  "zeroFragmenter = \<lparr>nextID = 0, lastPayload = [], lastMTU = 0\<rparr>"

function makeFragments_loop ::
  "u64 \<Rightarrow> int \<Rightarrow> u16 \<Rightarrow> bytes \<Rightarrow> fragment list \<Rightarrow> fragment list option" where
  "makeFragments_loop fid chunk n payload frags =
     (if chunk < int (length payload) then
        (if chunk \<le> 0 then None
         else makeFragments_loop fid chunk (n + 1) (drop (nat chunk) payload)
                (frags @ [\<lparr>fragId = fid, fragNum = n, final = False,
                   contents = take (nat chunk) payload\<rparr>]))
      else Some (frags @ [\<lparr>fragId = fid, fragNum = n, final = True, contents = payload\<rparr>]))"
  by pat_completeness auto
termination
  by (relation "measure (\<lambda>(fid, chunk, n, payload, frags). length payload)") auto

declare makeFragments_loop.simps [simp del]

definition makeFragments ::
  "(bytes \<Rightarrow> bytes) \<Rightarrow> fragmenter \<Rightarrow> bytes \<Rightarrow> int \<Rightarrow> fragmenter \<times> fragment list option" where
  "makeFragments deflate fr instruction mtu =
     (let payload = compress deflate instruction;
          fr = (if payload \<noteq> lastPayload fr \<or> mtu \<noteq> lastMTU fr
                then \<lparr>nextID = nextID fr + 1, lastPayload = payload, lastMTU = mtu\<rparr> else fr);
          chunk = mtu - int fragHeaderLen
      in (fr, makeFragments_loop (nextID fr) chunk 0 payload []))"

section \<open>The assembly\<close>

record assembly =
  currentID :: u64
  haveID :: bool
  frags :: "fragment option list"
  arrived :: int
  total :: int

definition zeroAssembly :: assembly where
  "zeroAssembly = \<lparr>currentID = 0, haveID = False, frags = [], arrived = 0, total = 0\<rparr>"

text \<open>Storing one fragment: a new id starts over, a duplicate is ignored, else the slot is set.\<close>

definition store :: "assembly \<Rightarrow> fragment \<Rightarrow> assembly" where
  "store a f =
     (if \<not> haveID a \<or> currentID a \<noteq> fragId f then
        a\<lparr>currentID := fragId f, haveID := True,
          frags := (replicate (unat (fragNum f + 1)) None)[unat (fragNum f) := Some f],
          arrived := 1, total := -1\<rparr>
      else if unat (fragNum f) < length (frags a) \<and> frags a ! unat (fragNum f) \<noteq> None then a
      else
        let fs = frags a @ replicate (unat (fragNum f) + 1 - length (frags a)) None
        in a\<lparr>frags := fs[unat (fragNum f) := Some f], arrived := arrived a + 1\<rparr>)"

text \<open>The final fragment pins the total and cuts off what lies beyond it.\<close>

definition pin :: "assembly \<Rightarrow> fragment \<Rightarrow> assembly" where
  "pin a f =
     (if final f then
        let a = a\<lparr>total := int (unat (fragNum f)) + 1\<rparr>
        in if total a < int (length (frags a)) then
             let fs = take (nat (total a)) (frags a)
             in a\<lparr>frags := fs, arrived := int (length (filter (\<lambda>fp. fp \<noteq> None) fs))\<rparr>
           else a
      else a)"

definition add ::
  "(nat \<Rightarrow> bytes \<Rightarrow> bytes option) \<Rightarrow> assembly \<Rightarrow> fragment \<Rightarrow> assembly \<times> (error + bytes option)" where
  "add inflate a f =
     (let a = pin (store a f) f
      in if total a = -1 \<or> arrived a \<noteq> total a then (a, Inr None)
         else if list_ex (\<lambda>fp. fp = None) (frags a) then (a, Inr None)
         else (a\<lparr>haveID := False\<rparr>,
               map_sum id Some
                 (uncompress inflate (concat (map (\<lambda>fp. contents (the fp)) (frags a))))))"

section \<open>Headers\<close>

definition valid_fragment :: "fragment \<Rightarrow> bool" where
  "valid_fragment f \<longleftrightarrow> fragNum f < 0x8000"

lemma bit_8000: "bit (0x8000 :: u16) k \<longleftrightarrow> k = 15"
proof -
  have "(0x8000 :: u16) = 2 ^ 15" by simp
  then show ?thesis by (simp only: bit_exp_iff) auto
qed

lemma bit_7FFF: "bit (0x7FFF :: u16) k \<longleftrightarrow> k < 15"
proof -
  have "(0x7FFF :: u16) = mask 15" by (simp add: mask_eq_exp_minus_1)
  then show ?thesis by (simp only: bit_mask_iff) auto
qed

lemma and_8000: "c AND 0x8000 = 0 \<longleftrightarrow> \<not> bit (c :: u16) 15"
proof
  assume "c AND 0x8000 = 0"
  then have "\<not> bit (c AND 0x8000) 15" by simp
  then show "\<not> bit c 15" unfolding bit_and_iff bit_8000 by blast
next
  assume "\<not> bit c 15"
  then show "c AND 0x8000 = 0"
    by (intro bit_word_eqI) (unfold bit_and_iff bit_8000, auto)
qed

lemma header_split:
  assumes "n < (0x8000 :: u16)"
  shows "(n OR 0x8000) AND 0x7FFF = n" "n AND 0x7FFF = n" "(n OR 0x8000) AND 0x8000 \<noteq> 0"
    "n AND 0x8000 = 0"
proof -
  have u: "unat n < 2 ^ 15" using assms by (simp add: word_less_nat_alt)
  have b: "bit n k \<Longrightarrow> k < 15" for k using bit_beyond [OF u, of k] by (auto simp: not_le [symmetric])
  show "(n OR 0x8000) AND 0x7FFF = n" "n AND 0x7FFF = n"
    by (rule bit_word_eqI, unfold bit_and_iff bit_or_iff bit_8000 bit_7FFF, use b in blast)+
  show "(n OR 0x8000) AND 0x8000 \<noteq> 0" "n AND 0x8000 = 0"
    unfolding and_8000 bit_or_iff bit_8000 using b [of 15] by auto
qed

lemma header_join:
  "(if c AND 0x8000 \<noteq> 0 then (c AND 0x7FFF) OR 0x8000 else c AND 0x7FFF) = (c :: u16)"
proof (rule bit_word_eqI)
  fix k :: nat
  assume "k < LENGTH(16)"
  then have "k < 15 \<or> k = 15" by auto
  then show "bit (if c AND 0x8000 \<noteq> 0 then (c AND 0x7FFF) OR 0x8000 else c AND 0x7FFF) k = bit c k"
    unfolding and_8000 if_distrib [where f = "\<lambda>w. bit w k"] bit_and_iff bit_or_iff bit_8000 bit_7FFF
    by auto
qed

lemma valid_parse: "c AND 0x7FFF < (0x8000 :: u16)"
proof -
  have "c AND 0x7FFF \<le> (0x7FFF :: u16)" by (rule word_and_le1)
  also have "\<dots> < 0x8000" by simp
  finally show ?thesis .
qed

interpretation frag: canonical_codec marshal parseFragment valid_fragment
proof
  show "parseFragment (marshal f) = Inr f" if "valid_fragment f" for f
    using that header_split [of "fragNum f"]
    by (cases f) (simp add: valid_fragment_def marshal_def parseFragment_def fragHeaderLen_def Let_def)
next
  fix b f
  assume p: "parseFragment b = Inr f"
  then have l: "10 \<le> length b" by (auto simp: parseFragment_def fragHeaderLen_def split: if_splits)
  let ?c = "Uint16 (take 2 (drop 8 b))"
  have f: "f = \<lparr>fragId = Uint64 (take 8 b), fragNum = ?c AND 0x7FFF,
      final = (?c AND 0x8000 \<noteq> 0), contents = drop 10 b\<rparr>"
    using p l by (simp add: parseFragment_def fragHeaderLen_def Let_def)
  have "marshal f = PutUint64 (Uint64 (take 8 b)) @ PutUint16 ?c @ drop 10 b"
    unfolding f marshal_def Let_def by (simp only: fragment.simps header_join)
  also have "\<dots> = take 8 b @ take 2 (drop 8 b) @ drop 10 b"
    using l by (simp add: PutUint64_Uint64 PutUint16_Uint16)
  also have "\<dots> = b"
    using append_take_drop_id [of 2 "drop 8 b"] append_take_drop_id [of 8 b] by simp
  finally show "marshal f = b" .
  show "valid_fragment f" unfolding valid_fragment_def f by (simp add: valid_parse)
qed

section \<open>The shape of an instruction's fragments\<close>

function chunks :: "nat \<Rightarrow> bytes \<Rightarrow> bytes list" where
  "chunks k p = (if k = 0 \<or> length p \<le> k then [p] else take k p # chunks k (drop k p))"
  by pat_completeness auto
termination
  by (relation "measure (\<lambda>(k, p). length p)") auto

declare chunks.simps [simp del]

definition fragments_of :: "u64 \<Rightarrow> u16 \<Rightarrow> bytes list \<Rightarrow> fragment list" where
  "fragments_of fid n cs =
     map (\<lambda>i. \<lparr>fragId = fid, fragNum = n + of_nat i, final = (i + 1 = length cs), contents = cs ! i\<rparr>)
       [0..<length cs]"

lemma fragments_of_single: "fragments_of fid n [c] = [\<lparr>fragId = fid, fragNum = n, final = True, contents = c\<rparr>]"
  by (simp add: fragments_of_def)

lemma fragments_of_Cons:
  assumes "cs \<noteq> []"
  shows "fragments_of fid n (c # cs) =
    \<lparr>fragId = fid, fragNum = n, final = False, contents = c\<rparr> # fragments_of fid (n + 1) cs"
  using assms unfolding fragments_of_def
  by (auto simp: upt_conv_Cons map_Suc_upt [symmetric] simp del: upt_Suc)

lemma chunks_neq_Nil [simp]: "chunks k p \<noteq> []"
  by (subst chunks.simps) simp

lemma concat_chunks: "concat (chunks k p) = p"
proof (induction k p rule: chunks.induct)
  case (1 k p)
  then show ?case by (subst chunks.simps) simp
qed

lemma length_chunk: "0 < k \<Longrightarrow> c \<in> set (chunks k p) \<Longrightarrow> length c \<le> k"
proof (induction k p rule: chunks.induct)
  case (1 k p)
  then show ?case by (subst (asm) chunks.simps [of k p]) (auto split: if_splits)
qed

lemma length_chunks: "0 < k \<Longrightarrow> length (chunks k p) \<le> length p div k + 1"
proof (induction k p rule: chunks.induct)
  case (1 k p)
  show ?case
  proof (cases "length p \<le> k")
    case True
    then show ?thesis by (subst chunks.simps) simp
  next
    case False
    then have "length (chunks k (drop k p)) \<le> length (drop k p) div k + 1"
      using 1 by simp
    moreover have "length p div k = (length p - k) div k + 1"
      using False "1.prems" by (simp add: le_div_geq)
    ultimately show ?thesis
      using False "1.prems" by (subst chunks.simps) simp
  qed
qed

lemma makeFragments_loop_spec:
  "0 < chunk \<Longrightarrow> makeFragments_loop fid chunk n p acc
     = Some (acc @ fragments_of fid n (chunks (nat chunk) p))"
proof (induction fid chunk n p acc rule: makeFragments_loop.induct)
  case (1 fid chunk n p acc)
  show ?case
  proof (cases "chunk < int (length p)")
    case True
    then have "makeFragments_loop fid chunk n p acc = Some (acc @
        [\<lparr>fragId = fid, fragNum = n, final = False, contents = take (nat chunk) p\<rparr>] @
        fragments_of fid (n + 1) (chunks (nat chunk) (drop (nat chunk) p)))"
      using 1 by (subst makeFragments_loop.simps) simp
    moreover have "chunks (nat chunk) p = take (nat chunk) p # chunks (nat chunk) (drop (nat chunk) p)"
      using True "1.prems" by (subst chunks.simps) (auto simp: nat_le_iff)
    ultimately show ?thesis by (simp add: fragments_of_Cons)
  next
    case False
    then have "chunks (nat chunk) p = [p]" by (subst chunks.simps) auto
    then show ?thesis
      using False by (subst makeFragments_loop.simps) (simp add: fragments_of_single)
  qed
qed

lemma makeFragments_spec:
  assumes "10 < mtu" "makeFragments deflate fr inst mtu = (fr', fo)"
  shows "fo = Some (fragments_of (nextID fr') 0 (chunks (nat (mtu - 10)) (deflate inst)))"
  using assms makeFragments_loop_spec [of "mtu - 10"]
  by (auto simp: makeFragments_def Let_def compress_def fragHeaderLen_def)

section \<open>Reassembly\<close>

text \<open>
  The state of an assembly that has received the fragments with indices \<open>X\<close> of \<open>fs\<close>, and
  no complete set.
\<close>

definition partial :: "fragment list \<Rightarrow> nat set \<Rightarrow> assembly \<Rightarrow> bool" where
  "partial fs X a \<longleftrightarrow>
     haveID a \<and> (\<forall>f \<in> set fs. currentID a = fragId f) \<and>
     length (frags a) \<le> length fs \<and> X \<subseteq> {..<length (frags a)} \<and>
     (\<forall>i < length (frags a). frags a ! i = (if i \<in> X then Some (fs ! i) else None)) \<and>
     arrived a = int (card X) \<and>
     total a = (if length fs - 1 \<in> X then int (length fs) else -1)"

definition fragment_set :: "fragment list \<Rightarrow> bool" where
  "fragment_set fs \<longleftrightarrow> fs \<noteq> [] \<and> length fs \<le> 2 ^ 15 \<and>
     (\<forall>f \<in> set fs. \<forall>g \<in> set fs. fragId f = fragId g) \<and>
     (\<forall>i < length fs. unat (fragNum (fs ! i)) = i \<and> final (fs ! i) = (i + 1 = length fs))"

lemma fragment_set_fragments_of:
  assumes "cs \<noteq> []" "length cs \<le> 2 ^ 15"
  shows "fragment_set (fragments_of fid 0 cs)"
  using assms
  by (auto simp: fragment_set_def fragments_of_def unsigned_of_nat take_bit_nat_eq_self)

lemma contents_fragments_of: "concat (map contents (fragments_of fid n cs)) = concat cs"
  by (simp add: fragments_of_def comp_def map_nth)

lemma card_full:
  assumes "X \<subseteq> {..<n}" "card X = n"
  shows "X = {..<n}"
  using assms card_subset_eq [of "{..<n}" X] by simp

text \<open>Storing the first fragment, and a further one.\<close>

lemma store_first:
  assumes "fragment_set fs" "k < length fs" "\<not> haveID a \<or> currentID a \<noteq> fragId (fs ! k)"
  shows "partial fs {k} (pin (store a (fs ! k)) (fs ! k))"
proof -
  have k: "unat (fragNum (fs ! k)) = k" "final (fs ! k) = (k + 1 = length fs)"
    using assms by (auto simp: fragment_set_def)
  have "unat (fragNum (fs ! k) + 1) = Suc k"
    using k(1) assms(1,2) by (simp add: unat_word_ariths fragment_set_def)
  moreover have "\<forall>f \<in> set fs. fragId (fs ! k) = fragId f"
    using assms(1,2) unfolding fragment_set_def by (meson nth_mem)
  moreover define a' where "a' = store a (fs ! k)"
  ultimately have a': "haveID a'" "\<forall>f \<in> set fs. currentID a' = fragId f" "arrived a' = 1" "total a' = -1"
    and fr: "frags a' = (replicate (Suc k) None)[k := Some (fs ! k)]"
    using assms(3) k(1) by (simp_all add: store_def)
  have len: "length (frags a') = Suc k" by (simp add: fr del: replicate_Suc)
  have nth: "\<forall>i < Suc k. frags a' ! i = (if i \<in> {k} then Some (fs ! i) else None)"
    by (auto simp: fr nth_list_update simp del: replicate_Suc)
  have last: "k + 1 = length fs \<longleftrightarrow> length fs - 1 = k" using assms(2) by auto
  have "pin a' (fs ! k) = (if length fs - 1 = k then a'\<lparr>total := int (length fs)\<rparr> else a')"
    using k len assms(2) by (auto simp: pin_def Let_def)
  then show ?thesis
    using a' len nth assms(2) last by (simp add: partial_def a'_def [symmetric])
qed

lemma store_next:
  assumes "fragment_set fs" "k < length fs" "partial fs X a"
  shows "partial fs (insert k X) (pin (store a (fs ! k)) (fs ! k))"
proof -
  have k: "unat (fragNum (fs ! k)) = k" "final (fs ! k) = (k + 1 = length fs)"
    using assms(1,2) by (auto simp: fragment_set_def)
  have fin: "finite X" using assms(3) by (auto simp: partial_def intro: finite_subset)
  have ids: "haveID a" "currentID a = fragId (fs ! k)"
    using assms(2,3) by (auto simp: partial_def)
  show ?thesis
  proof (cases "k \<in> X")
    case True
    then have "store a (fs ! k) = a"
      using assms(3) k ids by (auto simp: partial_def store_def)
    moreover have "k + 1 = length fs \<longleftrightarrow> length fs - 1 = k" using assms(2) by auto
    moreover have "k < length (frags a)" "length (frags a) \<le> length fs"
      using True assms(3) by (auto simp: partial_def)
    ultimately have "pin (store a (fs ! k)) (fs ! k) = a"
      using True assms(3) k by (auto simp: pin_def partial_def)
    then show ?thesis
      using True assms(3) by (simp add: insert_absorb)
  next
    case False
    then have new: "\<not> (k < length (frags a) \<and> frags a ! k \<noteq> None)"
      using assms(3) by (auto simp: partial_def)
    let ?a = "store a (fs ! k)"
    have "?a = a\<lparr>frags := (frags a @ replicate (k + 1 - length (frags a)) None)[k := Some (fs ! k)],
        arrived := arrived a + 1\<rparr>"
      using new ids k by (auto simp: store_def Let_def)
    moreover have "length (frags a) \<le> length fs" "X \<subseteq> {..<length (frags a)}"
      using assms(3) by (auto simp: partial_def)
    ultimately have "haveID ?a" "currentID ?a = currentID a" "total ?a = total a"
      "length (frags ?a) = max (k + 1) (length (frags a))" "arrived ?a = int (card (insert k X))"
      "\<forall>i < length (frags ?a). frags ?a ! i = (if i \<in> insert k X then Some (fs ! i) else None)"
      using assms(3) False fin ids by (auto simp: partial_def nth_list_update nth_append)
    then show ?thesis
      using assms(2,3) k by (auto simp: partial_def pin_def)
  qed
qed

lemma partial_complete:
  assumes "partial fs X a" "fs \<noteq> []"
  shows "(total a = -1 \<or> arrived a \<noteq> total a) \<longleftrightarrow> X \<noteq> {..<length fs}"
proof -
  have X: "X \<subseteq> {..<length fs}" using assms(1) by (auto simp: partial_def)
  have "length fs - 1 \<in> {..<length fs}" using assms(2) by simp
  then show ?thesis
    using assms card_full [OF X] by (auto simp: partial_def)
qed

lemma partial_frags:
  assumes "partial fs {..<length fs} a"
  shows "frags a = map Some fs"
  using assms by (auto simp: partial_def intro!: nth_equalityI)

text \<open>The result of handing over the fragment with index \<open>k\<close>, the ones in \<open>X\<close> having arrived.\<close>

lemma add_result:
  assumes "fragment_set fs" "partial fs X (pin (store a f) f)"
  shows "add inflate a f =
    (if X = {..<length fs}
     then ((pin (store a f) f)\<lparr>haveID := False\<rparr>,
       map_sum id Some (uncompress inflate (concat (map contents fs))))
     else (pin (store a f) f, Inr None))"
proof (cases "X = {..<length fs}")
  case True
  then have "frags (pin (store a f) f) = map Some fs"
    using assms(2) partial_frags by simp
  then show ?thesis
    using True partial_complete [OF assms(2)] assms(1)
    by (simp add: add_def Let_def list_ex_iff comp_def fragment_set_def)
next
  case False
  then show ?thesis
    using partial_complete [OF assms(2)] assms(1) by (auto simp: add_def Let_def fragment_set_def)
qed

text \<open>A run of the assembly over the fragments as they arrive.\<close>

fun adds ::
  "(nat \<Rightarrow> bytes \<Rightarrow> bytes option) \<Rightarrow> assembly \<Rightarrow> fragment list \<Rightarrow> assembly \<times> (error + bytes option) list" where
  "adds inflate a [] = (a, [])"
| "adds inflate a (f # fs) =
     (let (a, r) = add inflate a f; (a, rs) = adds inflate a fs in (a, r # rs))"

lemma adds_append:
  "adds inflate a (fs @ gs) =
     (let (a, rs) = adds inflate a fs; (a, rs') = adds inflate a gs in (a, rs @ rs'))"
  by (induction fs arbitrary: a) (auto simp: Let_def split: prod.splits)

lemma adds_partial:
  assumes "fragment_set fs" "partial fs X a" "set ks \<subseteq> {..<length fs}" "X \<union> set ks \<noteq> {..<length fs}"
    "X \<subseteq> {..<length fs}"
  shows "\<exists>a'. adds inflate a (map ((!) fs) ks) = (a', replicate (length ks) (Inr None)) \<and>
    partial fs (X \<union> set ks) a'"
  using assms
proof (induction ks arbitrary: a X)
  case (Cons k ks)
  then have p: "partial fs (insert k X) (pin (store a (fs ! k)) (fs ! k))"
    using store_next by simp
  have "insert k X \<noteq> {..<length fs}" using Cons.prems by auto
  then have "add inflate a (fs ! k) = (pin (store a (fs ! k)) (fs ! k), Inr None)"
    using add_result [OF Cons.prems(1) p] by simp
  then show ?case
    using Cons.IH [OF Cons.prems(1) p] Cons.prems by auto
qed simp

lemma adds_incomplete:
  assumes "fragment_set fs" "\<not> haveID a \<or> currentID a \<noteq> fragId (fs ! 0)" "ks \<noteq> []"
    "set ks \<subset> {..<length fs}"
  shows "\<exists>a'. adds inflate a (map ((!) fs) ks) = (a', replicate (length ks) (Inr None)) \<and>
    partial fs (set ks) a'"
proof (cases ks)
  case (Cons k js)
  then have k: "k < length fs" using assms(4) by auto
  then have "fragId (fs ! k) = fragId (fs ! 0)"
    using assms(1) unfolding fragment_set_def by (meson length_greater_0_conv nth_mem)
  then have p: "partial fs {k} (pin (store a (fs ! k)) (fs ! k))"
    using store_first [OF assms(1) k] assms(2) by simp
  have ne: "{k} \<noteq> {..<length fs}" "{k} \<union> set js \<noteq> {..<length fs}" using assms(4) Cons by auto
  then have "add inflate a (fs ! k) = (pin (store a (fs ! k)) (fs ! k), Inr None)"
    using add_result [OF assms(1) p] by simp
  then show ?thesis
    using adds_partial [OF assms(1) p _ ne(2), of inflate] assms(4) Cons k by auto
qed (use assms in simp)

lemma adds_complete:
  assumes fs: "fragment_set fs" and a: "\<not> haveID a \<or> currentID a \<noteq> fragId (fs ! 0)"
    and ks: "set ks \<subset> {..<length fs}" "insert k (set ks) = {..<length fs}"
  shows "\<exists>a'. adds inflate a (map ((!) fs) (ks @ [k])) =
    (a', replicate (length ks) (Inr None) @
       [map_sum id Some (uncompress inflate (concat (map contents fs)))]) \<and> \<not> haveID a'"
proof (cases "ks = []")
  case True
  have k: "k < length fs" using ks by auto
  then have "fragId (fs ! k) = fragId (fs ! 0)"
    using fs unfolding fragment_set_def by (meson length_greater_0_conv nth_mem)
  then have "partial fs {k} (pin (store a (fs ! k)) (fs ! k))"
    using store_first [OF fs k] a by simp
  then show ?thesis
    using True ks add_result [OF fs, of "{k}" a "fs ! k" inflate] by simp
next
  case False
  obtain a' where a': "adds inflate a (map ((!) fs) ks) = (a', replicate (length ks) (Inr None))"
    and p: "partial fs (set ks) a'"
    using adds_incomplete [OF fs a False ks(1), of inflate] by blast
  have "k < length fs" using ks by auto
  then have "partial fs {..<length fs} (pin (store a' (fs ! k)) (fs ! k))"
    using store_next [OF fs _ p] ks(2) by metis
  then have "add inflate a' (fs ! k) = ((pin (store a' (fs ! k)) (fs ! k))\<lparr>haveID := False\<rparr>,
      map_sum id Some (uncompress inflate (concat (map contents fs))))"
    using add_result [OF fs] by simp
  then show ?thesis using a' by (simp add: adds_append)
qed


text \<open>
  The invariant of the assembly under any traffic: what it holds are fragments of the current
  instruction that arrived, each in the slot of its number, and \<open>arrived\<close> counts them.
\<close>

definition slots_ok :: "fragment set \<Rightarrow> u64 \<Rightarrow> fragment option list \<Rightarrow> bool" where
  "slots_ok F c fs \<longleftrightarrow> (\<forall>i g. i < length fs \<longrightarrow> fs ! i = Some g \<longrightarrow>
     unat (fragNum g) = i \<and> fragId g = c \<and> g \<in> F)"

definition assembly_inv :: "fragment set \<Rightarrow> assembly \<Rightarrow> bool" where
  "assembly_inv F a \<longleftrightarrow> (haveID a \<longrightarrow>
     arrived a = int (length (filter (\<lambda>fp. fp \<noteq> None) (frags a))) \<and>
     slots_ok F (currentID a) (frags a))"

lemma slots_ok_grow: "slots_ok F c fs \<Longrightarrow> slots_ok F c (fs @ replicate n None)"
  by (auto simp: slots_ok_def nth_append split: if_splits)

lemma slots_ok_take: "slots_ok F c fs \<Longrightarrow> slots_ok F c (take n fs)"
  unfolding slots_ok_def by (metis length_take min_less_iff_conj nth_take)

lemma slots_ok_mono: "slots_ok F c fs \<Longrightarrow> slots_ok (insert f F) c fs"
  unfolding slots_ok_def by blast

lemma slots_ok_update:
  "slots_ok F (fragId f) fs \<Longrightarrow> slots_ok (insert f F) (fragId f) (fs[unat (fragNum f) := Some f])"
  unfolding slots_ok_def
proof (intro allI impI)
  fix i g
  assume F: "\<forall>i g. i < length fs \<longrightarrow> fs ! i = Some g \<longrightarrow>
      unat (fragNum g) = i \<and> fragId g = fragId f \<and> g \<in> F"
    and i: "i < length (fs[unat (fragNum f) := Some f])" "fs[unat (fragNum f) := Some f] ! i = Some g"
  show "unat (fragNum g) = i \<and> fragId g = fragId f \<and> g \<in> insert f F"
  proof (cases "i = unat (fragNum f)")
    case True
    then have "g = f" using i by simp
    then show ?thesis using True by simp
  next
    case False
    then have "i < length fs" "fs ! i = Some g" using i by simp_all
    then show ?thesis using F by blast
  qed
qed

lemma filter_update:
  assumes "k < length xs" "xs ! k = None"
  shows "length (filter (\<lambda>x. x \<noteq> None) (xs[k := Some v])) = Suc (length (filter (\<lambda>x. x \<noteq> None) xs))"
  using assms by (induction xs arbitrary: k) (auto simp: nth_Cons split: nat.splits)

lemma store_inv:
  assumes "assembly_inv F a" "valid_fragment f"
  shows "assembly_inv (insert f F) (store a f) \<and> haveID (store a f) \<and> currentID (store a f) = fragId f"
proof (cases "\<not> haveID a \<or> currentID a \<noteq> fragId f")
  case True
  let ?k = "unat (fragNum f)" and ?n = "\<lambda>k. replicate (Suc k) None"
  have "unat (fragNum f + 1) = Suc ?k"
    using assms(2) by (simp add: valid_fragment_def word_less_nat_alt unat_word_ariths)
  then have s: "store a f = a\<lparr>currentID := fragId f, haveID := True,
      frags := (?n ?k)[?k := Some f], arrived := 1, total := -1\<rparr>"
    using True by (simp add: store_def)
  have "slots_ok F (fragId f) (?n ?k)" by (simp add: slots_ok_def del: replicate_Suc)
  moreover have "length (filter (\<lambda>x. x \<noteq> None) ((?n ?k)[?k := Some f])) = 1"
    using filter_update [of ?k "?n ?k" f] by (simp del: replicate_Suc not_None_eq)
  ultimately show ?thesis unfolding s
    using slots_ok_update by (simp add: assembly_inv_def del: replicate_Suc not_None_eq)
next
  case False
  let ?k = "unat (fragNum f)"
  show ?thesis
  proof (cases "?k < length (frags a) \<and> frags a ! ?k \<noteq> None")
    case True
    then have "store a f = a" using False by (auto simp: store_def)
    then show ?thesis using False assms(1) slots_ok_mono by (simp add: assembly_inv_def)
  next
    case new: False
    let ?fs = "frags a @ replicate (?k + 1 - length (frags a)) None"
    have s: "store a f = a\<lparr>frags := ?fs[?k := Some f], arrived := arrived a + 1\<rparr>"
      using False new by (auto simp: store_def Let_def)
    have k: "?k < length ?fs" "?fs ! ?k = None" using new by (auto simp: nth_append)
    have "length (filter (\<lambda>x. x \<noteq> None) ?fs) = length (filter (\<lambda>x. x \<noteq> None) (frags a))" by simp
    moreover have "slots_ok (insert f F) (fragId f) (?fs[?k := Some f])"
      using False assms(1) by (intro slots_ok_update slots_ok_grow) (simp add: assembly_inv_def)
    ultimately show ?thesis unfolding s
      using False assms(1) filter_update [OF k, of f]
      by (simp add: assembly_inv_def del: filter_append not_None_eq)
  qed
qed

lemma pin_inv: "assembly_inv F a \<Longrightarrow> assembly_inv F (pin a f)"
  by (simp add: assembly_inv_def pin_def Let_def slots_ok_take del: not_None_eq)

lemma pin_id [simp]: "haveID (pin a f) = haveID a" "currentID (pin a f) = currentID a"
  by (simp_all add: pin_def Let_def)

lemma add_inv:
  assumes "assembly_inv F a" "valid_fragment f" "add inflate a f = (a', r)"
  shows "assembly_inv (insert f F) a'"
proof -
  have "assembly_inv (insert f F) (pin (store a f) f)"
    using pin_inv store_inv [OF assms(1,2)] by blast
  moreover have "assembly_inv F (b\<lparr>haveID := False\<rparr>)" for F b by (simp add: assembly_inv_def)
  ultimately show ?thesis using assms(3) by (auto simp: add_def Let_def split: if_splits)
qed

lemma map_sum_eq: "map_sum id Some r = Inr (Some p) \<longleftrightarrow> r = Inr p"
  by (cases r) auto

lemma add_delivers:
  assumes "assembly_inv F a" "valid_fragment f" "add inflate a f = (a', Inr (Some p))"
  shows "\<exists>gs. set gs \<subseteq> insert f F \<and> uncompress inflate (concat (map contents gs)) = Inr p \<and>
    (\<forall>i < length gs. unat (fragNum (gs ! i)) = i \<and> fragId (gs ! i) = fragId f)"
proof -
  let ?a = "pin (store a f) f"
  have inv: "assembly_inv (insert f F) ?a" "haveID ?a" "currentID ?a = fragId f"
    using pin_inv store_inv [OF assms(1,2)] by auto
  have all: "None \<notin> set (frags ?a)"
    and p: "uncompress inflate (concat (map (\<lambda>fp. contents (the fp)) (frags ?a))) = Inr p"
    using assms(3) by (auto simp: add_def Let_def list_ex_iff map_sum_eq split: if_splits)
  define gs where "gs = map the (frags ?a)"
  have nth: "frags ?a ! i = Some (gs ! i)" if "i < length gs" for i
    using that all nth_mem [of i "frags ?a"] by (cases "frags ?a ! i") (auto simp: gs_def)
  then have i: "unat (fragNum (gs ! i)) = i \<and> fragId (gs ! i) = fragId f \<and> gs ! i \<in> insert f F"
    if "i < length gs" for i
    using inv that unfolding assembly_inv_def slots_ok_def by (metis gs_def length_map)
  then have "set gs \<subseteq> insert f F" by (metis in_set_conv_nth subsetI)
  moreover have "map contents gs = map (\<lambda>fp. contents (the fp)) (frags ?a)" by (simp add: gs_def)
  ultimately show ?thesis using p i by metis
qed


lemma adds_sound:
  assumes "assembly_inv F a" "\<forall>f \<in> set fs. valid_fragment f"
    "Inr (Some p) \<in> set (snd (adds inflate a fs))"
  shows "\<exists>gs fid. set gs \<subseteq> F \<union> set fs \<and> uncompress inflate (concat (map contents gs)) = Inr p \<and>
    (\<forall>i < length gs. unat (fragNum (gs ! i)) = i \<and> fragId (gs ! i) = fid)"
  using assms
proof (induction fs arbitrary: a F)
  case (Cons f fs)
  obtain a' r where r: "add inflate a f = (a', r)" by fastforce
  show ?case
  proof (cases "r = Inr (Some p)")
    case True
    then have "\<exists>gs. set gs \<subseteq> insert f F \<and> uncompress inflate (concat (map contents gs)) = Inr p \<and>
        (\<forall>i < length gs. unat (fragNum (gs ! i)) = i \<and> fragId (gs ! i) = fragId f)"
      using add_delivers Cons.prems r by simp
    moreover have "insert f F \<subseteq> F \<union> set (f # fs)" by auto
    ultimately show ?thesis by (meson subset_trans)
  next
    case False
    then have "Inr (Some p) \<in> set (snd (adds inflate a' fs))"
      using Cons.prems(3) r by (auto split: prod.splits)
    moreover have "assembly_inv (insert f F) a'" using add_inv [OF Cons.prems(1) _ r] Cons.prems(2) by simp
    ultimately have "\<exists>gs fid. set gs \<subseteq> insert f F \<union> set fs \<and>
        uncompress inflate (concat (map contents gs)) = Inr p \<and>
        (\<forall>i < length gs. unat (fragNum (gs ! i)) = i \<and> fragId (gs ! i) = fid)"
      using Cons.IH [where F = "insert f F" and a = a'] Cons.prems(2) by simp
    then show ?thesis by simp
  qed
qed simp

section \<open>Properties\<close>

text \<open>The fragment header is a faithful encoding. A fragment whose number fits 15 bits is
  read back from its datagram, and whatever datagram parses is the encoding of the fragment it
  parses to; only datagrams shorter than the header are refused.\<close>

theorem fragment_roundtrip:
  "(valid_fragment f \<longrightarrow> parseFragment (marshal f) = Inr f) \<and>
   (parseFragment b = Inr g \<longrightarrow> marshal g = b \<and> valid_fragment g) \<and>
   (parseFragment b = Inl ErrShortFragment \<longleftrightarrow> length b < fragHeaderLen)"
  using frag.dec_enc [of f] frag.enc_dec [of b g] frag.dec_valid [of b g]
  by (auto simp: parseFragment_def Let_def)

lemma fragment_roundtrip_witness:
  "parseFragment (marshal \<lparr>fragId = 7, fragNum = 3, final = True, contents = [1, 2]\<rparr>)
     = Inr \<lparr>fragId = 7, fragNum = 3, final = True, contents = [1, 2]\<rparr>"
  using fragment_roundtrip [of "\<lparr>fragId = 7, fragNum = 3, final = True, contents = [1, 2]\<rparr>" "[]" undefined]
  by (simp add: valid_fragment_def)

text \<open>C29: for every MTU beyond the header the fragmenter returns, no datagram exceeds the MTU, the
  contents in order are the compressed instruction, every fragment carries the fragmenter's id
  and its index (modulo \<^verbatim>\<open>uint16\<close>), and exactly the last one is final.\<close>

theorem fragments_fit:
  assumes "10 < mtu" "makeFragments deflate fr inst mtu = (fr', fo)"
  shows "\<exists>fs. fo = Some fs \<and> fs \<noteq> [] \<and> (\<forall>f \<in> set fs. int (length (marshal f)) \<le> mtu) \<and>
    concat (map contents fs) = deflate inst \<and>
    (\<forall>i < length fs. fragId (fs ! i) = nextID fr' \<and> fragNum (fs ! i) = of_nat i \<and>
       final (fs ! i) = (i + 1 = length fs)) \<and>
    int (length fs) \<le> int (length (deflate inst)) div (mtu - 10) + 1"
proof -
  let ?cs = "chunks (nat (mtu - 10)) (deflate inst)"
  let ?fs = "fragments_of (nextID fr') 0 ?cs"
  have "int (length c) \<le> mtu - 10" if "c \<in> set ?cs" for c
    using length_chunk [OF _ that] assms(1) by linarith
  then have "10 + int (length (?cs ! i)) \<le> mtu" if "i < length ?cs" for i
    using that by (fastforce dest: nth_mem)
  then have "\<forall>f \<in> set ?fs. int (length (marshal f)) \<le> mtu"
    by (auto simp: fragments_of_def marshal_def Let_def)
  moreover have "int (length ?cs) \<le> int (length (deflate inst) div nat (mtu - 10) + 1)"
    using length_chunks [of "nat (mtu - 10)" "deflate inst"] assms(1) by linarith
  then have "int (length ?cs) \<le> int (length (deflate inst)) div (mtu - 10) + 1"
    using assms(1) by (simp add: zdiv_int)
  moreover have "?fs \<noteq> []" using chunks_neq_Nil by (simp add: fragments_of_def)
  ultimately show ?thesis
    using makeFragments_spec [OF assms] contents_fragments_of [of "nextID fr'" 0 ?cs]
      concat_chunks [of "nat (mtu - 10)" "deflate inst"]
    by (intro exI [of _ ?fs]) (simp add: fragments_of_def)
qed


lemma fragments_fit_witness:
  "\<exists>fs. snd (makeFragments id zeroFragmenter [1, 2, 3] 12) = Some fs \<and> concat (map contents fs) = [1, 2, 3]"
proof -
  obtain fr' fo where e: "makeFragments id zeroFragmenter [1, 2, 3] 12 = (fr', fo)" by fastforce
  then show ?thesis using fragments_fit [of 12 id zeroFragmenter "[1, 2, 3]" fr' fo] by auto
qed

lemma fragment_set_made:
  assumes "10 < mtu" "int (length (deflate inst)) < 2 ^ 15 * (mtu - 10)"
    and "makeFragments deflate fr inst mtu = (fr', Some fs)"
  shows "fragment_set fs"
proof -
  let ?cs = "chunks (nat (mtu - 10)) (deflate inst)"
  have fs: "fs = fragments_of (nextID fr') 0 ?cs"
    using makeFragments_spec [OF assms(1,3)] by simp
  have "length (deflate inst) div nat (mtu - 10) < 2 ^ 15"
    using assms(1,2) by (intro less_mult_imp_div_less) (simp add: nat_less_iff flip: of_nat_less_iff)
  then have "length ?cs \<le> 2 ^ 15"
    using length_chunks [of "nat (mtu - 10)" "deflate inst"] assms(1) by linarith
  then show ?thesis using fs fragment_set_fragments_of by simp
qed

lemma fragment_set_valid:
  assumes "fragment_set fs" "f \<in> set fs"
  shows "valid_fragment f"
proof -
  obtain i where "i < length fs" "f = fs ! i" using assms(2) by (metis in_set_conv_nth)
  then have "unat (fragNum f) < 2 ^ 15" using assms(1) unfolding fragment_set_def by force
  then show ?thesis by (simp add: valid_fragment_def word_less_nat_alt)
qed

lemma adds_made:
  assumes "zlib deflate inflate" "10 < mtu" "length inst \<le> maxUncompressed"
    and "int (length (deflate inst)) < 2 ^ 15 * (mtu - 10)"
    and "makeFragments deflate fr inst mtu = (fr', Some fs)"
    and "\<not> haveID a \<or> currentID a \<noteq> nextID fr'"
    and "set ks \<subset> {..<length fs}" "insert k (set ks) = {..<length fs}"
  shows "\<exists>a'. adds inflate a (map ((!) fs) (ks @ [k])) =
    (a', replicate (length ks) (Inr None) @ [Inr (Some inst)]) \<and> \<not> haveID a'"
proof -
  let ?cs = "chunks (nat (mtu - 10)) (deflate inst)"
  have fs: "fs = fragments_of (nextID fr') 0 ?cs"
    using makeFragments_spec [OF assms(2,5)] by simp
  have set: "fragment_set fs" by (rule fragment_set_made [OF assms(2,4,5)])
  have "fragId (fs ! 0) = nextID fr'"
    using set by (simp add: fs fragments_of_def)
  moreover have "uncompress inflate (concat (map contents fs)) = Inr inst"
    using assms(1,3)
    by (simp add: fs contents_fragments_of concat_chunks uncompress_def zlib_def)
  ultimately show ?thesis
    using adds_complete [OF set _ assms(7,8), of a inflate] assms(6) by simp
qed

text \<open>C13: reassembly. Let the fragmenter split an instruction of at most 4 MiB into at most
  \<open>2 ^ 15\<close> fragments, and let the network deliver them in any order, with any duplicates, to an
  assembly that is not collecting that id. Every delivery before the set is complete yields
  nothing; the one that completes it yields the instruction and resets the assembly.\<close>

theorem reassembly:
  assumes "zlib deflate inflate" "10 < mtu" "length inst \<le> maxUncompressed"
    and "int (length (deflate inst)) < 2 ^ 15 * (mtu - 10)"
    and "makeFragments deflate fr inst mtu = (fr', Some fs)"
    and "\<not> haveID a \<or> currentID a \<noteq> nextID fr'"
    and "set ks \<subset> {..<length fs}" "insert k (set ks) = {..<length fs}"
  shows "\<exists>a'. adds inflate a (map ((!) fs) (ks @ [k])) =
    (a', replicate (length ks) (Inr None) @ [Inr (Some inst)]) \<and> \<not> haveID a'"
  by (rule adds_made [OF assms])

lemma reassembly_witness:
  "\<exists>a'. adds (\<lambda>n b. Some (take n b)) zeroAssembly
     (map ((!) (the (snd (makeFragments id zeroFragmenter [1, 2, 3] 12)))) [1, 1, 0])
   = (a', [Inr None, Inr None, Inr (Some [1, 2, 3])]) \<and> \<not> haveID a'"
proof -
  obtain fr' where e: "makeFragments id zeroFragmenter [1, 2, 3] 12 =
      (fr', Some [\<lparr>fragId = 1, fragNum = 0, final = False, contents = [1, 2]\<rparr>,
                  \<lparr>fragId = 1, fragNum = 1, final = True, contents = [3]\<rparr>])" (is "_ = (_, Some ?fs)")
    by (auto simp: makeFragments_def compress_def fragHeaderLen_def zeroFragmenter_def Let_def
        makeFragments_loop.simps)
  have "{..<2 :: nat} = {0, 1}" by auto
  then show ?thesis
    using reassembly [of id "\<lambda>n b. Some (take n b)" 12 "[1, 2, 3]" zeroFragmenter fr' ?fs
        zeroAssembly "[1, 1]" 0] e
    by (auto simp: zlib_def zeroAssembly_def maxUncompressed_def numeral_2_eq_2)
qed

text \<open>Whatever fragments arrive, in any order and from any number of instructions, an
  instruction that the assembly delivers is the decompression of fragments that did arrive, all
  with one id and numbered without a gap from zero; the assembly never mixes two instructions.\<close>

theorem assembly_sound:
  assumes "\<forall>f \<in> set fs. valid_fragment f" "Inr (Some p) \<in> set (snd (adds inflate zeroAssembly fs))"
  shows "\<exists>gs fid. set gs \<subseteq> set fs \<and> uncompress inflate (concat (map contents gs)) = Inr p \<and>
    (\<forall>i < length gs. unat (fragNum (gs ! i)) = i \<and> fragId (gs ! i) = fid)"
  using adds_sound [where F = "{}", OF _ assms] by (simp add: assembly_inv_def zeroAssembly_def)

lemma assembly_sound_witness:
  "\<exists>gs fid. set gs \<subseteq> {\<lparr>fragId = 1, fragNum = 0, final = True, contents = [9]\<rparr>} \<and>
    uncompress (\<lambda>n b. Some (take n b)) (concat (map contents gs)) = Inr [9] \<and>
    (\<forall>i < length gs. unat (fragNum (gs ! i)) = i \<and> fragId (gs ! i) = fid)"
  using assembly_sound [of "[\<lparr>fragId = 1, fragNum = 0, final = True, contents = [9]\<rparr>]" "[9]"
      "\<lambda>n b. Some (take n b)"]
  by (simp add: valid_fragment_def add_def store_def pin_def zeroAssembly_def uncompress_def
      maxUncompressed_def Let_def)

text \<open>Ids. An instruction that is fragmented again under the same MTU keeps its id and
  leaves the fragmenter as it is; when the compressed bytes or the MTU change, the id is the next
  one, so that the receiver abandons the old partial.\<close>

theorem fragment_id_reuse:
  assumes "makeFragments deflate fr inst mtu = (fr1, fo1)"
    and "makeFragments deflate fr1 inst2 mtu2 = (fr2, fo2)"
  shows "(deflate inst2 = deflate inst \<and> mtu2 = mtu \<longrightarrow> fr2 = fr1 \<and> fo2 = fo1) \<and>
    (deflate inst2 \<noteq> deflate inst \<or> mtu2 \<noteq> mtu \<longrightarrow> nextID fr2 = nextID fr1 + 1)"
  using assms by (auto simp: makeFragments_def compress_def Let_def split: if_splits)

lemma fragment_id_reuse_witness:
  "nextID (fst (makeFragments id (fst (makeFragments id zeroFragmenter [1] 472)) [2] 472)) = 2"
proof -
  obtain fr1 fo1 fr2 fo2 where
    e: "makeFragments id zeroFragmenter [1] 472 = (fr1, fo1)" "makeFragments id fr1 [2] 472 = (fr2, fo2)"
    by (metis surj_pair)
  then have "nextID fr1 = 1" by (auto simp: makeFragments_def compress_def Let_def zeroFragmenter_def)
  then show ?thesis using fragment_id_reuse [OF e] e by simp
qed

end
