(* ===== verification/Sender.thy ===== *)
theory Sender
  imports User_Stream Fragment Float64
begin

unbundle bit_operations_syntax

text \<open>
  \<^verbatim>\<open>internal/transport/sender.go\<close>: the outgoing half of state synchronization.

  The interface \<^verbatim>\<open>senderConn\<close>, the clock and the random source are the operations of a record,
  over a state \<open>'c\<close> of the connection and its environment; the locale \<open>sender_conn\<close> states what
  the sender relies on. Times are never far enough apart for their arithmetic to overflow.

  The pointers of the source are values here: every \<^verbatim>\<open>UserStream\<close> of \<^verbatim>\<open>sentStates\<close> is a clone of
  its own, so that \<^verbatim>\<open>rationalizeStates\<close>, which walks the queue backwards, subtracts one and the
  same prefix from all of them. An index into \<^verbatim>\<open>sentStates\<close> is in range by \<open>sender_inv\<close>.

  \<open>emitted\<close> is a history variable that no operation reads: the instructions for which
  \<^verbatim>\<open>sendInFragments\<close> returned without an error, in order. Operations that send return \<open>None\<close>
  where the fragmenter does not return.
\<close>

section \<open>Constants and types\<close>

definition sendIntervalMin :: duration where
  "sendIntervalMin = 20 * millisecond"

definition sendIntervalMax :: duration where
  "sendIntervalMax = 250 * millisecond"

definition ackInterval :: duration where
  "ackInterval = 3000 * millisecond"

definition ackDelay :: duration where
  "ackDelay = 100 * millisecond"

definition sendMindelay :: duration where
  "sendMindelay = 8 * millisecond"

definition shutdownRetries :: int where
  "shutdownRetries = 16"

definition maxSendBurst :: duration where
  "maxSendBurst = 3 * second"

definition protocolVersion :: u32 where
  "protocolVersion = 2"

definition ShutdownNum :: u64 where
  "ShutdownNum = NOT 0"

record timestampedState =
  sentAt :: time
  stateNum :: u64
  stream :: UserStream

record 'c senderConn =
  connSend :: "bytes \<Rightarrow> 'c \<Rightarrow> error option \<times> 'c"
  connSRTT :: "'c \<Rightarrow> float64"
  connTimeout :: "'c \<Rightarrow> duration"
  connMTU :: "'c \<Rightarrow> int"
  connSetLastRoundtripSuccess :: "time \<Rightarrow> 'c \<Rightarrow> 'c"
  connNow :: "'c \<Rightarrow> time \<times> 'c"
  connRand :: "nat \<Rightarrow> 'c \<Rightarrow> bytes \<times> 'c"

record sender =
  currentState :: UserStream
  sentStates :: "timestampedState list"
  assumedReceiverStateIdx :: nat
  fragr :: fragmenter
  nextAckTime :: time
  nextSendTime :: time
  haveSendTime :: bool
  shutdownInProgress :: bool
  shutdownTries :: int
  shutdownStart :: time
  ackNum :: u64
  pendingDataAck :: bool
  mindelayClock :: time
  haveMindelay :: bool
  emitted :: "Instruction list"

section \<open>Operations without sending\<close>

definition newSender :: "'c senderConn \<Rightarrow> 'c \<Rightarrow> sender \<times> 'c" where
  "newSender k w =
     (let initial = emptyStream;
          (t1, w) = connNow k w;
          (t2, w) = connNow k w
      in (\<lparr>currentState = Clone initial,
           sentStates = [\<lparr>sentAt = t1, stateNum = 0, stream = initial\<rparr>],
           assumedReceiverStateIdx = 0, fragr = zeroFragmenter, nextAckTime = t2,
           nextSendTime = 0, haveSendTime = False, shutdownInProgress = False,
           shutdownTries = 0, shutdownStart = 0, ackNum = 0, pendingDataAck = False,
           mindelayClock = 0, haveMindelay = False, emitted = []\<rparr>, w))"

definition State :: "sender \<Rightarrow> UserStream" where
  "State s = currentState s"

definition NoteRoundtripSuccess :: "'c senderConn \<Rightarrow> sender \<Rightarrow> 'c \<Rightarrow> 'c" where
  "NoteRoundtripSuccess k s w = connSetLastRoundtripSuccess k (sentAt (sentStates s ! 0)) w"

definition SetAckNum :: "sender \<Rightarrow> u64 \<Rightarrow> sender" where
  "SetAckNum s n = (if ackNum s < n then s\<lparr>ackNum := n\<rparr> else s)"

definition SetDataAck :: "sender \<Rightarrow> sender" where
  "SetDataAck s = s\<lparr>pendingDataAck := True\<rparr>"

text \<open>The conversion of a float64 to an integer drops the fraction.\<close>

definition ftrunc :: "float64 \<Rightarrow> int" where
  "ftrunc x = (if 0 \<le> x then \<lfloor>x\<rfloor> else \<lceil>x\<rceil>)"

definition sendInterval :: "'c senderConn \<Rightarrow> 'c \<Rightarrow> duration" where
  "sendInterval k w =
     (let iv = ftrunc (fadd (fdiv (connSRTT k w) 2) (1 / 2)) * millisecond
      in if iv < sendIntervalMin then sendIntervalMin
         else if sendIntervalMax < iv then sendIntervalMax else iv)"

text \<open>The loop of \<^verbatim>\<open>updateAssumedReceiverState\<close>: the states from index \<open>i\<close> on, and the index so far.\<close>

fun assumeStates :: "'c senderConn \<Rightarrow> 'c \<Rightarrow> time \<Rightarrow> nat \<Rightarrow> timestampedState list \<Rightarrow> nat \<Rightarrow> nat" where
  "assumeStates k w now i [] idx = idx"
| "assumeStates k w now i (st # sts) idx =
     (if timeSub now (sentAt st) < connTimeout k w + ackDelay
      then assumeStates k w now (i + 1) sts i else idx)"

definition updateAssumedReceiverState :: "'c senderConn \<Rightarrow> sender \<Rightarrow> time \<Rightarrow> 'c \<Rightarrow> sender" where
  "updateAssumedReceiverState k s now w =
     s\<lparr>assumedReceiverStateIdx := assumeStates k w now 1 (drop 1 (sentStates s)) 0\<rparr>"

definition rationalizeStates :: "sender \<Rightarrow> sender" where
  "rationalizeStates s =
     (let known = stream (sentStates s ! 0)
      in s\<lparr>currentState := Subtract (currentState s) known,
           sentStates := map (\<lambda>st. st\<lparr>stream := Subtract (stream st) known\<rparr>) (sentStates s)\<rparr>)"

text \<open>When the next diff is due: a new state, one sent but given up on, one not yet acknowledged.\<close>

definition scheduleSend :: "'c senderConn \<Rightarrow> sender \<Rightarrow> time \<Rightarrow> 'c \<Rightarrow> sender" where
  "scheduleSend k s now w =
     (let back = last (sentStates s)
      in if \<not> Equal (currentState s) (stream back) then
           (let s = (if \<not> haveMindelay s then s\<lparr>mindelayClock := now, haveMindelay := True\<rparr> else s);
                target = mindelayClock s + sendMindelay;
                wait = sentAt back + sendInterval k w;
                target = (if target < wait then wait else target)
            in s\<lparr>nextSendTime := target, haveSendTime := True\<rparr>)
         else if \<not> Equal (currentState s) (stream (sentStates s ! assumedReceiverStateIdx s)) then
           s\<lparr>nextSendTime := sentAt back + sendInterval k w, haveSendTime := True\<rparr>
         else if \<not> Equal (currentState s) (stream (sentStates s ! 0)) then
           s\<lparr>nextSendTime := sentAt back + (connTimeout k w + ackDelay), haveSendTime := True\<rparr>
         else s\<lparr>haveSendTime := False\<rparr>)"

definition calculateTimers :: "'c senderConn \<Rightarrow> sender \<Rightarrow> time \<Rightarrow> 'c \<Rightarrow> sender" where
  "calculateTimers k s now w =
     (let s = updateAssumedReceiverState k s now w;
          s = rationalizeStates s;
          s = (if pendingDataAck s \<and> now + ackDelay < nextAckTime s
               then s\<lparr>nextAckTime := now + ackDelay\<rparr> else s);
          s = scheduleSend k s now w
      in if shutdownInProgress s \<or> ackNum s = ShutdownNum
         then s\<lparr>nextAckTime := sentAt (last (sentStates s)) + sendInterval k w\<rparr> else s)"

definition WaitTime :: "'c senderConn \<Rightarrow> sender \<Rightarrow> time \<Rightarrow> 'c \<Rightarrow> sender \<times> duration" where
  "WaitTime k s now w =
     (let s = calculateTimers k s now w;
          nxt = nextAckTime s;
          nxt = (if haveSendTime s \<and> nextSendTime s < nxt then nextSendTime s else nxt)
      in (s, if now < nxt then timeSub nxt now else 0))"

section \<open>Sending\<close>

definition makeChaff :: "'c senderConn \<Rightarrow> 'c \<Rightarrow> bytes \<times> 'c" where
  "makeChaff k w =
     (let (lenByte, w) = connRand k 1 w; n = unat (lenByte ! 0) mod 17 in connRand k n w)"

fun sendFragments :: "'c senderConn \<Rightarrow> time \<Rightarrow> fragment list \<Rightarrow> 'c \<Rightarrow> error option \<times> 'c" where
  "sendFragments k deadline [] w = (None, w)"
| "sendFragments k deadline (f # fs) w =
     (let (now, w) = connNow k w
      in if deadline < now then (None, w)
         else
           let (err, w) = connSend k (marshal f) w
           in case err of Some e \<Rightarrow> (Some e, w) | None \<Rightarrow> sendFragments k deadline fs w)"

definition mkInstruction :: "sender \<Rightarrow> bytes \<Rightarrow> u64 \<Rightarrow> bytes \<Rightarrow> Instruction" where
  "mkInstruction s diff newNum chaff =
     \<lparr>ProtocolVersion = protocolVersion, OldNum = stateNum (sentStates s ! assumedReceiverStateIdx s),
      NewNum = newNum, AckNum = ackNum s, ThrowawayNum = stateNum (sentStates s ! 0),
      Diff = diff, Chaff = chaff\<rparr>"

definition sendInFragments ::
  "'c senderConn \<Rightarrow> (bytes \<Rightarrow> bytes) \<Rightarrow> sender \<Rightarrow> bytes \<Rightarrow> u64 \<Rightarrow> 'c \<Rightarrow> (sender \<times> error option \<times> 'c) option" where
  "sendInFragments k deflate s diff newNum w =
     (let (chaff, w) = makeChaff k w;
          inst = mkInstruction s diff newNum chaff;
          s = (if newNum = ShutdownNum then s\<lparr>shutdownTries := shutdownTries s + 1\<rparr> else s);
          (now, w) = connNow k w;
          deadline = now + maxSendBurst;
          (fr, fo) = makeFragments deflate (fragr s) (Marshal inst) (connMTU k w);
          s = s\<lparr>fragr := fr\<rparr>
      in case fo of
           None \<Rightarrow> None
         | Some fs \<Rightarrow>
             (let (err, w) = sendFragments k deadline fs w
              in case err of
                   Some e \<Rightarrow> Some (s, Some e, w)
                 | None \<Rightarrow> Some (s\<lparr>pendingDataAck := False, emitted := emitted s @ [inst]\<rparr>, None, w)))"

definition addSentState :: "sender \<Rightarrow> time \<Rightarrow> u64 \<Rightarrow> UserStream \<Rightarrow> sender" where
  "addSentState s now n st =
     (let s = s\<lparr>sentStates := sentStates s @ [\<lparr>sentAt = now, stateNum = n, stream = st\<rparr>]\<rparr>
      in if 32 < length (sentStates s) then
           let eraseIdx = length (sentStates s) - 16;
               s = s\<lparr>sentStates := take eraseIdx (sentStates s) @ drop (eraseIdx + 1) (sentStates s)\<rparr>
           in if eraseIdx \<le> assumedReceiverStateIdx s \<and> 0 < assumedReceiverStateIdx s
              then s\<lparr>assumedReceiverStateIdx := assumedReceiverStateIdx s - 1\<rparr> else s
         else s)"

definition sendEmptyAck ::
  "'c senderConn \<Rightarrow> (bytes \<Rightarrow> bytes) \<Rightarrow> sender \<Rightarrow> time \<Rightarrow> 'c \<Rightarrow> (sender \<times> error option \<times> 'c) option" where
  "sendEmptyAck k deflate s now w =
     (let newNum = stateNum (last (sentStates s)) + 1;
          newNum = (if shutdownInProgress s then ShutdownNum else newNum)
      in case sendInFragments k deflate s [] newNum w of
           None \<Rightarrow> None
         | Some (s, Some e, w) \<Rightarrow> Some (s\<lparr>nextAckTime := now + sendInterval k w\<rparr>, Some e, w)
         | Some (s, None, w) \<Rightarrow>
             (let s = addSentState s now newNum (Clone (currentState s))
              in Some (s\<lparr>nextAckTime := now + ackInterval, haveSendTime := False\<rparr>, None, w)))"

definition sendToReceiver ::
  "'c senderConn \<Rightarrow> (bytes \<Rightarrow> bytes) \<Rightarrow> sender \<Rightarrow> time \<Rightarrow> bytes \<Rightarrow> 'c \<Rightarrow> (sender \<times> error option \<times> 'c) option" where
  "sendToReceiver k deflate s now diff w =
     (let back = last (sentStates s);
          newNum = (if Equal (currentState s) (stream back) then stateNum back else stateNum back + 1);
          newNum = (if shutdownInProgress s then ShutdownNum else newNum);
          s = (if newNum = stateNum back
               then s\<lparr>sentStates := butlast (sentStates s) @ [back\<lparr>sentAt := now\<rparr>]\<rparr> else s)
      in case sendInFragments k deflate s diff newNum w of
           None \<Rightarrow> None
         | Some (s, Some e, w) \<Rightarrow> Some (s, Some e, w)
         | Some (s, None, w) \<Rightarrow>
             (let s = (if newNum \<noteq> stateNum back then addSentState s now newNum (Clone (currentState s)) else s)
              in Some (s\<lparr>assumedReceiverStateIdx := length (sentStates s) - 1,
                         nextAckTime := now + ackInterval, haveSendTime := False\<rparr>, None, w)))"

text \<open>The rest of \<^verbatim>\<open>Tick\<close>, once an acknowledgment or a diff is due.\<close>

definition tickDue ::
  "'c senderConn \<Rightarrow> (bytes \<Rightarrow> bytes) \<Rightarrow> sender \<Rightarrow> time \<Rightarrow> 'c \<Rightarrow> (sender \<times> error option \<times> 'c) option" where
  "tickDue k deflate s now w =
     (let diff = DiffFrom (currentState s) (stream (sentStates s ! assumedReceiverStateIdx s))
      in if diff = [] then
           (case (if \<not> now < nextAckTime s then
                    (case sendEmptyAck k deflate s now w of
                       Some (s, None, w) \<Rightarrow> Some (s\<lparr>haveMindelay := False\<rparr>, None, w)
                     | r \<Rightarrow> r)
                  else Some (s, None, w)) of
              Some (s, None, w) \<Rightarrow>
                Some (if haveSendTime s \<and> \<not> now < nextSendTime s
                      then s\<lparr>haveSendTime := False, haveMindelay := False\<rparr> else s, None, w)
            | r \<Rightarrow> r)
         else
           (case sendToReceiver k deflate s now diff w of
              Some (s, None, w) \<Rightarrow> Some (s\<lparr>haveMindelay := False\<rparr>, None, w)
            | r \<Rightarrow> r))"

definition Tick ::
  "'c senderConn \<Rightarrow> (bytes \<Rightarrow> bytes) \<Rightarrow> sender \<Rightarrow> 'c \<Rightarrow> (sender \<times> error option \<times> 'c) option" where
  "Tick k deflate s w =
     (let (now, w) = connNow k w;
          s = calculateTimers k s now w
      in if now < nextAckTime s \<and> (\<not> haveSendTime s \<or> now < nextSendTime s) then Some (s, None, w)
         else tickDue k deflate s now w)"

section \<open>Acknowledgments and shutdown\<close>

fun ackedSuffix :: "u64 \<Rightarrow> timestampedState list \<Rightarrow> timestampedState list option" where
  "ackedSuffix n [] = None"
| "ackedSuffix n (st # sts) = (if stateNum st = n then Some (st # sts) else ackedSuffix n sts)"

definition ProcessAcknowledgmentThrough :: "sender \<Rightarrow> u64 \<Rightarrow> sender" where
  "ProcessAcknowledgmentThrough s n =
     (case ackedSuffix n (sentStates s) of
        None \<Rightarrow> s
      | Some kept \<Rightarrow> s\<lparr>sentStates := kept, assumedReceiverStateIdx := 0\<rparr>)"

definition StartShutdown :: "'c senderConn \<Rightarrow> sender \<Rightarrow> 'c \<Rightarrow> sender \<times> 'c" where
  "StartShutdown k s w =
     (if \<not> shutdownInProgress s then
        let (now, w) = connNow k w in (s\<lparr>shutdownStart := now, shutdownInProgress := True\<rparr>, w)
      else (s, w))"

definition ShutdownInProgress :: "sender \<Rightarrow> bool" where
  "ShutdownInProgress s = shutdownInProgress s"

definition ShutdownAcknowledged :: "sender \<Rightarrow> bool" where
  "ShutdownAcknowledged s \<longleftrightarrow> shutdownInProgress s \<and> stateNum (sentStates s ! 0) = ShutdownNum"

definition ShutdownAckTimedOut :: "sender \<Rightarrow> bool" where
  "ShutdownAckTimedOut s \<longleftrightarrow> shutdownInProgress s \<and> shutdownRetries \<le> shutdownTries s"

section \<open>The contract of the connection\<close>

locale sender_conn =
  fixes k :: "'c senderConn"
  assumes conn_mtu: "10 < connMTU k w"
    and conn_rand: "length (fst (connRand k n w)) = n"
    and conn_timeout: "0 < connTimeout k w \<and> connTimeout k w \<le> second"

section \<open>The abstract queue\<close>

text \<open>What the protocol sees of the queue: the numbers and the streams, not the times.\<close>

type_synonym entry = "u64 \<times> UserStream"

definition entries :: "sender \<Rightarrow> entry list" where
  "entries s = map (\<lambda>st. (stateNum st, stream st)) (sentStates s)"

definition addEntry :: "entry list \<Rightarrow> entry \<Rightarrow> entry list" where
  "addEntry es e =
     (let es = es @ [e]
      in if 32 < length es then take (length es - 16) es @ drop (length es - 16 + 1) es else es)"

text \<open>
  The invariant of the sender: the queue is never empty and holds at most 32 states, the assumed
  state is one of them, each state extends the ones before it and the current state extends all.
\<close>

definition sender_inv :: "sender \<Rightarrow> bool" where
  "sender_inv s \<longleftrightarrow>
     sentStates s \<noteq> [] \<and> length (sentStates s) \<le> 32 \<and>
     assumedReceiverStateIdx s < length (sentStates s) \<and>
     sorted_wrt stream_prefix (map stream (sentStates s)) \<and>
     stream_prefix (stream (last (sentStates s))) (currentState s)"

lemma sender_inv_entries:
  "sender_inv s \<longleftrightarrow> entries s \<noteq> [] \<and> length (entries s) \<le> 32 \<and>
     assumedReceiverStateIdx s < length (entries s) \<and>
     sorted_wrt stream_prefix (map snd (entries s)) \<and> stream_prefix (snd (last (entries s))) (currentState s)"
  by (auto simp: sender_inv_def entries_def comp_def last_map)

lemma entries_update [simp]:
  "entries (s\<lparr>nextAckTime := t\<rparr>) = entries s" "entries (s\<lparr>nextSendTime := t\<rparr>) = entries s"
  "entries (s\<lparr>haveSendTime := b\<rparr>) = entries s" "entries (s\<lparr>haveMindelay := b\<rparr>) = entries s"
  "entries (s\<lparr>assumedReceiverStateIdx := i\<rparr>) = entries s" "entries (s\<lparr>currentState := u\<rparr>) = entries s"
  by (simp_all add: entries_def)

lemma length_entries [simp]: "length (entries s) = length (sentStates s)"
  by (simp add: entries_def)

lemma entries_Nil_iff [simp]: "entries s = [] \<longleftrightarrow> sentStates s = []"
  by (simp add: entries_def)

lemma last_entries: "sentStates s \<noteq> [] \<Longrightarrow> last (entries s) = (stateNum (last (sentStates s)), stream (last (sentStates s)))"
  by (simp add: entries_def last_map)

lemma nth_entries:
  "i < length (sentStates s) \<Longrightarrow> entries s ! i = (stateNum (sentStates s ! i), stream (sentStates s ! i))"
  by (simp add: entries_def)

lemma sorted_prefix_last:
  assumes "sorted_wrt stream_prefix us" "u \<in> set us"
  shows "stream_prefix u (last us)"
  using assms
proof (induction us rule: rev_induct)
  case (snoc v us)
  then show ?case by (auto simp: sorted_wrt_append)
qed simp

lemma entries_prefix_current:
  assumes "sender_inv s" "(n, u) \<in> set (entries s)"
  shows "stream_prefix u (currentState s)"
proof -
  have "u \<in> set (map snd (entries s))" using assms(2) by force
  then have "stream_prefix u (last (map snd (entries s)))"
    using sorted_prefix_last assms(1) unfolding sender_inv_entries by blast
  moreover have "last (map snd (entries s)) = snd (last (entries s))"
    using assms(1) by (intro last_map) (simp add: sender_inv_def)
  ultimately show ?thesis using assms(1) stream_prefix_trans unfolding sender_inv_entries by auto
qed

lemma first_prefix:
  assumes "sender_inv s" "(n, u) \<in> set (entries s)"
  shows "stream_prefix (stream (sentStates s ! 0)) u"
proof -
  obtain e es where e: "entries s = e # es" using assms(1) by (cases "entries s") (auto simp: sender_inv_def)
  then have "snd e = stream (sentStates s ! 0)" using nth_entries [of 0 s] assms(1) by (auto simp: sender_inv_def)
  moreover have "sorted_wrt stream_prefix (snd e # map snd es)" using assms(1) e by (simp add: sender_inv_entries)
  ultimately show ?thesis using assms(2) e by force
qed

section \<open>The queue under the operations\<close>

lemma set_addEntry: "set (addEntry es e) \<subseteq> insert e (set es)"
  by (auto simp: addEntry_def Let_def dest: in_set_takeD in_set_dropD)

lemma last_addEntry [simp]: "addEntry es e \<noteq> []" "last (addEntry es e) = e"
  by (auto simp: addEntry_def Let_def last_append)

lemma length_addEntry: "length es \<le> 32 \<Longrightarrow> length (addEntry es e) \<le> 32 \<and> 0 < length (addEntry es e)"
  by (auto simp: addEntry_def Let_def)

lemma addEntry_subseq: "\<exists>ds. addEntry es e = ds @ [e] \<and> subseq ds es"
proof (cases "32 < length es + 1")
  case True
  then have "addEntry es e = (take (length es - 15) es @ drop (length es - 15 + 1) es) @ [e]"
    by (simp add: addEntry_def Let_def)
  moreover have "drop (length es - 15 + 1) es = drop 1 (drop (length es - 15) es)" by simp
  then have "subseq (drop (length es - 15 + 1) es) (drop (length es - 15) es)"
    by (metis suffix_drop suffix_imp_subseq)
  then have "subseq (take (length es - 15) es @ drop (length es - 15 + 1) es)
      (take (length es - 15) es @ drop (length es - 15) es)"
    by (rule list_emb_append_mono [OF subseq_order.order_refl])
  ultimately show ?thesis by (metis append_take_drop_id)
next
  case False
  then show ?thesis by (intro exI [of _ es]) (simp add: addEntry_def Let_def)
qed


lemma sorted_wrt_subseq: "subseq xs ys \<Longrightarrow> sorted_wrt P ys \<Longrightarrow> sorted_wrt P xs"
proof (induction rule: list_emb.induct)
  case (list_emb_Cons2 x y xs ys)
  then show ?case using subseq_order.order_refl by (auto dest: list_emb_set [of _ xs ys])
qed auto

lemma sorted_addEntry:
  assumes "sorted_wrt stream_prefix (map snd es)" "\<And>u. u \<in> set (map snd es) \<Longrightarrow> stream_prefix u v"
  shows "sorted_wrt stream_prefix (map snd (addEntry es (n, v)))"
proof -
  obtain ds where ds: "addEntry es (n, v) = ds @ [(n, v)]" "subseq ds es" using addEntry_subseq by blast
  then have "subseq (map snd ds) (map snd es)" by (simp add: subseq_map)
  then have "sorted_wrt stream_prefix (map snd ds)" using sorted_wrt_subseq assms(1) by blast
  moreover have "set (map snd ds) \<subseteq> set (map snd es)"
    using ds(2) by (metis notin_set_nthsI subseq_map set_nths_subset subseq_conv_nths)
  ultimately show ?thesis using assms(2) by (auto simp: ds(1) sorted_wrt_append)
qed

lemma entries_addSentState:
  "entries (addSentState s now n v) = addEntry (entries s) (n, v)"
  by (simp add: addSentState_def entries_def addEntry_def Let_def take_map drop_map)

lemma addSentState_fields [simp]:
  "currentState (addSentState s now n v) = currentState s"
  "emitted (addSentState s now n v) = emitted s"
  "shutdownInProgress (addSentState s now n v) = shutdownInProgress s"
  "ackNum (addSentState s now n v) = ackNum s"
  by (simp_all add: addSentState_def Let_def)

lemma addSentState_idx:
  assumes "assumedReceiverStateIdx s < length (sentStates s)" "length (sentStates s) \<le> 32"
  shows "assumedReceiverStateIdx (addSentState s now n v) < length (sentStates (addSentState s now n v))"
  using assms by (auto simp: addSentState_def Let_def)

lemma sender_inv_addSentState:
  assumes "sender_inv s"
  shows "sender_inv (addSentState s now n (currentState s))"
proof -
  have "stream_prefix u (currentState s)" if "u \<in> set (map snd (entries s))" for u
    using entries_prefix_current [OF assms] that by force
  then have "sorted_wrt stream_prefix (map snd (addEntry (entries s) (n, currentState s)))"
    using assms by (intro sorted_addEntry) (auto simp: sender_inv_entries)
  moreover have "assumedReceiverStateIdx (addSentState s now n (currentState s))
      < length (entries (addSentState s now n (currentState s)))"
    using addSentState_idx [of s] assms by (simp add: sender_inv_def)
  ultimately show ?thesis
    using length_addEntry [of "entries s" "(n, currentState s)"] assms
    unfolding sender_inv_entries [of "addSentState s now n (currentState s)"] entries_addSentState
    by (simp add: sender_inv_def)
qed

text \<open>The known prefix is cut off every state.\<close>

definition cutting :: "sender \<Rightarrow> UserStream" where
  "cutting s = stream (sentStates s ! 0)"

lemma assumeStates_bound:
  "idx < i \<Longrightarrow> assumeStates k w now i sts idx < i + length sts"
  by (induction sts arbitrary: i idx) force+

lemma scheduleSend_fields [simp]:
  "currentState (scheduleSend k s now w) = currentState s" "sentStates (scheduleSend k s now w) = sentStates s"
  "assumedReceiverStateIdx (scheduleSend k s now w) = assumedReceiverStateIdx s"
  "emitted (scheduleSend k s now w) = emitted s" "fragr (scheduleSend k s now w) = fragr s"
  "shutdownInProgress (scheduleSend k s now w) = shutdownInProgress s"
  "shutdownTries (scheduleSend k s now w) = shutdownTries s" "ackNum (scheduleSend k s now w) = ackNum s"
  "pendingDataAck (scheduleSend k s now w) = pendingDataAck s"
  "nextAckTime (scheduleSend k s now w) = nextAckTime s"
  by (simp_all add: scheduleSend_def Let_def)

lemma calculateTimers_fields:
  "currentState (calculateTimers k s now w) = Subtract (currentState s) (cutting s)"
  "sentStates (calculateTimers k s now w) =
     map (\<lambda>st. st\<lparr>stream := Subtract (stream st) (cutting s)\<rparr>) (sentStates s)"
  "assumedReceiverStateIdx (calculateTimers k s now w) = assumeStates k w now 1 (drop 1 (sentStates s)) 0"
  "emitted (calculateTimers k s now w) = emitted s"
  "fragr (calculateTimers k s now w) = fragr s"
  "shutdownInProgress (calculateTimers k s now w) = shutdownInProgress s"
  "shutdownTries (calculateTimers k s now w) = shutdownTries s"
  "ackNum (calculateTimers k s now w) = ackNum s"
  "pendingDataAck (calculateTimers k s now w) = pendingDataAck s"
  by (simp_all add: calculateTimers_def updateAssumedReceiverState_def rationalizeStates_def cutting_def Let_def)

lemma entries_calculateTimers:
  "entries (calculateTimers k s now w) = map (\<lambda>(n, u). (n, Subtract u (cutting s))) (entries s)"
  by (simp add: entries_def calculateTimers_fields comp_def)

lemma sender_inv_calculateTimers:
  assumes "sender_inv s"
  shows "sender_inv (calculateTimers k s now w)"
proof -
  have "sorted_wrt stream_prefix (map (\<lambda>st. Subtract (stream st) (cutting s)) (sentStates s))"
    using assms stream_prefix_Subtract
    by (auto simp: sender_inv_def sorted_wrt_map intro: sorted_wrt_mono_rel [rotated])
  moreover have "assumeStates k w now 1 (drop 1 (sentStates s)) 0 < length (sentStates s)"
    using assms assumeStates_bound [of 0 1 k w now "drop 1 (sentStates s)"]
    by (cases "sentStates s") (auto simp: sender_inv_def)
  ultimately show ?thesis
    using assms stream_prefix_Subtract
    by (simp add: sender_inv_def calculateTimers_fields comp_def last_map)
qed


section \<open>What a send does\<close>

lemma sendInFragments_spec:
  assumes "sendInFragments k deflate s diff n w = Some (s', err, w')"
  obtains chaff where "sentStates s' = sentStates s" "currentState s' = currentState s"
    "assumedReceiverStateIdx s' = assumedReceiverStateIdx s" "shutdownInProgress s' = shutdownInProgress s"
    "ackNum s' = ackNum s" "haveSendTime s' = haveSendTime s" "nextSendTime s' = nextSendTime s"
    "nextAckTime s' = nextAckTime s" "haveMindelay s' = haveMindelay s"
    "shutdownTries s' = shutdownTries s + (if n = ShutdownNum then 1 else 0)"
    "emitted s' = emitted s @ (if err = None then [mkInstruction s diff n chaff] else [])"
proof -
  obtain chaff w1 where c: "makeChaff k w = (chaff, w1)" by fastforce
  have "sentStates s' = sentStates s \<and> currentState s' = currentState s \<and>
    assumedReceiverStateIdx s' = assumedReceiverStateIdx s \<and> shutdownInProgress s' = shutdownInProgress s \<and>
    ackNum s' = ackNum s \<and> haveSendTime s' = haveSendTime s \<and> nextSendTime s' = nextSendTime s \<and>
    nextAckTime s' = nextAckTime s \<and> haveMindelay s' = haveMindelay s \<and>
    shutdownTries s' = shutdownTries s + (if n = ShutdownNum then 1 else 0) \<and>
    emitted s' = emitted s @ (if err = None then [mkInstruction s diff n chaff] else [])"
    using assms unfolding sendInFragments_def c Let_def
    by (auto split: prod.splits option.splits if_splits)
  then show thesis using that by blast
qed

text \<open>
  What one tick does, seen from the protocol: nothing goes out and the queue is as the timers left
  it; or one instruction goes out, from the assumed state to the current one, under the number of
  the last state (a retransmission), or under a new number that is recorded with the current state.
\<close>

definition tick_quiet :: "sender \<Rightarrow> sender \<Rightarrow> bool" where
  "tick_quiet s1 s' \<longleftrightarrow> entries s' = entries s1 \<and> emitted s' = emitted s1"

definition tick_sent :: "sender \<Rightarrow> sender \<Rightarrow> Instruction \<Rightarrow> bool" where
  "tick_sent s1 s' inst \<longleftrightarrow>
     emitted s' = emitted s1 @ [inst] \<and>
     OldNum inst = fst (entries s1 ! assumedReceiverStateIdx s1) \<and>
     Diff inst = DiffFrom (currentState s1) (snd (entries s1 ! assumedReceiverStateIdx s1)) \<and>
     ThrowawayNum inst = fst (entries s1 ! 0) \<and> AckNum inst = ackNum s1 \<and>
     ProtocolVersion inst = protocolVersion \<and>
     (shutdownInProgress s1 \<longrightarrow> NewNum inst = ShutdownNum) \<and>
     (NewNum inst = fst (last (entries s1)) \<and> entries s' = entries s1 \<and>
        (\<not> shutdownInProgress s1 \<longrightarrow> currentState s1 = snd (last (entries s1)))
      \<or> (\<not> shutdownInProgress s1 \<longrightarrow> NewNum inst = fst (last (entries s1)) + 1) \<and>
        entries s' = addEntry (entries s1) (NewNum inst, currentState s1))"

lemma entries_cong: "sentStates s = sentStates t \<Longrightarrow> entries s = entries t"
  by (simp add: entries_def)

lemma sendEmptyAck_spec:
  assumes "sendEmptyAck k deflate s now w = Some (s', err, w')" "sender_inv s"
    "DiffFrom (currentState s) (stream (sentStates s ! assumedReceiverStateIdx s)) = []"
  shows "currentState s' = currentState s \<and> shutdownInProgress s' = shutdownInProgress s \<and> sender_inv s' \<and>
    ackNum s' = ackNum s \<and> (if err = None then \<exists>inst. tick_sent s s' inst else tick_quiet s s')"
proof -
  define n where "n = (if shutdownInProgress s then ShutdownNum else stateNum (last (sentStates s)) + 1)"
  have ne: "sentStates s \<noteq> []" "assumedReceiverStateIdx s < length (sentStates s)"
    using assms(2) by (auto simp: sender_inv_def)
  obtain s1 w1 where send: "sendInFragments k deflate s [] n w = Some (s1, err, w1)"
    using assms(1) by (auto simp: sendEmptyAck_def n_def [symmetric] Let_def split: option.splits prod.splits)
  obtain chaff where f: "sentStates s1 = sentStates s" "currentState s1 = currentState s"
    "assumedReceiverStateIdx s1 = assumedReceiverStateIdx s" "shutdownInProgress s1 = shutdownInProgress s"
    "ackNum s1 = ackNum s"
    "emitted s1 = emitted s @ (if err = None then [mkInstruction s [] n chaff] else [])"
    using sendInFragments_spec [OF send] by metis
  have inv: "sender_inv s1" using assms(2) f by (simp add: sender_inv_def)
  show ?thesis
  proof (cases err)
    case None
    let ?s2 = "addSentState s1 now n (currentState s1)"
    have s': "s' = ?s2\<lparr>nextAckTime := now + ackInterval, haveSendTime := False\<rparr>"
      using assms(1) send None by (simp add: sendEmptyAck_def n_def [symmetric] Let_def)
    have "sender_inv s'" using sender_inv_addSentState [OF inv, of now n] by (simp add: s' sender_inv_def)
    moreover have "tick_sent s s' (mkInstruction s [] n chaff)"
      using ne assms(3) f None
      by (simp add: tick_sent_def s' entries_addSentState entries_cong [of s1 s] mkInstruction_def
          nth_entries last_entries n_def)
    ultimately show ?thesis using f None by (auto simp: s')
  next
    case (Some e)
    then have s': "s' = s1\<lparr>nextAckTime := now + sendInterval k w1\<rparr>"
      using assms(1) send by (auto simp: sendEmptyAck_def n_def [symmetric] Let_def)
    then show ?thesis using f inv Some by (simp add: tick_quiet_def entries_def sender_inv_def)
  qed
qed


lemma entries_bump:
  assumes "sentStates s \<noteq> []"
  shows "entries (s\<lparr>sentStates := butlast (sentStates s) @ [(last (sentStates s))\<lparr>sentAt := now\<rparr>]\<rparr>) = entries s"
proof -
  have "entries s = map (\<lambda>st. (stateNum st, stream st)) (butlast (sentStates s) @ [last (sentStates s)])"
    using assms by (simp add: entries_def)
  then show ?thesis by (simp add: entries_def)
qed

lemma sendToReceiver_spec:
  assumes "sendToReceiver k deflate s now diff w = Some (s', err, w')" "sender_inv s"
    "diff = DiffFrom (currentState s) (stream (sentStates s ! assumedReceiverStateIdx s))"
  shows "currentState s' = currentState s \<and> shutdownInProgress s' = shutdownInProgress s \<and> sender_inv s' \<and>
    ackNum s' = ackNum s \<and> (if err = None then \<exists>inst. tick_sent s s' inst else tick_quiet s s')"
proof -
  define bk where "bk = last (sentStates s)"
  define n where "n = (if shutdownInProgress s then ShutdownNum
    else if Equal (currentState s) (stream bk) then stateNum bk else stateNum bk + 1)"
  define t where "t = (if n = stateNum bk
    then s\<lparr>sentStates := butlast (sentStates s) @ [bk\<lparr>sentAt := now\<rparr>]\<rparr> else s)"
  have ne: "sentStates s \<noteq> []" "assumedReceiverStateIdx s < length (sentStates s)"
    using assms(2) by (auto simp: sender_inv_def)
  have tE: "entries t = entries s" using entries_bump [OF ne(1)] by (simp add: t_def bk_def)
  have tf: "currentState t = currentState s" "assumedReceiverStateIdx t = assumedReceiverStateIdx s"
    "shutdownInProgress t = shutdownInProgress s" "ackNum t = ackNum s" "emitted t = emitted s"
    by (simp_all add: t_def)
  have tinv: "sender_inv t" using assms(2) tE tf by (simp add: sender_inv_entries)
  have tne: "sentStates t \<noteq> []" "assumedReceiverStateIdx t < length (sentStates t)"
    using tinv by (auto simp: sender_inv_def)
  obtain s1 w1 where send: "sendInFragments k deflate t diff n w = Some (s1, err, w1)"
    using assms(1)
    by (auto simp: sendToReceiver_def bk_def [symmetric] n_def [symmetric] t_def [symmetric] Let_def
        split: option.splits prod.splits)
  obtain chaff where f: "sentStates s1 = sentStates t" "currentState s1 = currentState t"
    "assumedReceiverStateIdx s1 = assumedReceiverStateIdx t" "shutdownInProgress s1 = shutdownInProgress t"
    "ackNum s1 = ackNum t"
    "emitted s1 = emitted t @ (if err = None then [mkInstruction t diff n chaff] else [])"
    using sendInFragments_spec [OF send] by metis
  have inv: "sender_inv s1" using tinv f by (simp add: sender_inv_def)
  have E: "entries s1 = entries s" using entries_cong [OF f(1)] tE by simp
  have inst: "OldNum (mkInstruction t diff n chaff) = fst (entries s ! assumedReceiverStateIdx s)"
    "ThrowawayNum (mkInstruction t diff n chaff) = fst (entries s ! 0)"
    "diff = DiffFrom (currentState s) (snd (entries s ! assumedReceiverStateIdx s))"
    using nth_entries [OF tne(2)] nth_entries [of 0 t] tne tE tf assms(3) nth_entries [OF ne(2)]
    by (simp_all add: mkInstruction_def)
  have bk: "last (entries s) = (stateNum bk, stream bk)" using last_entries [OF ne(1)] by (simp add: bk_def)
  show ?thesis
  proof (cases err)
    case None
    define s2 where "s2 = (if n \<noteq> stateNum bk then addSentState s1 now n (currentState s1) else s1)"
    have s': "s' = s2\<lparr>assumedReceiverStateIdx := length (sentStates s2) - 1,
        nextAckTime := now + ackInterval, haveSendTime := False\<rparr>"
      using assms(1) send None
      by (simp add: sendToReceiver_def bk_def [symmetric] n_def [symmetric] t_def [symmetric] s2_def Let_def
          split: if_splits)
    have s2: "currentState s2 = currentState s" "shutdownInProgress s2 = shutdownInProgress s"
      "ackNum s2 = ackNum s" "emitted s2 = emitted s @ [mkInstruction t diff n chaff]"
      "entries s2 = (if n \<noteq> stateNum bk then addEntry (entries s) (n, currentState s) else entries s)"
      using f tf None E by (simp_all add: s2_def entries_addSentState)
    have "sender_inv s2" using inv sender_inv_addSentState [OF inv] by (simp add: s2_def)
    then have "sender_inv s'" by (simp add: s' sender_inv_def)
    moreover have "tick_sent s s' (mkInstruction t diff n chaff)"
      using s2 inst bk tf
      by (simp add: tick_sent_def s') (auto simp: mkInstruction_def n_def Equal_eq)
    ultimately show ?thesis using s2 None by (auto simp: s')
  next
    case (Some e)
    then have s': "s' = s1"
      using assms(1) send
      by (simp add: sendToReceiver_def bk_def [symmetric] n_def [symmetric] t_def [symmetric] Let_def)
    then show ?thesis using f tf inv Some E by (simp add: tick_quiet_def)
  qed
qed

lemma frame_update [simp]:
  "sender_inv (s\<lparr>haveMindelay := b\<rparr>) = sender_inv s" "sender_inv (s\<lparr>haveSendTime := b\<rparr>) = sender_inv s"
  "tick_quiet r (s\<lparr>haveMindelay := b\<rparr>) = tick_quiet r s" "tick_quiet r (s\<lparr>haveSendTime := b\<rparr>) = tick_quiet r s"
  "tick_sent r (s\<lparr>haveMindelay := b\<rparr>) i = tick_sent r s i" "tick_sent r (s\<lparr>haveSendTime := b\<rparr>) i = tick_sent r s i"
  by (simp_all add: sender_inv_def tick_quiet_def tick_sent_def)

text \<open>The two ways the tick goes on after a send.\<close>

lemma then_mindelay:
  assumes "(case r of Some (s, None, w) \<Rightarrow> Some (s\<lparr>haveMindelay := False\<rparr>, None, w) | r \<Rightarrow> r) = Some (s', err, w')"
  shows "\<exists>s2. r = Some (s2, err, w') \<and> s' = (if err = None then s2\<lparr>haveMindelay := False\<rparr> else s2)"
  using assms by (auto split: option.splits prod.splits)

lemma then_done:
  assumes "(case r of Some (s, None, w) \<Rightarrow> Some (if haveSendTime s \<and> \<not> now < nextSendTime s
      then s\<lparr>haveSendTime := False, haveMindelay := False\<rparr> else s, None, w) | r \<Rightarrow> r) = Some (s', err, w')"
  shows "\<exists>s2. r = Some (s2, err, w') \<and> (s' = s2 \<or> s' = s2\<lparr>haveSendTime := False, haveMindelay := False\<rparr>)"
  using assms by (auto split: option.splits prod.splits if_splits)

definition tick_result :: "sender \<Rightarrow> sender \<Rightarrow> error option \<Rightarrow> bool" where
  "tick_result s1 s' err \<longleftrightarrow>
     currentState s' = currentState s1 \<and> shutdownInProgress s' = shutdownInProgress s1 \<and> sender_inv s' \<and>
     ackNum s' = ackNum s1 \<and> (tick_quiet s1 s' \<or> err = None \<and> (\<exists>inst. tick_sent s1 s' inst))"

lemma tick_result_update [simp]:
  "tick_result r (s\<lparr>haveMindelay := b\<rparr>) e = tick_result r s e"
  "tick_result r (s\<lparr>haveSendTime := b\<rparr>) e = tick_result r s e"
  by (simp_all add: tick_result_def)

lemma tickDue_spec:
  assumes "tickDue k deflate s1 now w1 = Some (s', err, w')" "sender_inv s1"
  shows "tick_result s1 s' err"
proof (cases "DiffFrom (currentState s1) (stream (sentStates s1 ! assumedReceiverStateIdx s1)) = []")
  case False
  then obtain s2 where s2: "sendToReceiver k deflate s1 now
      (DiffFrom (currentState s1) (stream (sentStates s1 ! assumedReceiverStateIdx s1))) w1 = Some (s2, err, w')"
    "s' = (if err = None then s2\<lparr>haveMindelay := False\<rparr> else s2)"
    using then_mindelay [of _ s' err w'] assms(1) unfolding tickDue_def Let_def if_not_P [OF False] by blast
  have "tick_result s1 s2 err"
    using sendToReceiver_spec [OF s2(1) assms(2) refl] by (cases err) (simp_all add: tick_result_def)
  then show ?thesis using s2(2) by (cases err) simp_all
next
  case True
  note T = assms(1) [unfolded tickDue_def Let_def if_P [OF True]]
  show ?thesis
  proof (cases "\<not> now < nextAckTime s1")
    case ack: True
    obtain s3 where s3: "(case sendEmptyAck k deflate s1 now w1 of
        Some (s, None, w) \<Rightarrow> Some (s\<lparr>haveMindelay := False\<rparr>, None, w) | r \<Rightarrow> r) = Some (s3, err, w')"
      "s' = s3 \<or> s' = s3\<lparr>haveSendTime := False, haveMindelay := False\<rparr>"
      using then_done [OF T [unfolded if_P [OF ack]]] by blast
    obtain s2 where s2: "sendEmptyAck k deflate s1 now w1 = Some (s2, err, w')"
      "s3 = (if err = None then s2\<lparr>haveMindelay := False\<rparr> else s2)"
      using then_mindelay [OF s3(1)] by blast
    have "tick_result s1 s2 err"
      using sendEmptyAck_spec [OF s2(1) assms(2) True] by (cases err) (simp_all add: tick_result_def)
    then show ?thesis using s2(2) s3(2) by (cases err) auto
  next
    case False
    then show ?thesis
      using then_done [OF T [unfolded if_not_P [OF False]]] assms(2)
      by (auto simp: tick_result_def tick_quiet_def)
  qed
qed

lemma Tick_spec:
  assumes "Tick k deflate s w = Some (s', err, w')" "sender_inv s"
  obtains now w1 where "connNow k w = (now, w1)" "tick_result (calculateTimers k s now w1) s' err"
proof -
  obtain now w1 where t: "connNow k w = (now, w1)" by fastforce
  have inv: "sender_inv (calculateTimers k s now w1)" using sender_inv_calculateTimers [OF assms(2)] .
  have "tick_result (calculateTimers k s now w1) s' err"
    using assms(1) tickDue_spec [OF _ inv, of k deflate now w1 s' err w'] inv
    by (auto simp: Tick_def t Let_def tick_result_def tick_quiet_def split: if_splits)
  then show thesis using that t by blast
qed


lemma ackedSuffix_suffix: "ackedSuffix n sts = Some kept \<Longrightarrow> suffix kept sts \<and> kept \<noteq> [] \<and> stateNum (hd kept) = n"
  by (induction sts) (auto simp: suffix_Cons split: if_splits)

lemma sender_inv_ack:
  assumes "sender_inv s"
  shows "sender_inv (ProcessAcknowledgmentThrough s n)"
proof (cases "ackedSuffix n (sentStates s)")
  case (Some kept)
  then obtain ds where ds: "sentStates s = ds @ kept" "kept \<noteq> []"
    using ackedSuffix_suffix by (metis suffixE)
  then show ?thesis
    using assms Some by (auto simp: sender_inv_def ProcessAcknowledgmentThrough_def sorted_wrt_append)
qed (use assms in \<open>simp add: ProcessAcknowledgmentThrough_def\<close>)

lemma sender_inv_push:
  assumes "sender_inv s" "stream_prefix (currentState s) u"
  shows "sender_inv (s\<lparr>currentState := u\<rparr>)"
  using assms stream_prefix_trans by (auto simp: sender_inv_def)

lemma sender_inv_misc:
  "sender_inv s \<Longrightarrow> sender_inv (SetAckNum s n)" "sender_inv s \<Longrightarrow> sender_inv (SetDataAck s)"
  "sender_inv s \<Longrightarrow> sender_inv (fst (StartShutdown k s w))" "sender_inv (fst (newSender k w))"
  by (auto simp: sender_inv_def SetAckNum_def SetDataAck_def StartShutdown_def newSender_def Let_def
      split: prod.splits)

section \<open>Sending returns\<close>

context sender_conn
begin

lemma sendInFragments_returns: "\<exists>r. sendInFragments k deflate s diff n w = Some r"
proof -
  obtain chaff w1 where 1: "makeChaff k w = (chaff, w1)" by fastforce
  obtain now w2 where 2: "connNow k w1 = (now, w2)" by fastforce
  let ?s = "if n = ShutdownNum then s\<lparr>shutdownTries := shutdownTries s + 1\<rparr> else s"
  obtain fr fo where f: "makeFragments deflate (fragr ?s) (Marshal (mkInstruction s diff n chaff)) (connMTU k w2) = (fr, fo)"
    by fastforce
  obtain fs where "fo = Some fs" using makeFragments_spec [OF conn_mtu f] by blast
  then show ?thesis
    using f by (auto simp: sendInFragments_def 1 2 Let_def split: prod.splits option.splits)
qed

lemma sendEmptyAck_returns: "\<exists>r. sendEmptyAck k deflate s now w = Some r"
proof -
  obtain t e v where "sendInFragments k deflate s []
      (if shutdownInProgress s then ShutdownNum else stateNum (last (sentStates s)) + 1) w = Some (t, e, v)"
    using sendInFragments_returns by (metis prod_cases3)
  then show ?thesis by (cases e) (simp_all add: sendEmptyAck_def Let_def)
qed

lemma sendToReceiver_returns: "\<exists>r. sendToReceiver k deflate s now diff w = Some r"
proof -
  have all: "\<exists>t e v. sendInFragments k deflate u diff n w = Some (t, e, v)" for u n
    using sendInFragments_returns by (metis prod_cases3)
  let ?bk = "last (sentStates s)"
  let ?n = "if shutdownInProgress s then ShutdownNum
    else if Equal (currentState s) (stream ?bk) then stateNum ?bk else stateNum ?bk + 1"
  let ?u = "if ?n = stateNum ?bk
    then s\<lparr>sentStates := butlast (sentStates s) @ [?bk\<lparr>sentAt := now\<rparr>]\<rparr> else s"
  obtain t e v where "sendInFragments k deflate ?u diff ?n w = Some (t, e, v)" using all by blast
  then show ?thesis unfolding sendToReceiver_def Let_def by (cases e) simp_all
qed

lemma tickDue_returns: "\<exists>r. tickDue k deflate s now w = Some r"
proof (cases "DiffFrom (currentState s) (stream (sentStates s ! assumedReceiverStateIdx s)) = []")
  case True
  obtain t e v where "sendEmptyAck k deflate s now w = Some (t, e, v)"
    using sendEmptyAck_returns by (metis prod_cases3)
  then show ?thesis unfolding tickDue_def Let_def if_P [OF True] by (cases e) simp_all
next
  case False
  obtain t e v where "sendToReceiver k deflate s now
      (DiffFrom (currentState s) (stream (sentStates s ! assumedReceiverStateIdx s))) w = Some (t, e, v)"
    using sendToReceiver_returns by (metis prod_cases3)
  then show ?thesis unfolding tickDue_def Let_def if_not_P [OF False] by (cases e) simp_all
qed

lemma Tick_returns: "\<exists>r. Tick k deflate s w = Some r"
  using tickDue_returns by (auto simp: Tick_def Let_def split: prod.splits)

lemma sendInterval_bounds: "sendIntervalMin \<le> sendInterval k w \<and> sendInterval k w \<le> sendIntervalMax"
  by (auto simp: sendInterval_def Let_def sendIntervalMin_def sendIntervalMax_def go_time)

end

section \<open>Pacing after a failure\<close>

lemma calculateTimers_idem:
  assumes "sender_inv s"
  shows "cutting (calculateTimers k s now w) = emptyStream"
proof -
  have "sentStates s ! 0 \<in> set (sentStates s)" using assms by (simp add: sender_inv_def)
  then show ?thesis
    using assms by (cases "stream (sentStates s ! 0)")
      (auto simp: cutting_def calculateTimers_fields sender_inv_def emptyStream_def Subtract_def)
qed

lemma Subtract_empty [simp]: "Subtract u emptyStream = u"
  by (cases u) (simp add: Subtract_def emptyStream_def)

lemma nextAckTime_calculateTimers:
  "nextAckTime (calculateTimers k s now w) \<le> nextAckTime s \<or> shutdownInProgress s \<or> ackNum s = ShutdownNum"
  by (auto simp: calculateTimers_def updateAssumedReceiverState_def rationalizeStates_def Let_def)

text \<open>A new state is due at the later of two instants that a failed attempt does not move.\<close>

lemma scheduleSend_new:
  assumes "currentState s \<noteq> stream (last (sentStates s))"
  shows "haveSendTime (scheduleSend k s now w) \<and> haveMindelay (scheduleSend k s now w) \<and>
    nextSendTime (scheduleSend k s now w) = max (mindelayClock (scheduleSend k s now w) + sendMindelay)
      (sentAt (last (sentStates s)) + sendInterval k w) \<and>
    mindelayClock (scheduleSend k s now w) = (if haveMindelay s then mindelayClock s else now)"
  using assms by (auto simp: scheduleSend_def Let_def Equal_eq max_def)

lemma calculateTimers_schedule:
  "\<exists>t. sentStates t = sentStates (calculateTimers k s now w) \<and> currentState t = currentState (calculateTimers k s now w) \<and>
    haveMindelay t = haveMindelay s \<and> mindelayClock t = mindelayClock s \<and>
    haveSendTime (calculateTimers k s now w) = haveSendTime (scheduleSend k t now w) \<and>
    haveMindelay (calculateTimers k s now w) = haveMindelay (scheduleSend k t now w) \<and>
    mindelayClock (calculateTimers k s now w) = mindelayClock (scheduleSend k t now w) \<and>
    nextSendTime (calculateTimers k s now w) = nextSendTime (scheduleSend k t now w)"
proof -
  let ?t = "rationalizeStates (updateAssumedReceiverState k s now w)"
  let ?u = "if pendingDataAck ?t \<and> now + ackDelay < nextAckTime ?t then ?t\<lparr>nextAckTime := now + ackDelay\<rparr> else ?t"
  show ?thesis
    by (rule exI [of _ ?u])
      (auto simp: calculateTimers_def Let_def rationalizeStates_def updateAssumedReceiverState_def)
qed

lemma calculateTimers_new:
  assumes "currentState (calculateTimers k s now w) \<noteq> stream (last (sentStates (calculateTimers k s now w)))"
  shows "haveSendTime (calculateTimers k s now w) \<and> haveMindelay (calculateTimers k s now w) \<and>
    nextSendTime (calculateTimers k s now w) = max (mindelayClock (calculateTimers k s now w) + sendMindelay)
      (sentAt (last (sentStates (calculateTimers k s now w))) + sendInterval k w) \<and>
    mindelayClock (calculateTimers k s now w) = (if haveMindelay s then mindelayClock s else now)"
proof -
  obtain t where t: "sentStates t = sentStates (calculateTimers k s now w)"
    "currentState t = currentState (calculateTimers k s now w)"
    "haveMindelay t = haveMindelay s" "mindelayClock t = mindelayClock s"
    "haveSendTime (calculateTimers k s now w) = haveSendTime (scheduleSend k t now w)"
    "haveMindelay (calculateTimers k s now w) = haveMindelay (scheduleSend k t now w)"
    "mindelayClock (calculateTimers k s now w) = mindelayClock (scheduleSend k t now w)"
    "nextSendTime (calculateTimers k s now w) = nextSendTime (scheduleSend k t now w)"
    using calculateTimers_schedule [of k s now w] by blast
  show ?thesis using scheduleSend_new [of t k now w] assms t by simp
qed

text \<open>A failed diff of a new state leaves the queue and every timer as it was.\<close>

lemma sendInFragments_err:
  assumes "sendInFragments k deflate s diff n w = Some (s', Some e, w')" "n \<noteq> ShutdownNum"
  shows "\<exists>fr. s' = s\<lparr>fragr := fr\<rparr>"
  using assms by (auto simp: sendInFragments_def Let_def split: prod.splits option.splits)

lemma sendToReceiver_err:
  assumes "sendToReceiver k deflate s now diff w = Some (s', Some e, w')" "\<not> shutdownInProgress s"
    "currentState s \<noteq> stream (last (sentStates s))" "stateNum (last (sentStates s)) + 1 \<noteq> ShutdownNum"
  shows "\<exists>fr. s' = s\<lparr>fragr := fr\<rparr>"
  using assms sendInFragments_err
  by (fastforce simp: sendToReceiver_def Let_def Equal_eq split: option.splits prod.splits)

lemma diff_new:
  assumes "sender_inv s" "currentState s \<noteq> stream (last (sentStates s))"
  shows "DiffFrom (currentState s) (stream (sentStates s ! assumedReceiverStateIdx s)) \<noteq> []"
proof -
  let ?a = "stream (sentStates s ! assumedReceiverStateIdx s)"
  have ne: "sentStates s \<noteq> []" "assumedReceiverStateIdx s < length (sentStates s)"
    using assms(1) by (auto simp: sender_inv_def)
  have "stream_prefix ?a (last (map stream (sentStates s)))"
    using sorted_prefix_last [of "map stream (sentStates s)" ?a] assms(1) ne by (simp add: sender_inv_def)
  then have "length (events ?a) \<le> length (events (stream (last (sentStates s))))"
    using ne by (auto simp: stream_prefix_def last_map dest: prefix_length_le)
  moreover have "strict_prefix (events (stream (last (sentStates s)))) (events (currentState s))"
    using assms by (cases "currentState s", cases "stream (last (sentStates s))")
      (auto simp: sender_inv_def stream_prefix_def strict_prefix_def)
  then have "length (events (stream (last (sentStates s)))) < length (events (currentState s))"
    by (rule prefix_length_less)
  ultimately show ?thesis by (simp add: DiffFrom_Nil_iff)
qed

lemma failed_tick:
  assumes "Tick k deflate s w = Some (s', Some e, w')" "sender_inv s" "\<not> shutdownInProgress s"
    "connNow k w = (now, w1)" "s1 = calculateTimers k s now w1"
    "currentState s1 \<noteq> stream (last (sentStates s1))" "stateNum (last (sentStates s1)) + 1 \<noteq> ShutdownNum"
  shows "(\<exists>fr. s' = s1\<lparr>fragr := fr\<rparr>) \<and> \<not> (now < nextAckTime s1 \<and> (\<not> haveSendTime s1 \<or> now < nextSendTime s1))"
proof -
  have inv: "sender_inv s1" using sender_inv_calculateTimers [OF assms(2)] by (simp add: assms(5))
  have due: "tickDue k deflate s1 now w1 = Some (s', Some e, w')"
    "\<not> (now < nextAckTime s1 \<and> (\<not> haveSendTime s1 \<or> now < nextSendTime s1))"
    using assms(1) by (auto simp: Tick_def assms(4,5) Let_def split: if_splits)
  then have r: "sendToReceiver k deflate s1 now
      (DiffFrom (currentState s1) (stream (sentStates s1 ! assumedReceiverStateIdx s1))) w1 = Some (s', Some e, w')"
    unfolding tickDue_def Let_def if_not_P [OF diff_new [OF inv assms(6)]]
    by (auto split: option.splits prod.splits)
  have "\<not> shutdownInProgress s1" using assms(3) by (simp add: assms(5) calculateTimers_fields)
  then show ?thesis using sendToReceiver_err [OF r _ assms(6,7)] due(2) by simp
qed

lemma Subtract_inj:
  assumes "stream_prefix c u" "stream_prefix c v"
  shows "Subtract u c = Subtract v c \<longleftrightarrow> u = v"
  using assms
  by (cases u, cases v) (auto simp: stream_prefix_def prefix_def dest: arg_cong [of _ _ events])

lemma calculateTimers_new_iff:
  assumes "sender_inv s"
  shows "currentState (calculateTimers k s now w) = stream (last (sentStates (calculateTimers k s now w)))
    \<longleftrightarrow> currentState s = stream (last (sentStates s))"
proof -
  have ne: "sentStates s \<noteq> []" using assms by (simp add: sender_inv_def)
  then have "(stateNum (last (sentStates s)), stream (last (sentStates s))) \<in> set (entries s)"
    by (metis entries_Nil_iff last_entries last_in_set)
  then have l: "stream_prefix (cutting s) (stream (last (sentStates s)))"
    using first_prefix [OF assms] by (simp add: cutting_def)
  moreover have "stream_prefix (cutting s) (currentState s)"
    using stream_prefix_trans [OF l] assms by (simp add: sender_inv_def)
  ultimately show ?thesis using ne Subtract_inj by (simp add: calculateTimers_fields last_map)
qed

lemma calculateTimers_last:
  "sentStates s \<noteq> [] \<Longrightarrow> sentAt (last (sentStates (calculateTimers k s now w))) = sentAt (last (sentStates s)) \<and>
    stateNum (last (sentStates (calculateTimers k s now w))) = stateNum (last (sentStates s))"
  by (simp add: calculateTimers_fields last_map)

lemma nextAckTime_repeat:
  assumes "sentStates t = sentStates (calculateTimers k s now w)" "nextAckTime t = nextAckTime (calculateTimers k s now w)"
    "ackNum t = ackNum s" "\<not> shutdownInProgress t" "\<not> shutdownInProgress s"
    "sendInterval k w' = sendInterval k w" "sentStates s \<noteq> []"
  shows "nextAckTime (calculateTimers k t now' w') \<le> nextAckTime t"
proof (cases "ackNum s = ShutdownNum")
  case True
  then have "nextAckTime t = sentAt (last (sentStates s)) + sendInterval k w"
    using assms calculateTimers_last [of s k now w]
    by (simp add: calculateTimers_def [of k s] Let_def rationalizeStates_def updateAssumedReceiverState_def last_map)
  moreover have "nextAckTime (calculateTimers k t now' w') = sentAt (last (sentStates t)) + sendInterval k w'"
    using True assms(3) assms(1,7)
    by (simp add: calculateTimers_def [of k t] Let_def rationalizeStates_def updateAssumedReceiverState_def last_map calculateTimers_fields)
  ultimately show ?thesis using assms calculateTimers_last [of s k now w] by simp
qed (use nextAckTime_calculateTimers [of k t now' w'] assms in auto)

section \<open>Progress\<close>

text \<open>A link on which no write fails.\<close>

definition link_up :: "'c senderConn \<Rightarrow> bool" where
  "link_up k \<longleftrightarrow> (\<forall>p w. fst (connSend k p w) = None)"

lemma sendFragments_up: "link_up k \<Longrightarrow> fst (sendFragments k dl fs w) = None"
proof (induction fs arbitrary: w)
  case (Cons f fs)
  then show ?case
    by (auto simp: link_up_def Let_def split: prod.splits option.splits) (metis fst_conv option.distinct(1))
qed simp

lemma sendInFragments_up:
  assumes "link_up k" "sendInFragments k deflate s diff n w = Some (s', err, w')"
  shows "err = None"
proof -
  have "err = fst (sendFragments k dl fs v)" if "sendFragments k dl fs v = (e, v')" "err = e" for dl fs v e v'
    using that by simp
  then show ?thesis
    using assms(2) sendFragments_up [OF assms(1)]
    by (auto simp: sendInFragments_def Let_def split: prod.splits option.splits)
      (metis fst_conv option.distinct(1))
qed

lemma sendToReceiver_up:
  assumes "link_up k" "sendToReceiver k deflate s now diff w = Some (s', err, w')"
  shows "err = None"
  using assms(2) sendInFragments_up [OF assms(1)]
  by (fastforce simp: sendToReceiver_def Let_def split: option.splits prod.splits)

lemma tick_due_sends:
  assumes "Tick k deflate s w = Some (s', err, w')" "sender_inv s" "connNow k w = (now, w1)"
    "s1 = calculateTimers k s now w1" "\<not> (now < nextAckTime s1 \<and> (\<not> haveSendTime s1 \<or> now < nextSendTime s1))"
    "DiffFrom (currentState s1) (stream (sentStates s1 ! assumedReceiverStateIdx s1)) \<noteq> []"
  shows "(link_up k \<longrightarrow> err = None) \<and> (err = None \<longrightarrow> (\<exists>inst. tick_sent s1 s' inst))"
proof -
  have inv: "sender_inv s1" using sender_inv_calculateTimers [OF assms(2)] by (simp add: assms(4))
  have due: "tickDue k deflate s1 now w1 = Some (s', err, w')"
    using assms(1,5) by (auto simp: Tick_def assms(3,4) Let_def split: if_splits)
  obtain s2 where s2: "sendToReceiver k deflate s1 now
      (DiffFrom (currentState s1) (stream (sentStates s1 ! assumedReceiverStateIdx s1))) w1 = Some (s2, err, w')"
    "s' = (if err = None then s2\<lparr>haveMindelay := False\<rparr> else s2)"
    using then_mindelay [of _ s' err w'] due unfolding tickDue_def Let_def if_not_P [OF assms(6)] by blast
  have "\<exists>inst. tick_sent s1 s' inst" if "err = None"
    using sendToReceiver_spec [OF s2(1) inv refl] s2(2) that by (auto simp: tick_sent_def)
  then show ?thesis using sendToReceiver_up [OF _ s2(1)] by blast
qed

text \<open>When no state was sent recently, the diff is based on the one state known to be received.\<close>

lemma assumeStates_stale:
  "sts = [] \<or> \<not> timeSub now (sentAt (hd sts)) < connTimeout k w + ackDelay \<Longrightarrow> assumeStates k w now i sts idx = idx"
  by (cases sts) auto

lemma assumed_stale:
  assumes "sorted (map sentAt (sentStates s))" "sentStates s \<noteq> []"
    "sentAt (last (sentStates s)) + (connTimeout k w + ackDelay) \<le> now" "connTimeout k w \<le> second"
  shows "assumedReceiverStateIdx (calculateTimers k s now w) = 0"
proof -
  have "drop 1 (sentStates s) = [] \<or> sentAt (hd (drop 1 (sentStates s))) \<le> sentAt (last (sentStates s))"
  proof (cases "drop 1 (sentStates s)")
    case (Cons st sts)
    then have "sentStates s = hd (sentStates s) # st # sts" by (cases "sentStates s") auto
    then have "sorted (map sentAt (st # sts))" "last (sentStates s) = last (st # sts)"
      using assms(1) by (metis list.simps(9) sorted_simps(2), metis last_ConsR list.distinct(1))
    then show ?thesis using Cons last_in_set [of "st # sts"] by (auto split: if_splits)
  qed simp
  then have "assumeStates k w now 1 (drop 1 (sentStates s)) 0 = 0"
    using assms(3,4) by (intro assumeStates_stale) (auto simp: go_time ackDelay_def)
  then show ?thesis by (simp add: calculateTimers_fields)
qed

text \<open>A state that is not known to be received is scheduled.\<close>

lemma scheduleSend_unacked:
  assumes "currentState s \<noteq> stream (sentStates s ! 0)" "connTimeout k w \<le> second"
    "sentAt (last (sentStates s)) + (second + ackDelay) \<le> now"
    "currentState s \<noteq> stream (last (sentStates s)) \<longrightarrow> haveMindelay s \<and> mindelayClock s + sendMindelay \<le> now"
  shows "haveSendTime (scheduleSend k s now w) \<and> nextSendTime (scheduleSend k s now w) \<le> now"
proof -
  have "sendInterval k w \<le> second" by (auto simp: sendInterval_def Let_def sendIntervalMin_def sendIntervalMax_def go_time)
  then show ?thesis
    using assms by (auto simp: scheduleSend_def Let_def Equal_eq ackDelay_def go_time)
qed

lemma unacked_due:
  assumes "sender_inv s" "currentState s \<noteq> stream (sentStates s ! 0)" "connTimeout k w \<le> second"
    "sentAt (last (sentStates s)) + (second + ackDelay) \<le> now"
    "currentState s \<noteq> stream (last (sentStates s)) \<longrightarrow> haveMindelay s \<and> mindelayClock s + sendMindelay \<le> now"
    "s1 = calculateTimers k s now w"
  shows "haveSendTime s1 \<and> nextSendTime s1 \<le> now \<and> currentState s1 \<noteq> stream (sentStates s1 ! 0)"
proof -
  have ne: "sentStates s \<noteq> []" using assms(1) by (simp add: sender_inv_def)
  obtain t where t: "sentStates t = sentStates s1" "currentState t = currentState s1"
    "haveMindelay t = haveMindelay s" "mindelayClock t = mindelayClock s"
    "haveSendTime s1 = haveSendTime (scheduleSend k t now w)"
    "nextSendTime s1 = nextSendTime (scheduleSend k t now w)"
    using calculateTimers_schedule [of k s now w] assms(6) by blast
  have "(stateNum (sentStates s ! 0), cutting s) \<in> set (entries s)"
    using nth_entries [of 0 s] ne nth_mem [of 0 "entries s"] by (simp add: cutting_def)
  then have "Subtract (currentState s) (cutting s) \<noteq> Subtract (cutting s) (cutting s)"
    using Subtract_inj [of "cutting s" "currentState s" "cutting s"] entries_prefix_current [OF assms(1)] assms(2)
    by (simp add: cutting_def)
  then have front: "currentState s1 \<noteq> stream (sentStates s1 ! 0)"
    using ne by (simp add: assms(6) calculateTimers_fields cutting_def)
  then show ?thesis
    using scheduleSend_unacked [of t k w now] t assms(3,4,5) calculateTimers_last [OF ne, of k now w]
      calculateTimers_new_iff [OF assms(1), of k now w] by (simp add: assms(6))
qed

lemma diff_from_front:
  assumes "sender_inv s" "currentState s \<noteq> stream (sentStates s ! 0)"
  shows "DiffFrom (currentState s) (stream (sentStates s ! 0)) \<noteq> []"
proof -
  have "sentStates s \<noteq> []" using assms(1) by (simp add: sender_inv_def)
  then have "(stateNum (sentStates s ! 0), stream (sentStates s ! 0)) \<in> set (entries s)"
    using nth_entries [of 0 s] nth_mem [of 0 "entries s"] by simp
  then have "stream_prefix (stream (sentStates s ! 0)) (currentState s)"
    using entries_prefix_current [OF assms(1)] by blast
  then show ?thesis using assms(2) stream_prefix_eq by (metis DiffFrom_Nil_iff)
qed

lemma unacked_sent:
  assumes "Tick k deflate s w = Some (s', err, w')" "sender_inv s" "connNow k w = (now, w1)"
    "currentState s \<noteq> stream (sentStates s ! 0)" "connTimeout k w1 \<le> second"
    "sorted (map sentAt (sentStates s))" "sentAt (last (sentStates s)) + (second + ackDelay) \<le> now"
    "currentState s \<noteq> stream (last (sentStates s)) \<longrightarrow> haveMindelay s \<and> mindelayClock s + sendMindelay \<le> now"
  shows "(link_up k \<longrightarrow> err = None) \<and> (err = None \<longrightarrow> (\<exists>inst. emitted s' = emitted s @ [inst] \<and>
    OldNum inst = stateNum (sentStates s ! 0) \<and> Diff inst = DiffFrom (currentState s) (stream (sentStates s ! 0)) \<and>
    (\<not> shutdownInProgress s \<longrightarrow> currentState s \<noteq> stream (last (sentStates s)) \<longrightarrow>
       NewNum inst = stateNum (last (sentStates s)) + 1)))"
proof -
  define s1 where "s1 = calculateTimers k s now w1"
  have ne: "sentStates s \<noteq> []" using assms(2) by (simp add: sender_inv_def)
  have due: "haveSendTime s1 \<and> nextSendTime s1 \<le> now \<and> currentState s1 \<noteq> stream (sentStates s1 ! 0)"
    using unacked_due [OF assms(2,4,5,7,8) s1_def] .
  have idx: "assumedReceiverStateIdx s1 = 0"
    unfolding s1_def using assms(5,6,7) ne by (intro assumed_stale) simp_all
  have inv: "sender_inv s1" using sender_inv_calculateTimers [OF assms(2)] by (simp add: s1_def)
  have "DiffFrom (currentState s1) (stream (sentStates s1 ! assumedReceiverStateIdx s1)) \<noteq> []"
    using diff_from_front [OF inv] due idx by simp
  then have r: "(link_up k \<longrightarrow> err = None) \<and> (err = None \<longrightarrow> (\<exists>inst. tick_sent s1 s' inst))"
    using tick_due_sends [OF assms(1,2,3) s1_def] due by auto
  have e0: "entries s1 ! 0 = (stateNum (sentStates s ! 0), Subtract (stream (sentStates s ! 0)) (cutting s))"
    using ne by (simp add: s1_def nth_entries calculateTimers_fields)
  have "DiffFrom (currentState s1) (snd (entries s1 ! 0)) = DiffFrom (currentState s) (stream (sentStates s ! 0))"
    using e0 by (simp add: s1_def calculateTimers_fields cutting_def DiffFrom_def)
  moreover have "sentStates s1 \<noteq> []" using inv by (simp add: sender_inv_def)
  then have l: "last (entries s1) = (stateNum (last (sentStates s)), stream (last (sentStates s1)))"
    using last_entries [of s1] calculateTimers_last [OF ne, of k now w1] by (simp add: s1_def)
  have "NewNum inst = stateNum (last (sentStates s)) + 1"
    if "tick_sent s1 s' inst" "\<not> shutdownInProgress s" "currentState s \<noteq> stream (last (sentStates s))" for inst
    using that calculateTimers_new_iff [OF assms(2), of k now w1] l
    unfolding tick_sent_def s1_def [symmetric] by (auto simp: s1_def calculateTimers_fields(6))
  ultimately show ?thesis using r e0 idx by (auto simp: tick_sent_def s1_def calculateTimers_fields)
qed

text \<open>The times of the queue are sorted when the clock does not run backwards.\<close>

definition times_ok :: "sender \<Rightarrow> time \<Rightarrow> bool" where
  "times_ok s now \<longleftrightarrow> sorted (map sentAt (sentStates s)) \<and> (\<forall>st\<in>set (sentStates s). sentAt st \<le> now)"

lemma times_ok_cong: "sentStates s = sentStates t \<Longrightarrow> times_ok s now = times_ok t now"
  by (simp add: times_ok_def)

lemma times_ok_later: "times_ok s t \<Longrightarrow> t \<le> now \<Longrightarrow> times_ok s now"
  by (auto simp: times_ok_def)

lemma sorted_skip:
  assumes "sorted ys" shows "sorted (take i ys @ drop (i + 1) ys)"
proof -
  have "sorted (take i ys @ drop i ys)" using assms by simp
  moreover have "set (drop (i + 1) ys) \<subseteq> set (drop i ys)" by (rule set_drop_subset_set_drop) simp
  ultimately show ?thesis using assms by (auto simp: sorted_append sorted_wrt_drop simp del: append_take_drop_id)
qed

lemma times_addSentState:
  assumes "times_ok s now" shows "times_ok (addSentState s now n u) now"
proof -
  let ?ys = "map sentAt (sentStates s)"
  have le: "\<forall>y\<in>set ?ys. y \<le> now" "sorted ?ys" using assms by (auto simp: times_ok_def)
  have "sorted ((take i ?ys @ drop (i + 1) ?ys) @ [now])" for i
    unfolding sorted_append [of _ "[now]"]
    using sorted_skip [OF le(2), of i] le(1) by (auto dest!: in_set_takeD in_set_dropD)
  then show ?thesis
    using assms by (auto simp: times_ok_def addSentState_def Let_def take_map drop_map sorted_append
        dest: in_set_takeD in_set_dropD)
qed

lemma times_bump:
  assumes "times_ok s now"
  shows "times_ok (s\<lparr>sentStates := butlast (sentStates s) @ [st\<lparr>sentAt := now\<rparr>]\<rparr>) now"
  using assms by (cases "sentStates s" rule: rev_cases) (auto simp: times_ok_def sorted_append)

lemma times_calculateTimers: "times_ok (calculateTimers k s now w) t = times_ok s t"
  by (simp add: times_ok_def calculateTimers_fields comp_def)

lemma times_sendEmptyAck:
  assumes "sendEmptyAck k deflate s now w = Some (s', err, w')" "times_ok s now"
  shows "times_ok s' now"
proof -
  define n where "n = (if shutdownInProgress s then ShutdownNum else stateNum (last (sentStates s)) + 1)"
  obtain s1 w1 where send: "sendInFragments k deflate s [] n w = Some (s1, err, w1)"
    using assms(1) by (auto simp: sendEmptyAck_def n_def [symmetric] Let_def split: option.splits prod.splits)
  then have "times_ok s1 now" using assms(2) sendInFragments_spec [OF send] times_ok_cong by metis
  then show ?thesis
    using assms(1) send times_addSentState
    by (cases err) (auto simp: sendEmptyAck_def n_def [symmetric] Let_def times_ok_def)
qed

lemma times_sendToReceiver:
  assumes "sendToReceiver k deflate s now diff w = Some (s', err, w')" "times_ok s now"
  shows "times_ok s' now"
proof -
  define bk where "bk = last (sentStates s)"
  define n where "n = (if shutdownInProgress s then ShutdownNum
    else if Equal (currentState s) (stream bk) then stateNum bk else stateNum bk + 1)"
  define t where "t = (if n = stateNum bk
    then s\<lparr>sentStates := butlast (sentStates s) @ [bk\<lparr>sentAt := now\<rparr>]\<rparr> else s)"
  obtain s1 w1 where send: "sendInFragments k deflate t diff n w = Some (s1, err, w1)"
    using assms(1)
    by (auto simp: sendToReceiver_def bk_def [symmetric] n_def [symmetric] t_def [symmetric] Let_def
        split: option.splits prod.splits)
  have "times_ok t now" using assms(2) times_bump by (simp add: t_def)
  then have s1: "times_ok s1 now" using sendInFragments_spec [OF send] times_ok_cong by metis
  show ?thesis
    using assms(1) send s1 times_addSentState [OF s1]
    by (cases err) (auto simp: sendToReceiver_def bk_def [symmetric] n_def [symmetric] t_def [symmetric] Let_def
        times_ok_def split: if_splits)
qed

lemma times_Tick:
  assumes "Tick k deflate s w = Some (s', err, w')" "connNow k w = (now, w1)" "times_ok s now"
  shows "times_ok s' now"
proof -
  define s1 where "s1 = calculateTimers k s now w1"
  have s1: "times_ok s1 now" using assms(3) by (simp add: s1_def times_calculateTimers)
  consider "s' = s1" | "tickDue k deflate s1 now w1 = Some (s', err, w')"
    using assms(1) by (auto simp: Tick_def assms(2) Let_def s1_def split: if_splits)
  then show ?thesis
  proof cases
    case 2
    show ?thesis
    proof (cases "DiffFrom (currentState s1) (stream (sentStates s1 ! assumedReceiverStateIdx s1)) = []")
      case False
      then obtain s2 where "sendToReceiver k deflate s1 now
          (DiffFrom (currentState s1) (stream (sentStates s1 ! assumedReceiverStateIdx s1))) w1 = Some (s2, err, w')"
        "s' = (if err = None then s2\<lparr>haveMindelay := False\<rparr> else s2)"
        using then_mindelay [of _ s' err w'] 2 unfolding tickDue_def Let_def if_not_P [OF False] by blast
      then show ?thesis using times_sendToReceiver [OF _ s1] times_ok_cong [of s' s2] by auto
    next
      case True
      then obtain s3 where s3: "(if \<not> now < nextAckTime s1 then
          (case sendEmptyAck k deflate s1 now w1 of Some (s, None, w) \<Rightarrow> Some (s\<lparr>haveMindelay := False\<rparr>, None, w) | r \<Rightarrow> r)
          else Some (s1, None, w1)) = Some (s3, err, w')" "sentStates s' = sentStates s3"
        using then_done [OF 2 [unfolded tickDue_def Let_def if_P [OF True]]] by auto
      show ?thesis
      proof (cases "\<not> now < nextAckTime s1")
        case T: True
        obtain s2 where "sendEmptyAck k deflate s1 now w1 = Some (s2, err, w')" "sentStates s3 = sentStates s2"
          using then_mindelay [OF s3(1) [unfolded if_P [OF T]]] by auto
        then show ?thesis using times_sendEmptyAck [OF _ s1] times_ok_cong s3(2) by metis
      next
        case False
        then have "s3 = s1" using s3(1) by simp
        then show ?thesis using s1 s3(2) times_ok_cong by metis
      qed
    qed
  qed (use s1 in simp)
qed

end
