(* ===== verification/Net_Conn.thy ===== *)
theory Net_Conn
  imports Connection Sender
begin

unbundle bit_operations_syntax

text \<open>
  The connection as the sender's \<^verbatim>\<open>senderConn\<close>: the operations of \<^verbatim>\<open>network.Connection\<close>, the clock and
  the random source over a connection and its world. The interpretation discharges the contract
  of the sender for it, so that what the sender promises under the contract holds of the program.
\<close>

definition netConn :: "(Connection \<times> world) senderConn" where
  "netConn =
     \<lparr>connSend = (\<lambda>p (c, w). let (c, err, w) = Send c p w in (err, (c, w))),
      connSRTT = (\<lambda>(c, w). SRTT c),
      connTimeout = (\<lambda>(c, w). Timeout c),
      connMTU = (\<lambda>(c, w). MTU c),
      connSetLastRoundtripSuccess = (\<lambda>t (c, w). (SetLastRoundtripSuccess c t, w)),
      connNow = (\<lambda>(c, w). let (t, w) = timeNow w in (t, (c, w))),
      connRand = (\<lambda>n (c, w). let (b, w) = randRead n w in (b, (c, w)))\<rparr>"

interpretation net: sender_conn netConn
proof
  show "10 < connMTU netConn w" for w
    by (cases w) (simp add: netConn_def MTU_def DefaultSendMTU_def network_AddedBytes_def crypto_AddedBytes_def)
  show "length (fst (connRand netConn n w)) = n" for n w
    by (cases w) (simp add: netConn_def randRead_def Let_def split: prod.splits)
  show "0 < connTimeout netConn w \<and> connTimeout netConn w \<le> second" for w
    by (cases w) (simp add: netConn_def Timeout_def minRTO_def maxRTO_def go_time Let_def)
qed

section \<open>What a tick keeps of the connection\<close>

text \<open>A property of the connection that its operations keep is kept by every operation that sends.\<close>

locale conn_invariant =
  fixes k :: "'c senderConn" and I :: "'c \<Rightarrow> bool"
  assumes send_keeps: "I w \<Longrightarrow> I (snd (connSend k p w))"
    and now_keeps: "I w \<Longrightarrow> I (snd (connNow k w))"
    and rand_keeps: "I w \<Longrightarrow> I (snd (connRand k n w))"
begin

lemma makeChaff_keeps: "I w \<Longrightarrow> makeChaff k w = (b, w') \<Longrightarrow> I w'"
  using rand_keeps by (auto simp: makeChaff_def Let_def split: prod.splits) (metis snd_conv)

lemma now_keepsE: "I w \<Longrightarrow> connNow k w = (t, w') \<Longrightarrow> I w'"
  using now_keeps [of w] by simp

lemma sendFragments_keeps: "I w \<Longrightarrow> sendFragments k dl fs w = (e, w') \<Longrightarrow> I w'"
proof (induction fs arbitrary: w)
  case (Cons f fs)
  obtain t w1 where t: "connNow k w = (t, w1)" by fastforce
  obtain e1 w2 where s: "connSend k (marshal f) w1 = (e1, w2)" by fastforce
  have "I w1" by (rule now_keepsE [OF Cons.prems(1) t])
  moreover from this have "I w2" using send_keeps [of w1 "marshal f"] s by simp
  ultimately show ?case
    using Cons.prems(2) Cons.IH [of w2] by (cases e1) (auto simp: t s split: if_splits)
qed simp

lemma sendInFragments_keeps:
  assumes "I w" "sendInFragments k deflate s diff n w = Some (s', e, w')"
  shows "I w'"
proof -
  obtain chaff w1 where c: "makeChaff k w = (chaff, w1)" by fastforce
  obtain t w2 where t: "connNow k w1 = (t, w2)" by fastforce
  have "I w2" using makeChaff_keeps [OF assms(1) c] now_keepsE t by blast
  then show ?thesis
    using assms(2) sendFragments_keeps
    by (auto simp: sendInFragments_def c t Let_def split: prod.splits option.splits)
qed

lemma sendEmptyAck_keeps:
  "I w \<Longrightarrow> sendEmptyAck k deflate s now w = Some (s', e, w') \<Longrightarrow> I w'"
  using sendInFragments_keeps by (auto simp: sendEmptyAck_def Let_def split: option.splits prod.splits)

lemma sendToReceiver_keeps:
  "I w \<Longrightarrow> sendToReceiver k deflate s now diff w = Some (s', e, w') \<Longrightarrow> I w'"
  using sendInFragments_keeps
  by (fastforce simp: sendToReceiver_def Let_def split: option.splits prod.splits)

lemma tickDue_keeps:
  assumes "I w" "tickDue k deflate s now w = Some (s', e, w')"
  shows "I w'"
proof (cases "DiffFrom (currentState s) (stream (sentStates s ! assumedReceiverStateIdx s)) = []")
  case False
  obtain s2 where "sendToReceiver k deflate s now
      (DiffFrom (currentState s) (stream (sentStates s ! assumedReceiverStateIdx s))) w = Some (s2, e, w')"
    using then_mindelay [of _ s' e w'] assms(2) unfolding tickDue_def Let_def if_not_P [OF False] by blast
  then show ?thesis using sendToReceiver_keeps assms(1) by blast
next
  case True
  note T = then_done [OF assms(2) [unfolded tickDue_def Let_def if_P [OF True]]]
  show ?thesis
  proof (cases "now < nextAckTime s")
    case True
    then show ?thesis using T assms(1) by auto
  next
    case False
    then show ?thesis using T then_mindelay sendEmptyAck_keeps [OF assms(1)] by fastforce
  qed
qed

lemma Tick_keeps:
  assumes "I w" "Tick k deflate s w = Some (s', e, w')"
  shows "I w'"
proof -
  obtain t w1 where t: "connNow k w = (t, w1)" by fastforce
  then have "I w1" using now_keepsE assms(1) by blast
  then show ?thesis using assms(2) tickDue_keeps by (auto simp: Tick_def t Let_def split: if_splits)
qed

end

lemma Send_script:
  assumes "Send c p w = (c', e, w')"
  shows "script w' = script w"
proof -
  obtain now w1 where 1: "timeNow w = (now, w1)" by fastforce
  obtain c2 h w2 where 2: "maybeHopPort c now w1 = (c2, h, w2)" by (metis prod_cases3)
  obtain c3 q where 3: "sendHeader c2 now p = (c3, q)" by fastforce
  have "script w1 = script w" "script w2 = script w1"
    using timeNow_extends [OF 1] maybeHopPort_extends [OF 2] by (auto simp: extends_def)
  moreover have "script w' = script w2"
    using assms transmit_extends
    by (fastforce simp: Send_def 1 2 3 Let_def extends_def split: sum.splits)
  ultimately show ?thesis by simp
qed

text \<open>The script of the world never changes.\<close>

interpretation net_script: conn_invariant netConn "\<lambda>(c, w). script w = f" for f
proof
  fix w :: "Connection \<times> world" and p n
  assume I: "case w of (c, w) \<Rightarrow> script w = f"
  obtain c v where w: "w = (c, v)" by fastforce
  obtain c' e v' where s: "Send c p v = (c', e, v')" by (metis prod_cases3)
  show "case snd (connSend netConn p w) of (c, w) \<Rightarrow> script w = f"
    using I Send_script [OF s] by (simp add: netConn_def w s)
  show "case snd (connNow netConn w) of (c, w) \<Rightarrow> script w = f"
    using I by (simp add: netConn_def w timeNow_def call_def)
  show "case snd (connRand netConn n w) of (c, w) \<Rightarrow> script w = f"
    using I by (simp add: netConn_def w randRead_def call_def)
qed

section \<open>Claims\<close>

text \<open>A tick returns. Whatever the network, the clock and the random source answer, on the
  program's connection every tick of the sender comes back, with an error or without: the
  fragmenter, whose loop on the rest of the payload is the one loop that could spin, is always
  given a positive fragment size.\<close>

theorem tick_returns: "\<exists>s' err w'. Tick netConn deflate s w = Some (s', err, w')"
  using net.Tick_returns [of deflate s w] by (metis prod_cases3)

text \<open>Nothing typed is forgotten. When the current state is not known to be received, 1.1 s
  after the last transmission (and 8 ms after a new event was noticed) a tick on the program's
  connection either fails to send and says so, or sends the whole difference to the one state
  the server is known to hold, under its number.\<close>

theorem unacked_retransmitted:
  assumes "Tick netConn deflate s w = Some (s', err, w')" "sender_inv s" "connNow netConn w = (now, w1)"
    and "times_ok s now" "currentState s \<noteq> stream (sentStates s ! 0)"
    and "sentAt (last (sentStates s)) + (second + ackDelay) \<le> now"
    and "currentState s \<noteq> stream (last (sentStates s)) \<longrightarrow> haveMindelay s \<and> mindelayClock s + sendMindelay \<le> now"
  shows "err \<noteq> None \<or> (\<exists>inst. emitted s' = emitted s @ [inst] \<and> Diff inst \<noteq> [] \<and>
      OldNum inst = stateNum (sentStates s ! 0) \<and>
      Diff inst = DiffFrom (currentState s) (stream (sentStates s ! 0))) \<and> times_ok s' now"
proof -
  have "connTimeout netConn w1 \<le> second" "sorted (map sentAt (sentStates s))"
    using net.conn_timeout assms(4) by (auto simp: times_ok_def)
  then show ?thesis
    using unacked_sent [OF assms(1,2,3,5) _ _ assms(6,7)] diff_from_front [OF assms(2,5)]
      times_Tick [OF assms(1,3,4)] by auto
qed

definition waitingSender :: sender where
  "waitingSender =
     \<lparr>currentState = \<lparr>events = [zeroUserEvent\<lparr>Keys := [0x6C]\<rparr>]\<rparr>,
      sentStates = [\<lparr>sentAt = 0, stateNum = 0, stream = emptyStream\<rparr>],
      assumedReceiverStateIdx = 0, fragr = zeroFragmenter, nextAckTime = 0, nextSendTime = 0, haveSendTime = False,
      shutdownInProgress = False, shutdownTries = 0, shutdownStart = 0, ackNum = 0, pendingDataAck = False,
      mindelayClock = 0, haveMindelay = True, emitted = []\<rparr>"

lemma unacked_retransmitted_witness:
  "\<exists>s' err w'. Tick netConn (\<lambda>b. b) waitingSender (newConnection ''h'' 0 (newSession (replicate 16 0)) 0, goodWorld)
     = Some (s', err, w') \<and> (err \<noteq> None \<or> (\<exists>inst. emitted s' = [inst] \<and> OldNum inst = 0))"
proof -
  let ?w = "(newConnection ''h'' 0 (newSession (replicate 16 0)) 0, goodWorld)"
  obtain s' err w' where t: "Tick netConn (\<lambda>b. b) waitingSender ?w = Some (s', err, w')"
    using net.Tick_returns by (metis prod_cases3)
  obtain w1 where n: "connNow netConn ?w = (5 * second, w1)"
    by (simp add: netConn_def timeNow_def call_def goodWorld_def)
  have i: "sender_inv waitingSender" "times_ok waitingSender (5 * second)"
    "currentState waitingSender \<noteq> stream (sentStates waitingSender ! 0)"
    "sentAt (last (sentStates waitingSender)) + (second + ackDelay) \<le> 5 * second"
    "currentState waitingSender \<noteq> stream (last (sentStates waitingSender)) \<longrightarrow>
       haveMindelay waitingSender \<and> mindelayClock waitingSender + sendMindelay \<le> 5 * second"
    by (simp_all add: waitingSender_def sender_inv_def times_ok_def emptyStream_def stream_prefix_def ackDelay_def
        sendMindelay_def go_time)
  have "err \<noteq> None \<or> (\<exists>inst. emitted s' = [inst] \<and> OldNum inst = 0)"
    using unacked_retransmitted [OF t i(1) n i(2,3,4,5)] by (auto simp: waitingSender_def)
  then show ?thesis using t by blast
qed

text \<open>A diff that could not be sent is not committed: the queue keeps its numbers and times and
  no instruction counts as sent. The comment on the empty acknowledgment warns of a deadline left
  in the past; for a new state the deadline does stay there: for as long as the round-trip
  estimate is the same, \<open>WaitTime\<close> is zero from then on, so that the next attempt is made as soon
  as the caller comes back, not after a send interval.\<close>

theorem failed_diff_due_at_once:
  assumes "Tick k deflate s w = Some (s', Some e, w')" "sender_inv s" "\<not> shutdownInProgress s"
    and "connNow k w = (now, w1)" "currentState s \<noteq> stream (last (sentStates s))"
    and "stateNum (last (sentStates s)) + 1 \<noteq> ShutdownNum" "now \<le> now'" "connSRTT k v = connSRTT k w1"
  shows "map stateNum (sentStates s') = map stateNum (sentStates s) \<and>
    map sentAt (sentStates s') = map sentAt (sentStates s) \<and> emitted s' = emitted s \<and>
    snd (WaitTime k s' now' v) = 0"
proof -
  define s1 where "s1 = calculateTimers k s now w1"
  have ne: "sentStates s \<noteq> []" using assms(2) by (simp add: sender_inv_def)
  have inv: "sender_inv s1" using sender_inv_calculateTimers [OF assms(2)] by (simp add: s1_def)
  have new: "currentState s1 \<noteq> stream (last (sentStates s1))"
    using calculateTimers_new_iff [OF assms(2)] assms(5) by (simp add: s1_def)
  have "stateNum (last (sentStates s1)) + 1 \<noteq> ShutdownNum"
    using calculateTimers_last [OF ne, of k now w1] assms(6) by (simp add: s1_def)
  then obtain fr where s': "s' = s1\<lparr>fragr := fr\<rparr>"
    and due: "\<not> (now < nextAckTime s1 \<and> (\<not> haveSendTime s1 \<or> now < nextSendTime s1))"
    using failed_tick [OF assms(1,2,3,4) s1_def new] by blast
  have inv': "sender_inv s'" using inv by (simp add: s' sender_inv_def)
  have iv: "sendInterval k v = sendInterval k w1" using assms(8) by (simp add: sendInterval_def)
  let ?t = "calculateTimers k s' now' v"
  have new': "currentState ?t \<noteq> stream (last (sentStates ?t))"
    using calculateTimers_new_iff [OF inv'] new by (simp add: s')
  have n1: "haveSendTime s1" "haveMindelay s1"
    "nextSendTime s1 = max (mindelayClock s1 + sendMindelay) (sentAt (last (sentStates s1)) + sendInterval k w1)"
    using calculateTimers_new [OF new [unfolded s1_def]] by (simp_all add: s1_def)
  have "sentAt (last (sentStates ?t)) = sentAt (last (sentStates s1))"
    using calculateTimers_last [of s' k now' v] inv' by (simp add: s' sender_inv_def)
  then have n2: "haveSendTime ?t" "nextSendTime ?t = nextSendTime s1"
    using calculateTimers_new [OF new'] n1 iv by (simp_all add: s')
  have "nextAckTime ?t \<le> nextAckTime s1"
    using nextAckTime_repeat [of s' k s now w1 v now'] assms(3) ne iv by (simp add: s' s1_def calculateTimers_fields)
  then have "snd (WaitTime k s' now' v) = 0"
    using due n1 n2 assms(7) by (auto simp: WaitTime_def Let_def)
  then show ?thesis using s' by (simp add: s1_def calculateTimers_fields comp_def)
qed

text \<open>A link whose writes all succeed, on a clock that stands still; and one whose writes all fail.\<close>

definition steadyConn :: "time senderConn" where
  "steadyConn =
     \<lparr>connSend = (\<lambda>p t. (None, t)), connSRTT = (\<lambda>t. 1000), connTimeout = (\<lambda>t. second), connMTU = (\<lambda>t. 472),
      connSetLastRoundtripSuccess = (\<lambda>u t. t), connNow = (\<lambda>t. (t, t)), connRand = (\<lambda>n t. (replicate n 0, t))\<rparr>"

definition deadConn :: "time senderConn" where
  "deadConn = steadyConn\<lparr>connSend := (\<lambda>p t. (Some (ErrOS 1), t))\<rparr>"

lemma steady_conn: "sender_conn steadyConn" "sender_conn deadConn"
  by (unfold_locales; simp add: steadyConn_def deadConn_def go_time)+

lemma steady_up: "link_up steadyConn"
  by (simp add: link_up_def steadyConn_def)

lemma sendInFragments_dead:
  assumes "sendInFragments deadConn deflate s diff n t = Some (s', err, t')"
  shows "err \<noteq> None"
proof -
  have d: "sendFragments deadConn (t + maxSendBurst) fs t = (Some (ErrOS 1), t)" if "fs \<noteq> []" for fs
    using that by (cases fs) (simp_all add: deadConn_def steadyConn_def maxSendBurst_def go_time)
  obtain chaff where c: "makeChaff deadConn t = (chaff, t)"
    by (simp add: deadConn_def steadyConn_def makeChaff_def Let_def)
  let ?s = "if n = ShutdownNum then s\<lparr>shutdownTries := shutdownTries s + 1\<rparr> else s"
  obtain fr fo where f: "makeFragments deflate (fragr ?s) (Marshal (mkInstruction s diff n chaff)) 472 = (fr, fo)"
    by fastforce
  then obtain fs where "fo = Some fs" "fs \<noteq> []"
    using makeFragments_spec [OF _ f] chunks_neq_Nil by (simp add: fragments_of_def)
  moreover have "connNow deadConn t = (t, t)" "connMTU deadConn t = 472" by (simp_all add: deadConn_def steadyConn_def)
  ultimately show ?thesis
    using assms f d [of fs] by (auto simp: sendInFragments_def Let_def c)
qed

lemma Tick_dead:
  assumes "Tick deadConn deflate s t = Some (s', err, t')" "sender_inv s"
    "s1 = calculateTimers deadConn s t t" "\<not> (t < nextAckTime s1 \<and> (\<not> haveSendTime s1 \<or> t < nextSendTime s1))"
    "DiffFrom (currentState s1) (stream (sentStates s1 ! assumedReceiverStateIdx s1)) \<noteq> []"
  shows "err \<noteq> None"
proof -
  have "tickDue deadConn deflate s1 t t = Some (s', err, t')"
    using assms(1,4) by (auto simp: Tick_def deadConn_def steadyConn_def assms(3) Let_def split: if_splits)
  then have "\<exists>s2. sendToReceiver deadConn deflate s1 t
      (DiffFrom (currentState s1) (stream (sentStates s1 ! assumedReceiverStateIdx s1))) t = Some (s2, err, t')"
    using then_mindelay [of _ s' err t'] unfolding tickDue_def Let_def if_not_P [OF assms(5)] by blast
  then show ?thesis
    using sendInFragments_dead
    by (fastforce simp: sendToReceiver_def Let_def split: option.splits prod.splits)
qed

lemma waitingSender_inv:
  "sender_inv waitingSender" "currentState waitingSender \<noteq> stream (last (sentStates waitingSender))"
  "stateNum (last (sentStates waitingSender)) + 1 \<noteq> ShutdownNum" "\<not> shutdownInProgress waitingSender"
  by (simp_all add: waitingSender_def sender_inv_def emptyStream_def stream_prefix_def ShutdownNum_def)

lemma failed_diff_due_at_once_witness:
  "\<exists>s' e t'. Tick deadConn (\<lambda>b. b) waitingSender (2 * second) = Some (s', Some e, t') \<and>
     snd (WaitTime deadConn s' (3 * second) t') = 0"
proof -
  let ?T = "2 * second"
  obtain s' err t' where t: "Tick deadConn (\<lambda>b. b) waitingSender ?T = Some (s', err, t')"
    using sender_conn.Tick_returns [OF steady_conn(2)] by (metis prod_cases3)
  define s1 where "s1 = calculateTimers deadConn waitingSender ?T ?T"
  have inv: "sender_inv s1" using sender_inv_calculateTimers [OF waitingSender_inv(1)] by (simp add: s1_def)
  have new: "currentState s1 \<noteq> stream (last (sentStates s1))"
    using calculateTimers_new_iff [OF waitingSender_inv(1)] waitingSender_inv(2) by (simp add: s1_def)
  have "\<not> (?T < nextAckTime s1 \<and> (\<not> haveSendTime s1 \<or> ?T < nextSendTime s1))"
    using nextAckTime_calculateTimers [of deadConn waitingSender ?T ?T]
    by (auto simp: s1_def waitingSender_def ShutdownNum_def go_time)
  then have "err \<noteq> None" by (rule Tick_dead [OF t waitingSender_inv(1) s1_def _ diff_new [OF inv new]])
  then obtain e where e: "err = Some e" by blast
  show ?thesis
    using failed_diff_due_at_once [OF t [unfolded e] waitingSender_inv(1,4) _ waitingSender_inv(2,3),
        of ?T ?T "3 * second" t'] t e
    by (auto simp: deadConn_def steadyConn_def go_time)
qed

end
