(* ===== verification/Sync.thy ===== *)
theory Sync
  imports Net_Conn
begin

unbundle bit_operations_syntax

text \<open>
  The synchronization protocol end to end: the sender of \<^verbatim>\<open>internal/transport/sender.go\<close> driven by
  the client loop, under every timing, every loss, duplication and reordering of instructions and
  every acknowledgment, against a mosh server.

  The server is not part of the repository. It is a parameter \<open>recv\<close>, from the numbered states it
  holds and an instruction to the states it holds next; \<open>mosh_receiver\<close> is what the source
  documents of it (\<^verbatim>\<open>transport.go\<close>: mosh applies a diff to a stored copy of any reference state it
  still holds). \<open>typed\<close> records what the user did and is read by no operation. Instructions reach
  the server from \<open>emitted\<close>: one whose sending returned an error is taken as lost, as the source
  does when it reuses its number.
\<close>

section \<open>Steps of the sender\<close>

text \<open>Every operation of the sender that is not a push, in an arbitrary environment. A new state
  number is not minted at the very end of the 64-bit range.\<close>

inductive sender_step :: "'c senderConn \<Rightarrow> (bytes \<Rightarrow> bytes) \<Rightarrow> sender \<Rightarrow> sender \<Rightarrow> bool"
  for k deflate where
  tick: "Tick k deflate s w = Some (s', err, w') \<Longrightarrow>
    shutdownInProgress s \<or> stateNum (last (sentStates s)) < ShutdownNum - 1 \<Longrightarrow> sender_step k deflate s s'"
| wait: "sender_step k deflate s (fst (WaitTime k s now w))"
| acked: "sender_step k deflate s (ProcessAcknowledgmentThrough s n)"
| acknum: "sender_step k deflate s (SetAckNum s n)"
| dataack: "sender_step k deflate s (SetDataAck s)"
| shutdown: "sender_step k deflate s (fst (StartShutdown k s w))"

inductive_cases sender_stepE: "sender_step k deflate s s'"

section \<open>The system\<close>

record sys =
  client :: sender
  typed :: "UserEvent list"
  held :: "u64 \<Rightarrow> UserEvent list option"

definition keyEvents :: "bytes \<Rightarrow> UserEvent list" where
  "keyEvents b = map (\<lambda>c. zeroUserEvent\<lparr>Keys := [c]\<rparr>) b"

definition resizeEvent :: "int \<Rightarrow> int \<Rightarrow> UserEvent" where
  "resizeEvent width height = zeroUserEvent\<lparr>Resize := True, Width := width, Height := height\<rparr>"

definition mosh_receiver ::
  "((u64 \<Rightarrow> UserEvent list option) \<Rightarrow> Instruction \<Rightarrow> (u64 \<Rightarrow> UserEvent list option)) \<Rightarrow> bool" where
  "mosh_receiver recv \<longleftrightarrow>
     (\<forall>h inst n X. recv h inst n = Some X \<longrightarrow>
        h n = Some X \<or>
        n = NewNum inst \<and> h n = None \<and>
        (\<exists>Y evs. h (OldNum inst) = Some Y \<and> UnmarshalUserMessage (Diff inst) = Inr evs \<and> X = Y @ expand evs)) \<and>
     (\<forall>h inst. h ShutdownNum \<noteq> None \<longrightarrow> recv h inst ShutdownNum \<noteq> None)"

inductive sys_step ::
  "'c senderConn \<Rightarrow> (bytes \<Rightarrow> bytes) \<Rightarrow>
   ((u64 \<Rightarrow> UserEvent list option) \<Rightarrow> Instruction \<Rightarrow> (u64 \<Rightarrow> UserEvent list option)) \<Rightarrow> sys \<Rightarrow> sys \<Rightarrow> bool"
  for k deflate recv where
  keys: "length (typed y) + length b < 2 ^ 56 \<Longrightarrow>
    sys_step k deflate recv y
      (y\<lparr>client := (client y)\<lparr>currentState := PushKeys (State (client y)) b\<rparr>, typed := typed y @ keyEvents b\<rparr>)"
| resize: "length (typed y) + 1 < 2 ^ 56 \<Longrightarrow> go_int width \<Longrightarrow> go_int height \<Longrightarrow>
    sys_step k deflate recv y
      (y\<lparr>client := (client y)\<lparr>currentState := PushResize (State (client y)) width height\<rparr>,
         typed := typed y @ [resizeEvent width height]\<rparr>)"
| sender: "sender_step k deflate (client y) s' \<Longrightarrow> sys_step k deflate recv y (y\<lparr>client := s'\<rparr>)"
| deliver: "inst \<in> set (emitted (client y)) \<Longrightarrow> sys_step k deflate recv y (y\<lparr>held := recv (held y) inst\<rparr>)"
| forget: "n \<noteq> ShutdownNum \<Longrightarrow> sys_step k deflate recv y (y\<lparr>held := (held y)(n := None)\<rparr>)"

definition initSys :: "'c senderConn \<Rightarrow> 'c \<Rightarrow> sys" where
  "initSys k w = \<lparr>client = fst (newSender k w), typed = [], held = [0 \<mapsto> []]\<rparr>"

section \<open>The invariant\<close>

text \<open>
  \<open>gone\<close> is what \<^verbatim>\<open>rationalizeStates\<close> has cut off so far, \<open>M\<close> the contents of every number ever
  minted: a sent state is the part of the history behind \<open>gone\<close>, and an instruction leads from one
  minted state to another.
\<close>

definition inst_ok :: "(u64 \<Rightarrow> UserEvent list option) \<Rightarrow> UserEvent list \<Rightarrow> Instruction \<Rightarrow> bool" where
  "inst_ok M H inst \<longleftrightarrow>
     (OldNum inst = ShutdownNum \<longrightarrow> NewNum inst = ShutdownNum) \<and>
     (OldNum inst \<noteq> ShutdownNum \<longrightarrow>
        (\<exists>X evs. M (OldNum inst) = Some X \<and> UnmarshalUserMessage (Diff inst) = Inr evs \<and>
           prefix (X @ expand evs) H \<and> (NewNum inst \<noteq> ShutdownNum \<longrightarrow> M (NewNum inst) = Some (X @ expand evs))))"

definition minted_ok :: "sender \<Rightarrow> UserEvent list \<Rightarrow> UserEvent list \<Rightarrow> (u64 \<Rightarrow> UserEvent list option) \<Rightarrow> bool" where
  "minted_ok s H gone M \<longleftrightarrow>
     (\<forall>n u. (n, u) \<in> set (entries s) \<longrightarrow> n \<noteq> ShutdownNum \<longrightarrow> M n = Some (gone @ events u)) \<and>
     (\<forall>n X. M n = Some X \<longrightarrow> prefix X H) \<and>
     (\<not> shutdownInProgress s \<longrightarrow>
        (\<forall>e\<in>set (entries s). fst e \<noteq> ShutdownNum) \<and> (\<forall>n\<in>dom M. n \<le> fst (last (entries s))))"

definition core :: "sender \<Rightarrow> UserEvent list \<Rightarrow> UserEvent list \<Rightarrow> (u64 \<Rightarrow> UserEvent list option) \<Rightarrow> bool" where
  "core s H gone M \<longleftrightarrow>
     sender_inv s \<and> H = gone @ events (currentState s) \<and> list_all normal_event H \<and> length H < 2 ^ 56 \<and>
     minted_ok s H gone M \<and> (\<forall>inst\<in>set (emitted s). inst_ok M H inst)"

definition held_ok :: "(u64 \<Rightarrow> UserEvent list option) \<Rightarrow> (u64 \<Rightarrow> UserEvent list option) \<Rightarrow> UserEvent list \<Rightarrow> bool" where
  "held_ok h M H \<longleftrightarrow> (\<forall>n X. h n = Some X \<longrightarrow> prefix X H \<and> (n \<noteq> ShutdownNum \<longrightarrow> M n = Some X))"

definition sync_inv :: "sys \<Rightarrow> bool" where
  "sync_inv y \<longleftrightarrow> (\<exists>gone M. core (client y) (typed y) gone M \<and> held_ok (held y) M (typed y))"

section \<open>Preservation\<close>

lemma coreD:
  assumes "core s H gone M"
  shows "sender_inv s" "H = gone @ events (currentState s)" "list_all normal_event H" "length H < 2 ^ 56"
    "minted_ok s H gone M" "\<And>inst. inst \<in> set (emitted s) \<Longrightarrow> inst_ok M H inst"
  using assms unfolding core_def by blast+

lemma coreI:
  assumes "sender_inv s" "H = gone @ events (currentState s)" "list_all normal_event H" "length H < 2 ^ 56"
    "minted_ok s H gone M" "\<And>inst. inst \<in> set (emitted s) \<Longrightarrow> inst_ok M H inst"
  shows "core s H gone M"
  unfolding core_def by (intro conjI ballI) (fact assms)+

lemma map_le_Some: "M \<subseteq>\<^sub>m M' \<Longrightarrow> M n = Some X \<Longrightarrow> M' n = Some X"
  by (metis map_le_def domI)

lemma inst_ok_mono:
  assumes "inst_ok M H inst" "M \<subseteq>\<^sub>m M'" "prefix H H'"
  shows "inst_ok M' H' inst"
proof (cases "OldNum inst = ShutdownNum")
  case False
  then obtain X evs where *: "M (OldNum inst) = Some X" "UnmarshalUserMessage (Diff inst) = Inr evs"
    "prefix (X @ expand evs) H" "NewNum inst \<noteq> ShutdownNum \<longrightarrow> M (NewNum inst) = Some (X @ expand evs)"
    using assms(1) by (auto simp: inst_ok_def)
  have "prefix (X @ expand evs) H'" using *(3) assms(3) by (rule prefix_order.trans)
  then show ?thesis using False * map_le_Some [OF assms(2)] by (simp add: inst_ok_def)
qed (use assms in \<open>simp add: inst_ok_def\<close>)

lemma held_ok_mono: "held_ok h M H \<Longrightarrow> M \<subseteq>\<^sub>m M' \<Longrightarrow> prefix H H' \<Longrightarrow> held_ok h M' H'"
  by (fastforce simp: held_ok_def map_le_def dom_def intro: prefix_order.trans)

lemma Subtract_append:
  "stream_prefix c u \<Longrightarrow> gone @ events u = (gone @ events c) @ events (Subtract u c)"
  by (auto simp: stream_prefix_def prefix_def)

lemma cutting_prefix:
  assumes "sender_inv s"
  shows "(n, u) \<in> set (entries s) \<Longrightarrow> stream_prefix (cutting s) u" "stream_prefix (cutting s) (currentState s)"
proof -
  show *: "(n, u) \<in> set (entries s) \<Longrightarrow> stream_prefix (cutting s) u" for n u
    using first_prefix [OF assms] by (simp add: cutting_def)
  have "last (entries s) \<in> set (entries s)" using assms by (simp add: sender_inv_def)
  then show "stream_prefix (cutting s) (currentState s)"
    using * entries_prefix_current [OF assms] stream_prefix_trans by (metis prod.collapse)
qed

lemma core_timers:
  assumes "core s H gone M"
  shows "core (calculateTimers k s now w) H (gone @ events (cutting s)) M"
proof -
  let ?s = "calculateTimers k s now w"
  have inv: "sender_inv s" and m: "minted_ok s H gone M" by (rule coreD [OF assms])+
  have ne: "entries s \<noteq> []" using inv by (simp add: sender_inv_def)
  have "M n = Some ((gone @ events (cutting s)) @ events u)"
    if n: "(n, u) \<in> set (entries ?s)" "n \<noteq> ShutdownNum" for n u
  proof -
    obtain v where v: "(n, v) \<in> set (entries s)" "u = Subtract v (cutting s)"
      using n by (auto simp: entries_calculateTimers)
    then have "M n = Some (gone @ events v)" using assms n(2) by (auto simp: core_def minted_ok_def)
    then show ?thesis using Subtract_append [OF cutting_prefix(1) [OF inv v(1)]] v(2) by metis
  qed
  moreover have "fst (last (entries ?s)) = fst (last (entries s))"
    using ne by (simp add: entries_calculateTimers last_map split: prod.splits)
  moreover have "(\<forall>e\<in>set (entries ?s). fst e \<noteq> ShutdownNum) \<longleftrightarrow> (\<forall>e\<in>set (entries s). fst e \<noteq> ShutdownNum)"
    by (simp add: entries_calculateTimers split_beta)
  ultimately have "minted_ok ?s H (gone @ events (cutting s)) M"
    using m by (simp add: minted_ok_def calculateTimers_fields)
  moreover have "H = (gone @ events (cutting s)) @ events (currentState ?s)"
    using assms Subtract_append [OF cutting_prefix(2) [OF inv], of gone]
    by (simp add: core_def calculateTimers_fields)
  ultimately show ?thesis
    using coreD(6) [OF assms]
    by (intro coreI sender_inv_calculateTimers [OF inv] coreD(3,4) [OF assms]) (simp_all only: calculateTimers_fields(4))
qed

lemma core_quiet:
  assumes "core s H gone M" "entries s' = entries s" "emitted s' = emitted s" "currentState s' = currentState s"
    "shutdownInProgress s \<longrightarrow> shutdownInProgress s'" "sender_inv s'"
  shows "core s' H gone M"
  using assms by (auto simp: core_def minted_ok_def)

text \<open>What an instruction carries: the step from the assumed state to the whole history.\<close>

lemma diff_completes:
  assumes "wf_stream u" "stream_prefix e u"
  shows "\<exists>evs. UnmarshalUserMessage (DiffFrom u e) = Inr evs \<and> events u = events e @ expand evs"
  using DiffFrom_sync [OF assms] by (auto simp: applyDiff_def split: sum.splits)

lemma sent_inst_ok:
  assumes "core s H gone M" "tick_sent s s' inst" "M \<subseteq>\<^sub>m M'"
    "NewNum inst \<noteq> ShutdownNum \<Longrightarrow> M' (NewNum inst) = Some H"
  shows "inst_ok M' H inst"
proof -
  define e where "e = entries s ! assumedReceiverStateIdx s"
  have inv: "sender_inv s" and H: "H = gone @ events (currentState s)" "list_all normal_event H" "length H < 2 ^ 56"
    and m: "minted_ok s H gone M"
    by (rule coreD [OF assms(1)])+
  have eset: "(fst e, snd e) \<in> set (entries s)" using inv by (simp add: e_def sender_inv_def)
  have inst: "OldNum inst = fst e" "Diff inst = DiffFrom (currentState s) (snd e)"
    "shutdownInProgress s \<Longrightarrow> NewNum inst = ShutdownNum"
    using assms(2) by (simp_all add: tick_sent_def e_def)
  have "wf_stream (currentState s)" using H by (simp add: wf_stream_def)
  then obtain evs where evs: "UnmarshalUserMessage (Diff inst) = Inr evs"
    "events (currentState s) = events (snd e) @ expand evs"
    using diff_completes entries_prefix_current [OF inv eset] inst(2) by metis
  show ?thesis
  proof (cases "fst e = ShutdownNum")
    case True
    then have "shutdownInProgress s" using m eset by (auto simp: minted_ok_def)
    then show ?thesis using inst True by (simp add: inst_ok_def)
  next
    case False
    then have "M (OldNum inst) = Some (gone @ events (snd e))"
      using m eset inst(1) by (auto simp: minted_ok_def)
    then have "M' (OldNum inst) = Some (gone @ events (snd e))" using map_le_Some [OF assms(3)] by simp
    moreover have "(gone @ events (snd e)) @ expand evs = H" using evs(2) H(1) by simp
    ultimately show ?thesis
      using False inst(1) evs(1) assms(4) by (auto simp: inst_ok_def)
  qed
qed

lemma core_sent_old:
  assumes "core s H gone M" "tick_sent s s' inst" "sender_inv s'" "currentState s' = currentState s"
    "shutdownInProgress s' = shutdownInProgress s" "entries s' = entries s" "NewNum inst = fst (last (entries s))"
    "\<not> shutdownInProgress s \<longrightarrow> currentState s = snd (last (entries s))"
  shows "core s' H gone M"
proof -
  have "last (entries s) \<in> set (entries s)" using assms(1) by (simp add: core_def sender_inv_def)
  moreover have "shutdownInProgress s \<longrightarrow> NewNum inst = ShutdownNum" using assms(2) by (simp add: tick_sent_def)
  moreover have "H = gone @ events (currentState s)" "minted_ok s H gone M" by (rule coreD [OF assms(1)])+
  ultimately have "NewNum inst \<noteq> ShutdownNum \<Longrightarrow> M (NewNum inst) = Some H"
    using assms(7,8) unfolding minted_ok_def by (metis prod.collapse)
  then have "inst_ok M H inst" using sent_inst_ok [OF assms(1,2), of M] by simp
  then show ?thesis
    using assms by (auto simp: core_def minted_ok_def tick_sent_def)
qed

lemma next_number:
  assumes "n < ShutdownNum - 1"
  shows "n < n + 1 \<and> n + 1 \<noteq> ShutdownNum"
proof -
  have "unat n < 2 ^ 64 - 2" using assms by (simp add: ShutdownNum_def word_less_nat_alt)
  then have "unat (n + 1) = unat n + 1" by (simp add: unat_add_lem [THEN iffD1])
  then have "n < n + 1" by (simp add: word_less_nat_alt)
  moreover have "n + 1 \<noteq> ShutdownNum" using assms by (metis add_diff_cancel_right' less_irrefl)
  ultimately show ?thesis ..
qed

lemma core_sent_new:
  assumes "core s H gone M" "tick_sent s s' inst" "sender_inv s'" "currentState s' = currentState s"
    "shutdownInProgress s' = shutdownInProgress s"
    "entries s' = addEntry (entries s) (NewNum inst, currentState s)"
    "\<not> shutdownInProgress s \<longrightarrow> NewNum inst = fst (last (entries s)) + 1"
    "\<not> shutdownInProgress s \<longrightarrow> fst (last (entries s)) < ShutdownNum - 1"
  shows "\<exists>M'. core s' H gone M' \<and> M \<subseteq>\<^sub>m M'"
proof -
  define M' where "M' = (if NewNum inst = ShutdownNum then M else M(NewNum inst \<mapsto> H))"
  have H: "H = gone @ events (currentState s)" and m: "minted_ok s H gone M" by (rule coreD [OF assms(1)])+
  have sh: "shutdownInProgress s \<longrightarrow> NewNum inst = ShutdownNum" using assms(2) by (simp add: tick_sent_def)
  have lt: "fst (last (entries s)) < NewNum inst \<and> NewNum inst \<noteq> ShutdownNum" if "\<not> shutdownInProgress s"
    using assms(7,8) that next_number by simp
  then have fresh: "M (NewNum inst) = None" if "NewNum inst \<noteq> ShutdownNum"
  proof -
    have "\<not> shutdownInProgress s" using that sh by blast
    then have "NewNum inst \<notin> dom M" using m lt unfolding minted_ok_def by force
    then show ?thesis by (simp add: domIff)
  qed
  have le: "M \<subseteq>\<^sub>m M'" using fresh by (auto simp: M'_def map_le_def)
  have "inst_ok M' H inst" by (rule sent_inst_ok [OF assms(1,2) le]) (simp add: M'_def)
  moreover have "inst_ok M' H i" if "i \<in> set (emitted s)" for i
    using coreD(6) [OF assms(1) that] le by (rule inst_ok_mono) simp
  moreover have "minted_ok s' H gone M'"
    unfolding minted_ok_def
  proof (intro conjI allI impI)
    show "M' n = Some (gone @ events u)" if "(n, u) \<in> set (entries s')" "n \<noteq> ShutdownNum" for n u
    proof -
      have "(n, u) = (NewNum inst, currentState s) \<or> (n, u) \<in> set (entries s)"
        using that(1) set_addEntry [of "entries s" "(NewNum inst, currentState s)"] assms(6) by auto
      then show ?thesis
      proof
        assume "(n, u) = (NewNum inst, currentState s)"
        then show ?thesis using that(2) H by (simp add: M'_def)
      next
        assume "(n, u) \<in> set (entries s)"
        then have "M n = Some (gone @ events u)" using m that(2) unfolding minted_ok_def by blast
        then show ?thesis by (rule map_le_Some [OF le])
      qed
    qed
    show "prefix X H" if "M' n = Some X" for n X
      using that m by (auto simp: M'_def minted_ok_def split: if_splits)
    assume s: "\<not> shutdownInProgress s'"
    have "fst e \<noteq> ShutdownNum" if "e \<in> set (entries s')" for e
    proof -
      have "e = (NewNum inst, currentState s) \<or> e \<in> set (entries s)"
        using that(1) set_addEntry [of "entries s" "(NewNum inst, currentState s)"] assms(6) by auto
      then show ?thesis using m lt s assms(5) by (auto simp: minted_ok_def)
    qed
    then show "\<forall>e\<in>set (entries s'). fst e \<noteq> ShutdownNum" by blast
    have "n \<le> NewNum inst" if "n \<in> dom M'" for n
      using that m lt s assms(5) by (force simp: M'_def minted_ok_def split: if_splits)
    then show "\<forall>n\<in>dom M'. n \<le> fst (last (entries s'))" using assms(6) by simp
  qed
  ultimately have "core s' H gone M'"
    using coreD(2,3,4) [OF assms(1)] assms(2,3,4) unfolding tick_sent_def by (intro coreI) auto
  then show ?thesis using le by blast
qed

lemma core_tick:
  assumes "core s H gone M" "Tick k deflate s w = Some (s', err, w')"
    "shutdownInProgress s \<or> stateNum (last (sentStates s)) < ShutdownNum - 1"
  shows "\<exists>gone' M'. core s' H gone' M' \<and> M \<subseteq>\<^sub>m M'"
proof -
  have inv: "sender_inv s" by (rule coreD [OF assms(1)])
  obtain now w1 where "tick_result (calculateTimers k s now w1) s' err" using Tick_spec [OF assms(2) inv] by metis
  moreover define s1 where "s1 = calculateTimers k s now w1"
  ultimately have r: "currentState s' = currentState s1" "shutdownInProgress s' = shutdownInProgress s1"
    "sender_inv s'" "tick_quiet s1 s' \<or> (\<exists>inst. tick_sent s1 s' inst)"
    by (auto simp: tick_result_def)
  have c: "core s1 H (gone @ events (cutting s)) M" using core_timers [OF assms(1)] by (simp add: s1_def)
  have ne: "sentStates s \<noteq> []" using inv by (simp add: sender_inv_def)
  then have "sentStates s1 \<noteq> []" by (simp add: s1_def calculateTimers_fields)
  then have guard: "\<not> shutdownInProgress s1 \<longrightarrow> fst (last (entries s1)) < ShutdownNum - 1"
    using assms(3) calculateTimers_last [OF ne, of k now w1] by (auto simp: s1_def last_entries calculateTimers_fields)
  show ?thesis
  proof (cases "tick_quiet s1 s'")
    case True
    then have "core s' H (gone @ events (cutting s)) M"
      using r by (intro core_quiet [OF c]) (simp_all add: tick_quiet_def)
    then show ?thesis using map_le_refl by blast
  next
    case False
    then obtain inst where sent: "tick_sent s1 s' inst" using r(4) by blast
    then consider (old) "entries s' = entries s1" "NewNum inst = fst (last (entries s1))"
        "\<not> shutdownInProgress s1 \<longrightarrow> currentState s1 = snd (last (entries s1))"
      | (new) "entries s' = addEntry (entries s1) (NewNum inst, currentState s1)"
        "\<not> shutdownInProgress s1 \<longrightarrow> NewNum inst = fst (last (entries s1)) + 1"
      unfolding tick_sent_def by blast
    then show ?thesis
    proof cases
      case old
      have "core s' H (gone @ events (cutting s)) M" by (rule core_sent_old [OF c sent r(3,1,2) old])
      then show ?thesis using map_le_refl by blast
    next
      case new
      show ?thesis using core_sent_new [OF c sent r(3,1,2) new guard] by blast
    qed
  qed
qed

lemma core_ack:
  assumes "core s H gone M"
  shows "core (ProcessAcknowledgmentThrough s n) H gone M"
proof (cases "ackedSuffix n (sentStates s)")
  case (Some kept)
  let ?s = "ProcessAcknowledgmentThrough s n"
  have s': "?s = s\<lparr>sentStates := kept, assumedReceiverStateIdx := 0\<rparr>"
    using Some by (simp add: ProcessAcknowledgmentThrough_def)
  obtain ds where ds: "sentStates s = ds @ kept" "kept \<noteq> []"
    using ackedSuffix_suffix [OF Some] by (metis suffixE)
  have "set (entries ?s) \<subseteq> set (entries s)" "last (entries ?s) = last (entries s)"
    using ds by (auto simp: entries_def s' last_map)
  then have "minted_ok ?s H gone M" using coreD(5) [OF assms] by (auto simp: minted_ok_def s')
  then show ?thesis
    using coreD(2,3,4,6) [OF assms] sender_inv_ack [OF coreD(1) [OF assms], of n] by (intro coreI) (auto simp: s')
qed (use assms in \<open>simp add: ProcessAcknowledgmentThrough_def\<close>)

lemma core_step:
  assumes "sender_step k deflate s s'" "core s H gone M"
  shows "\<exists>gone' M'. core s' H gone' M' \<and> M \<subseteq>\<^sub>m M'"
  using assms(1)
proof cases
  case (tick w err w')
  show ?thesis by (rule core_tick [OF assms(2) tick])
next
  case (wait now w)
  then have "core s' H (gone @ events (cutting s)) M" using core_timers [OF assms(2)] by (simp add: WaitTime_def Let_def)
  then show ?thesis using map_le_refl by blast
next
  case (acked n)
  then show ?thesis using core_ack [OF assms(2)] map_le_refl by blast
next
  case (acknum n)
  then have "core s' H gone M" using coreD(1) [OF assms(2)]
    by (intro core_quiet [OF assms(2)]) (auto simp: sender_inv_misc, auto simp: SetAckNum_def entries_def)
  then show ?thesis using map_le_refl by blast
next
  case dataack
  then have "core s' H gone M" using coreD(1) [OF assms(2)]
    by (intro core_quiet [OF assms(2)]) (auto simp: sender_inv_misc, auto simp: SetDataAck_def entries_def)
  then show ?thesis using map_le_refl by blast
next
  case (shutdown w)
  then have "core s' H gone M" using coreD(1) [OF assms(2)]
    by (intro core_quiet [OF assms(2)])
      (auto simp: sender_inv_misc, auto simp: StartShutdown_def entries_def Let_def split: prod.splits)
  then show ?thesis using map_le_refl by blast
qed

lemma core_push:
  assumes "core s H gone M" "list_all normal_event evs" "length (H @ evs) < 2 ^ 56"
    "events u = events (currentState s) @ evs"
  shows "core (s\<lparr>currentState := u\<rparr>) (H @ evs) gone M"
proof (rule coreI)
  show "sender_inv (s\<lparr>currentState := u\<rparr>)"
    using sender_inv_push [OF coreD(1) [OF assms(1)]] assms(4) by (simp add: stream_prefix_def)
  show "H @ evs = gone @ events (currentState (s\<lparr>currentState := u\<rparr>))" using coreD(2) [OF assms(1)] assms(4) by simp
  show "list_all normal_event (H @ evs)" using coreD(3) [OF assms(1)] assms(2) by simp
  show "minted_ok (s\<lparr>currentState := u\<rparr>) (H @ evs) gone M"
    using coreD(5) [OF assms(1)] by (auto simp: minted_ok_def intro: prefix_prefix)
  show "inst_ok M (H @ evs) inst" if "inst \<in> set (emitted (s\<lparr>currentState := u\<rparr>))" for inst
    using inst_ok_mono [OF coreD(6) [OF assms(1)] map_le_refl] that by simp
qed (fact assms(3))

lemma held_recv:
  assumes "held_ok h M H" "inst_ok M H inst" "mosh_receiver recv"
  shows "held_ok (recv h inst) M H"
  unfolding held_ok_def
proof (intro allI impI)
  fix n X
  assume "recv h inst n = Some X"
  then consider "h n = Some X" | Y evs where "n = NewNum inst" "h n = None" "h (OldNum inst) = Some Y"
      "UnmarshalUserMessage (Diff inst) = Inr evs" "X = Y @ expand evs"
    using assms(3) unfolding mosh_receiver_def by blast
  then show "prefix X H \<and> (n \<noteq> ShutdownNum \<longrightarrow> M n = Some X)"
  proof cases
    case 1
    then show ?thesis using assms(1) by (auto simp: held_ok_def)
  next
    case 2
    have "OldNum inst \<noteq> ShutdownNum" using 2 assms(2) by (auto simp: inst_ok_def)
    then show ?thesis using 2 assms(1,2) by (fastforce simp: held_ok_def inst_ok_def)
  qed
qed

lemma normal_keyEvents: "list_all normal_event (keyEvents b)"
  by (auto simp: keyEvents_def list_all_iff normal_event_def wf_user_event_def zeroUserEvent_def)

lemma normal_resizeEvent: "go_int width \<Longrightarrow> go_int height \<Longrightarrow> normal_event (resizeEvent width height)"
  by (simp add: resizeEvent_def normal_event_def wf_user_event_def zeroUserEvent_def)

lemma sync_inv_push:
  assumes "sync_inv y" "list_all normal_event evs" "length (typed y) + length evs < 2 ^ 56"
    "events u = events (State (client y)) @ evs"
  shows "sync_inv (y\<lparr>client := (client y)\<lparr>currentState := u\<rparr>, typed := typed y @ evs\<rparr>)"
proof -
  obtain gone M where "core (client y) (typed y) gone M" "held_ok (held y) M (typed y)"
    using assms(1) by (auto simp: sync_inv_def)
  then have "core ((client y)\<lparr>currentState := u\<rparr>) (typed y @ evs) gone M" "held_ok (held y) M (typed y @ evs)"
    using assms(2,3,4) core_push held_ok_mono [OF _ map_le_refl] by (simp_all add: State_def)
  then show ?thesis by (auto simp: sync_inv_def)
qed

lemma sync_inv_step:
  assumes "sys_step k deflate recv y y'" "mosh_receiver recv" "sync_inv y"
  shows "sync_inv y'"
  using assms(1)
proof cases
  case (keys b)
  then show ?thesis
    using sync_inv_push [OF assms(3) normal_keyEvents] by (simp add: events_PushKeys keyEvents_def)
next
  case (resize width height)
  then show ?thesis
    using sync_inv_push [OF assms(3), of "[resizeEvent width height]"] normal_resizeEvent
    by (simp add: PushResize_def resizeEvent_def)
next
  case (sender s')
  obtain gone M where c: "core (client y) (typed y) gone M" "held_ok (held y) M (typed y)"
    using assms(3) by (auto simp: sync_inv_def)
  then obtain gone' M' where "core s' (typed y) gone' M'" "M \<subseteq>\<^sub>m M'" using core_step [OF sender(2)] by blast
  then show ?thesis using sender(1) held_ok_mono [OF c(2)] by (auto simp: sync_inv_def)
next
  case (deliver inst)
  then show ?thesis using assms(2,3) held_recv coreD(6) by (fastforce simp: sync_inv_def)
next
  case (forget n)
  then show ?thesis using assms(3) by (auto simp: sync_inv_def held_ok_def split: if_splits)
qed

lemma sync_inv_init: "sync_inv (initSys k w)"
proof -
  have "core (fst (newSender k w)) [] [] [0 \<mapsto> []]"
    by (rule coreI)
      (auto simp: sender_inv_misc, auto simp: newSender_def Let_def entries_def minted_ok_def emptyStream_def
        ShutdownNum_def split: prod.splits if_splits)
  moreover have "held_ok [0 \<mapsto> []] [0 \<mapsto> []] []" by (simp add: held_ok_def)
  ultimately show ?thesis by (auto simp: sync_inv_def initSys_def)
qed

lemma sync_inv_run: "(sys_step k deflate recv)\<^sup>*\<^sup>* y y' \<Longrightarrow> mosh_receiver recv \<Longrightarrow> sync_inv y \<Longrightarrow> sync_inv y'"
  by (induction rule: rtranclp_induct) (auto intro: sync_inv_step)

section \<open>Claims\<close>

text \<open>A receiver that keeps the contract, for concrete runs.\<close>

definition plainReceiver ::
  "(u64 \<Rightarrow> UserEvent list option) \<Rightarrow> Instruction \<Rightarrow> (u64 \<Rightarrow> UserEvent list option)" where
  "plainReceiver h inst =
     (case h (OldNum inst) of
        None \<Rightarrow> h
      | Some Y \<Rightarrow>
          if h (NewNum inst) \<noteq> None then h
          else case UnmarshalUserMessage (Diff inst) of
                 Inl e \<Rightarrow> h
               | Inr evs \<Rightarrow> h(NewNum inst \<mapsto> Y @ expand evs))"

lemma plainReceiver_ok: "mosh_receiver plainReceiver"
  by (auto simp: mosh_receiver_def plainReceiver_def split: option.splits sum.splits if_splits)

text \<open>One keystroke, typed, noticed, sent and delivered.\<close>

definition sampleTyped :: sender where
  "sampleTyped = (fst (newSender steadyConn 0))\<lparr>currentState := PushKeys emptyStream [0x6C]\<rparr>"

definition sampleNoticed :: sender where
  "sampleNoticed = calculateTimers steadyConn sampleTyped 0 0"

lemma sample_typed:
  "sampleTyped = \<lparr>currentState = PushKeys emptyStream [0x6C], sentStates = [\<lparr>sentAt = 0, stateNum = 0, stream = emptyStream\<rparr>],
     assumedReceiverStateIdx = 0, fragr = zeroFragmenter, nextAckTime = 0, nextSendTime = 0, haveSendTime = False,
     shutdownInProgress = False, shutdownTries = 0, shutdownStart = 0, ackNum = 0, pendingDataAck = False,
     mindelayClock = 0, haveMindelay = False, emitted = []\<rparr>"
  by (simp add: sampleTyped_def newSender_def steadyConn_def)

lemma sample_noticed:
  "sentStates sampleNoticed = sentStates sampleTyped" "currentState sampleNoticed = PushKeys emptyStream [0x6C]"
  "emitted sampleNoticed = []" "fragr sampleNoticed = zeroFragmenter" "\<not> shutdownInProgress sampleNoticed"
  "stateNum (last (sentStates sampleNoticed)) < ShutdownNum - 1"
  by (simp_all add: sampleNoticed_def calculateTimers_fields sample_typed cutting_def emptyStream_def [symmetric] ShutdownNum_def
      word_less_nat_alt)

lemma sample_tick:
  obtains s err w inst where "Tick steadyConn (\<lambda>b. b) sampleNoticed (2 * second) = Some (s, err, w)" "emitted s = [inst]"
    "OldNum inst = 0" "NewNum inst = 1" "Diff inst = DiffFrom (PushKeys emptyStream [0x6C]) emptyStream"
proof -
  have now: "connNow steadyConn t = (t, t)" for t by (simp add: steadyConn_def)
  have inv1: "sender_inv sampleTyped" by (simp add: sample_typed sender_inv_def stream_prefix_def emptyStream_def)
  then have inv: "sender_inv sampleNoticed" using sender_inv_calculateTimers by (simp add: sampleNoticed_def)
  have new: "currentState sampleTyped \<noteq> stream (last (sentStates sampleTyped))" by (simp add: sample_typed emptyStream_def)
  then have md: "haveMindelay sampleNoticed" "mindelayClock sampleNoticed = 0"
    using calculateTimers_new [of steadyConn sampleTyped 0 0] calculateTimers_new_iff [OF inv1, of steadyConn 0 0]
    by (simp_all add: sampleNoticed_def sample_typed)
  obtain s err w where t: "Tick steadyConn (\<lambda>b. b) sampleNoticed (2 * second) = Some (s, err, w)"
    using sender_conn.Tick_returns [OF steady_conn(1)] by (metis prod_cases3)
  obtain inst where "emitted s = [inst]" "OldNum inst = 0" "NewNum inst = 1"
    "Diff inst = DiffFrom (PushKeys emptyStream [0x6C]) emptyStream"
    using unacked_sent [OF t inv now] steady_up sample_noticed md new
    by (auto simp: sample_typed steadyConn_def sendMindelay_def ackDelay_def go_time)
  then show thesis using that t by blast
qed

lemma sample_diff:
  assumes "Diff inst = DiffFrom (PushKeys emptyStream [0x6C]) emptyStream" "OldNum inst = 0" "NewNum inst = 1"
  shows "plainReceiver [0 \<mapsto> []] inst 1 = Some (keyEvents [0x6C])"
proof -
  have "wf_stream (PushKeys emptyStream [0x6C])"
    by (simp add: wf_stream_def emptyStream_def normal_event_def wf_user_event_def zeroUserEvent_def)
  then obtain evs where "UnmarshalUserMessage (Diff inst) = Inr evs" "expand evs = keyEvents [0x6C]"
    using diff_completes [of "PushKeys emptyStream [0x6C]" emptyStream] assms(1)
    by (auto simp: stream_prefix_def emptyStream_def keyEvents_def)
  then show ?thesis using assms by (simp add: plainReceiver_def)
qed

lemma example_run:
  "\<exists>y. (sys_step steadyConn (\<lambda>b. b) plainReceiver)\<^sup>*\<^sup>* (initSys steadyConn 0) y \<and>
     typed y = keyEvents [0x6C] \<and> held y 1 = Some (keyEvents [0x6C]) \<and> emitted (client y) \<noteq> []"
proof -
  let ?R = "sys_step steadyConn (\<lambda>b. b) plainReceiver"
  define y1 where "y1 = \<lparr>client = sampleTyped, typed = keyEvents [0x6C], held = [0 \<mapsto> []]\<rparr>"
  obtain s3 err w3 inst where t: "Tick steadyConn (\<lambda>b. b) sampleNoticed (2 * second) = Some (s3, err, w3)" and
    inst: "emitted s3 = [inst]" "OldNum inst = 0" "NewNum inst = 1" "Diff inst = DiffFrom (PushKeys emptyStream [0x6C]) emptyStream"
    by (rule sample_tick)
  have y1: "?R (initSys steadyConn 0) y1"
    using sys_step.keys [of "initSys steadyConn 0" "[0x6C]" steadyConn "\<lambda>b. b" plainReceiver]
    by (simp add: initSys_def y1_def sampleTyped_def State_def) (simp add: newSender_def steadyConn_def)
  have "sender_step steadyConn (\<lambda>b. b) sampleTyped sampleNoticed"
    using sender_step.wait [of steadyConn "\<lambda>b. b" sampleTyped 0 0] by (simp add: sampleNoticed_def WaitTime_def Let_def)
  then have y2: "?R y1 (y1\<lparr>client := sampleNoticed\<rparr>)" using sys_step.sender [of steadyConn "\<lambda>b. b" y1] by (simp add: y1_def)
  let ?y3 = "y1\<lparr>client := s3\<rparr>"
  have "sender_step steadyConn (\<lambda>b. b) sampleNoticed s3" by (rule sender_step.tick [OF t]) (simp add: sample_noticed(5,6))
  then have y3: "?R (y1\<lparr>client := sampleNoticed\<rparr>) ?y3"
    using sys_step.sender [of steadyConn "\<lambda>b. b" "y1\<lparr>client := sampleNoticed\<rparr>" s3] by simp
  have y4: "?R ?y3 (?y3\<lparr>held := plainReceiver (held ?y3) inst\<rparr>)" by (rule sys_step.deliver) (simp add: inst)
  have "held (?y3\<lparr>held := plainReceiver (held ?y3) inst\<rparr>) 1 = Some (keyEvents [0x6C])"
    using sample_diff [OF inst(4,2,3)] by (simp add: y1_def)
  moreover have "?R\<^sup>*\<^sup>* (initSys steadyConn 0) (?y3\<lparr>held := plainReceiver (held ?y3) inst\<rparr>)"
    using y1 y2 y3 y4 by (meson converse_rtranclp_into_rtranclp rtranclp.rtrancl_refl)
  moreover have "emitted (client ?y3) \<noteq> []" by (simp add: inst)
  ultimately show ?thesis by (intro exI conjI) (assumption | simp add: y1_def)+
qed

text \<open>C2: the server sees exactly what the user did. Under every timing, every loss, reordering and
  duplication of instructions, every sequence of acknowledgments, whatever the server forgets, and
  through the shutdown handshake, each state the server holds is a prefix of the user's
  keystrokes and resizes: nothing is lost in the middle, repeated, reordered or invented.\<close>

theorem server_holds_prefix:
  assumes "mosh_receiver recv" "(sys_step k deflate recv)\<^sup>*\<^sup>* (initSys k w) y" "held y n = Some X"
  shows "prefix X (typed y)"
  using sync_inv_run [OF assms(2,1) sync_inv_init] assms(3) by (auto simp: sync_inv_def held_ok_def)

theorem server_holds_prefix_witness:
  "\<exists>y. (sys_step steadyConn (\<lambda>b. b) plainReceiver)\<^sup>*\<^sup>* (initSys steadyConn 0) y \<and>
     held y 1 = Some (keyEvents [0x6C]) \<and> prefix (keyEvents [0x6C]) (typed y)"
  using server_holds_prefix [OF plainReceiver_ok, of steadyConn "\<lambda>b. b" 0] example_run by metis

text \<open>C3: client and server agree on the meaning of a number. Whenever the server holds a state
  under a number that is still in the client's queue (the shutdown number apart), it holds
  precisely the state the client recorded: what it lacks of the user's history is what the diff
  from that state to the current one carries. In particular a server that holds the newest state,
  equal to the current one, has everything.\<close>

theorem server_agrees_on_numbers:
  assumes "mosh_receiver recv" "(sys_step k deflate recv)\<^sup>*\<^sup>* (initSys k w) y" "held y n = Some X"
    and "(n, u) \<in> set (entries (client y))" "n \<noteq> ShutdownNum"
  shows "typed y = X @ events (Subtract (currentState (client y)) u)"
proof -
  obtain gone M where c: "core (client y) (typed y) gone M" "held_ok (held y) M (typed y)"
    using sync_inv_run [OF assms(2,1) sync_inv_init] by (auto simp: sync_inv_def)
  then have "Some X = Some (gone @ events u)"
    using coreD(5) [OF c(1)] assms(3,4,5) unfolding held_ok_def minted_ok_def by metis
  then show ?thesis
    using Subtract_append [OF entries_prefix_current [OF coreD(1) [OF c(1)] assms(4)], of gone] coreD(2) [OF c(1)]
    by simp
qed

theorem server_agrees_on_numbers_witness:
  "typed (initSys steadyConn 0) = [] @ events (Subtract (currentState (client (initSys steadyConn 0))) emptyStream)"
  by (rule server_agrees_on_numbers [OF plainReceiver_ok, of steadyConn "\<lambda>b. b" 0 _ 0])
    (simp_all add: initSys_def newSender_def entries_def steadyConn_def ShutdownNum_def)

lemma sender_inv_step:
  assumes "sender_step k deflate s s'" "sender_inv s"
  shows "sender_inv s'"
  using assms(1)
proof cases
  case (tick w err w')
  then show ?thesis using Tick_spec [OF tick(1) assms(2)] by (metis tick_result_def)
next
  case (wait now w)
  then show ?thesis using sender_inv_calculateTimers [OF assms(2)] by (simp add: WaitTime_def Let_def)
qed (use assms(2) sender_inv_ack sender_inv_misc in auto)

lemma sender_inv_sys_step:
  assumes "sys_step k deflate recv y y'" "sender_inv (client y)"
  shows "sender_inv (client y')"
  using assms(1)
proof cases
  case (sender s')
  then show ?thesis using sender_inv_step assms(2) by simp
qed (use assms(2) sender_inv_push stream_prefix_Push in \<open>auto simp: State_def\<close>)

text \<open>C31: the sender's queue. From the start and under every operation in every environment, failed
  sends included, it holds between 1 and 32 states, each extending the ones before it, with the
  current state extending all of them, and the assumed state is one of them: no index is ever out
  of range, and a diff is always taken against a prefix.\<close>

theorem sender_queue_invariant:
  assumes "(sys_step k deflate recv)\<^sup>*\<^sup>* (initSys k w) y"
  shows "0 < length (sentStates (client y)) \<and> length (sentStates (client y)) \<le> 32 \<and>
    assumedReceiverStateIdx (client y) < length (sentStates (client y)) \<and>
    sorted_wrt stream_prefix (map stream (sentStates (client y)) @ [currentState (client y)])"
proof -
  have "sender_inv (client y)"
    using assms
  proof (induction rule: rtranclp_induct)
    case base
    then show ?case by (simp add: initSys_def sender_inv_misc)
  qed (rule sender_inv_sys_step)
  moreover from this have "stream_prefix u (currentState (client y))" if "u \<in> set (map stream (sentStates (client y)))" for u
    using entries_prefix_current that by (fastforce simp: entries_def)
  ultimately show ?thesis by (simp add: sender_inv_def sorted_wrt_append)
qed

theorem sender_queue_invariant_witness:
  "\<exists>y :: sys. typed y = keyEvents [0x6C] \<and> 0 < length (sentStates (client y)) \<and> length (sentStates (client y)) \<le> 32"
proof -
  obtain y where y: "(sys_step steadyConn (\<lambda>b. b) plainReceiver)\<^sup>*\<^sup>* (initSys steadyConn 0) y"
    "typed y = keyEvents [0x6C]"
    using example_run by blast
  show ?thesis using sender_queue_invariant [OF y(1)] y(2) by blast
qed

end
