(* ===== verification/Transport.thy ===== *)
theory Transport
  imports Sync
begin

unbundle bit_operations_syntax

text \<open>
  \<^verbatim>\<open>internal/transport/transport.go\<close>: one client session, the sender and the receiving half.

  The callback \<^verbatim>\<open>Apply\<close> is an operation \<open>applyCb\<close> on a state \<open>'x\<close> of its own, the screen; it returns the
  error of the source. \<^verbatim>\<open>RemoteHeard\<close> does nothing in this port, but its argument reads the clock.
\<close>

section \<open>The transport\<close>

record Transport =
  trSender :: sender
  trAssembly :: assembly
  latestNum :: u64
  remoteShutdown :: bool

definition New :: "'c senderConn \<Rightarrow> 'c \<Rightarrow> Transport \<times> 'c" where
  "New k w = (let (s, w) = newSender k w
     in (\<lparr>trSender = s, trAssembly = zeroAssembly, latestNum = 0, remoteShutdown = False\<rparr>, w))"

text \<open>The first half of \<^verbatim>\<open>Recv\<close>: from a datagram payload to a complete instruction, if there is one.\<close>

definition recvInstruction ::
  "(nat \<Rightarrow> bytes \<Rightarrow> bytes option) \<Rightarrow> assembly \<Rightarrow> bytes \<Rightarrow> assembly \<times> (error + Instruction option)" where
  "recvInstruction inflate a payload =
     (case parseFragment payload of
        Inl e \<Rightarrow> (a, Inl e)
      | Inr frag \<Rightarrow>
          (let (a, r) = add inflate a frag
           in (a, case r of
                Inl e \<Rightarrow> Inl e
              | Inr None \<Rightarrow> Inr None
              | Inr (Some instBytes) \<Rightarrow>
                  (case UnmarshalInstruction instBytes of
                     Inl e \<Rightarrow> Inl (ErrBadInstruction e)
                   | Inr inst \<Rightarrow>
                       if ProtocolVersion inst \<noteq> protocolVersion then Inl ErrVersionMismatch else Inr (Some inst)))))"

text \<open>The second half: acknowledgments, the shutdown latch, and rendering.\<close>

definition acceptInstruction ::
  "'c senderConn \<Rightarrow> (bytes \<Rightarrow> 'x \<Rightarrow> 'x \<times> error option) \<Rightarrow> Transport \<Rightarrow> Instruction \<Rightarrow> 'x \<Rightarrow> 'c \<Rightarrow>
   Transport \<times> error option \<times> 'x \<times> 'c" where
  "acceptInstruction k applyCb t inst x w =
     (let t = t\<lparr>trSender := ProcessAcknowledgmentThrough (trSender t) (AckNum inst)\<rparr>;
          (_, w) = connNow k w;
          w = NoteRoundtripSuccess k (trSender t) w;
          t = (if NewNum inst = ShutdownNum then t\<lparr>remoteShutdown := True\<rparr> else t)
      in if NewNum inst \<le> latestNum t then (t, None, x, w)
         else if OldNum inst \<noteq> latestNum t then (t, None, x, w)
         else
           let (t, err, x) =
             (if Diff inst \<noteq> [] then
                let t = t\<lparr>trSender := SetDataAck (trSender t)\<rparr>; (x, err) = applyCb (Diff inst) x in (t, err, x)
              else (t, None, x))
           in case err of
                Some e \<Rightarrow> (t, Some e, x, w)
              | None \<Rightarrow>
                  (t\<lparr>latestNum := NewNum inst, trSender := SetAckNum (trSender t) (NewNum inst)\<rparr>, None, x, w))"

definition Recv ::
  "'c senderConn \<Rightarrow> (nat \<Rightarrow> bytes \<Rightarrow> bytes option) \<Rightarrow> (bytes \<Rightarrow> 'x \<Rightarrow> 'x \<times> error option) \<Rightarrow>
   Transport \<Rightarrow> bytes \<Rightarrow> 'x \<Rightarrow> 'c \<Rightarrow> Transport \<times> error option \<times> 'x \<times> 'c" where
  "Recv k inflate applyCb t payload x w =
     (let (a, r) = recvInstruction inflate (trAssembly t) payload; t = t\<lparr>trAssembly := a\<rparr>
      in case r of
           Inl e \<Rightarrow> (t, Some e, x, w)
         | Inr None \<Rightarrow> (t, None, x, w)
         | Inr (Some inst) \<Rightarrow> acceptInstruction k applyCb t inst x w)"

definition RemoteShutdown :: "Transport \<Rightarrow> bool" where
  "RemoteShutdown t = remoteShutdown t"

definition UserStream_of :: "Transport \<Rightarrow> UserStream" where
  "UserStream_of t = State (trSender t)"

definition setUserStream :: "Transport \<Rightarrow> UserStream \<Rightarrow> Transport" where
  "setUserStream t u = t\<lparr>trSender := (trSender t)\<lparr>currentState := u\<rparr>\<rparr>"

section \<open>What receiving does\<close>

text \<open>Whether the instruction is rendered: its reference is the state on the screen, and it is newer.\<close>

definition renders :: "Transport \<Rightarrow> Instruction \<Rightarrow> bool" where
  "renders t inst \<longleftrightarrow> OldNum inst = latestNum t \<and> latestNum t < NewNum inst"

definition yields :: "(nat \<Rightarrow> bytes \<Rightarrow> bytes option) \<Rightarrow> Transport \<Rightarrow> bytes \<Rightarrow> Instruction option" where
  "yields inflate t payload =
     (case snd (recvInstruction inflate (trAssembly t) payload) of Inr (Some inst) \<Rightarrow> Some inst | _ \<Rightarrow> None)"

lemma Recv_none:
  assumes "yields inflate t payload = None"
  obtains a err where "Recv k inflate applyCb t payload x w = (t\<lparr>trAssembly := a\<rparr>, err, x, w)"
proof -
  obtain a r where "recvInstruction inflate (trAssembly t) payload = (a, r)" by fastforce
  then show ?thesis
    using assms that by (auto simp: Recv_def yields_def Let_def split: sum.splits option.splits)
qed

lemma Recv_some:
  assumes "yields inflate t payload = Some inst"
  obtains a where "Recv k inflate applyCb t payload x w = acceptInstruction k applyCb (t\<lparr>trAssembly := a\<rparr>) inst x w"
proof -
  obtain a r where "recvInstruction inflate (trAssembly t) payload = (a, r)" by fastforce
  then show ?thesis
    using assms that by (auto simp: Recv_def yields_def Let_def split: sum.splits option.splits)
qed

lemma accept_skip:
  assumes "\<not> renders t inst"
  obtains w' where "acceptInstruction k applyCb t inst x w =
    (t\<lparr>trSender := ProcessAcknowledgmentThrough (trSender t) (AckNum inst),
       remoteShutdown := remoteShutdown t \<or> NewNum inst = ShutdownNum\<rparr>, None, x, w')"
  using assms by (fastforce simp: acceptInstruction_def renders_def Let_def split: prod.splits)

text \<open>The sender after the acknowledgments of an instruction, and whether it owes one of its own.\<close>

definition ackedSender :: "sender \<Rightarrow> Instruction \<Rightarrow> bool \<Rightarrow> sender" where
  "ackedSender s inst owed =
     (let s = ProcessAcknowledgmentThrough s (AckNum inst) in if owed then SetDataAck s else s)"

lemma accept_render:
  assumes "renders t inst" "(x', err) = (if Diff inst = [] then (x, None) else applyCb (Diff inst) x)"
  obtains w' where "acceptInstruction k applyCb t inst x w =
    (let t = t\<lparr>trSender := ackedSender (trSender t) inst (Diff inst \<noteq> []),
               remoteShutdown := remoteShutdown t \<or> NewNum inst = ShutdownNum\<rparr>
     in if err = None then t\<lparr>trSender := SetAckNum (trSender t) (NewNum inst), latestNum := NewNum inst\<rparr> else t,
     err, x', w')"
proof -
  obtain now v where now: "connNow k w = (now, v)" by fastforce
  let ?w = "NoteRoundtripSuccess k (ProcessAcknowledgmentThrough (trSender t) (AckNum inst)) v"
  have gt: "\<not> NewNum inst \<le> latestNum t" "OldNum inst = latestNum t" using assms(1) by (auto simp: renders_def)
  show ?thesis
  proof (rule that [of ?w], cases "Diff inst = []")
    case True
    then show "acceptInstruction k applyCb t inst x w =
      (let t = t\<lparr>trSender := ackedSender (trSender t) inst (Diff inst \<noteq> []),
               remoteShutdown := remoteShutdown t \<or> NewNum inst = ShutdownNum\<rparr>
       in if err = None then t\<lparr>trSender := SetAckNum (trSender t) (NewNum inst), latestNum := NewNum inst\<rparr> else t,
       err, x', ?w)"
      using assms(2) gt by (simp add: acceptInstruction_def now Let_def ackedSender_def)
  next
    case False
    then have a: "applyCb (Diff inst) x = (x', err)" using assms(2) by simp
    show "acceptInstruction k applyCb t inst x w =
      (let t = t\<lparr>trSender := ackedSender (trSender t) inst (Diff inst \<noteq> []),
               remoteShutdown := remoteShutdown t \<or> NewNum inst = ShutdownNum\<rparr>
       in if err = None then t\<lparr>trSender := SetAckNum (trSender t) (NewNum inst), latestNum := NewNum inst\<rparr> else t,
       err, x', ?w)"
      using False a gt by (cases err) (auto simp: acceptInstruction_def now Let_def ackedSender_def)
  qed
qed

lemma ackNum_acked [simp]: "ackNum (ackedSender s inst b) = ackNum s"
  by (simp add: ackedSender_def ProcessAcknowledgmentThrough_def SetDataAck_def Let_def split: option.splits)

lemma steps_acked: "(sender_step k deflate)\<^sup>*\<^sup>* s (ackedSender s inst b)"
  using sender_step.acked [of k deflate s "AckNum inst"]
    sender_step.dataack [of k deflate "ProcessAcknowledgmentThrough s (AckNum inst)"]
  by (cases b) (auto simp: ackedSender_def Let_def)

text \<open>The three outcomes of receiving a datagram.\<close>

lemma Recv_outcome:
  assumes "Recv k inflate applyCb t payload x w = (t', err, x', w')"
  obtains (none) a where "yields inflate t payload = None" "t' = t\<lparr>trAssembly := a\<rparr>" "x' = x"
  | (skip) a inst where "yields inflate t payload = Some inst" "\<not> renders t inst" "err = None" "x' = x"
      "t' = t\<lparr>trAssembly := a, trSender := ackedSender (trSender t) inst False,
         remoteShutdown := remoteShutdown t \<or> NewNum inst = ShutdownNum\<rparr>"
  | (failed) a inst e where "yields inflate t payload = Some inst" "renders t inst" "err = Some e"
      "Diff inst \<noteq> []" "applyCb (Diff inst) x = (x', Some e)"
      "t' = t\<lparr>trAssembly := a, trSender := ackedSender (trSender t) inst True,
         remoteShutdown := remoteShutdown t \<or> NewNum inst = ShutdownNum\<rparr>"
  | (rendered) a inst where "yields inflate t payload = Some inst" "renders t inst" "err = None"
      "(x', None) = (if Diff inst = [] then (x, None) else applyCb (Diff inst) x)"
      "t' = t\<lparr>trAssembly := a, trSender := SetAckNum (ackedSender (trSender t) inst (Diff inst \<noteq> [])) (NewNum inst),
         latestNum := NewNum inst, remoteShutdown := remoteShutdown t \<or> NewNum inst = ShutdownNum\<rparr>"
proof (cases "yields inflate t payload")
  case None
  then show ?thesis using Recv_none [OF None, of k applyCb x w] assms none by (metis prod.inject)
next
  case (Some inst)
  obtain a where r: "acceptInstruction k applyCb (t\<lparr>trAssembly := a\<rparr>) inst x w = (t', err, x', w')"
    using Recv_some [OF Some, of k applyCb x w] assms by metis
  show ?thesis
  proof (cases "renders t inst")
    case False
    then have "\<not> renders (t\<lparr>trAssembly := a\<rparr>) inst" by (simp add: renders_def)
    from accept_skip [OF this, of k applyCb x w] r skip [OF Some False]
    show ?thesis by (auto simp: ackedSender_def)
  next
    case True
    then have rt: "renders (t\<lparr>trAssembly := a\<rparr>) inst" by (simp add: renders_def)
    obtain y e where y: "(y, e) = (if Diff inst = [] then (x, None) else applyCb (Diff inst) x)" by (metis prod.collapse)
    show ?thesis
    proof (rule accept_render [OF rt, of y e x applyCb k w, OF y])
      fix v
      assume eq: "acceptInstruction k applyCb (t\<lparr>trAssembly := a\<rparr>) inst x w =
        (let t = (t\<lparr>trAssembly := a\<rparr>)\<lparr>trSender := ackedSender (trSender (t\<lparr>trAssembly := a\<rparr>)) inst (Diff inst \<noteq> []),
           remoteShutdown := remoteShutdown (t\<lparr>trAssembly := a\<rparr>) \<or> NewNum inst = ShutdownNum\<rparr>
         in if e = None then t\<lparr>trSender := SetAckNum (trSender t) (NewNum inst), latestNum := NewNum inst\<rparr> else t,
         e, y, v)"
      show ?thesis
      proof (cases e)
        case None
        then show ?thesis using eq r rendered [OF Some True, of a] y by (simp add: Let_def)
      next
        case e: (Some e')
        then have d: "Diff inst \<noteq> []" using y by (auto split: if_splits)
        then show ?thesis using eq r failed [OF Some True _ d, of e' a] e y by (simp add: Let_def)
      qed
    qed
  qed
qed

section \<open>A session\<close>

text \<open>
  The calls the client loop makes, in any order and any environment. \<open>G\<close> is the set of instructions
  the server sends: what arrives was sealed under the session key (\<open>Connection\<close>) and is assembled
  only from fragments of one instruction (\<open>Fragment\<close>).
\<close>

inductive tr_step ::
  "'c senderConn \<Rightarrow> (bytes \<Rightarrow> bytes) \<Rightarrow> (nat \<Rightarrow> bytes \<Rightarrow> bytes option) \<Rightarrow> (bytes \<Rightarrow> 'x \<Rightarrow> 'x \<times> error option) \<Rightarrow>
   (Instruction \<Rightarrow> bool) \<Rightarrow> Transport \<times> 'x \<Rightarrow> Transport \<times> 'x \<Rightarrow> bool"
  for k deflate inflate applyCb G where
  recv: "(\<forall>inst. yields inflate t payload = Some inst \<longrightarrow> G inst) \<Longrightarrow>
    Recv k inflate applyCb t payload x w = (t', err, x', w') \<Longrightarrow> tr_step k deflate inflate applyCb G (t, x) (t', x')"
| tick: "Tick k deflate (trSender t) w = Some (s', err, w') \<Longrightarrow>
    tr_step k deflate inflate applyCb G (t, x) (t\<lparr>trSender := s'\<rparr>, x)"
| wait: "tr_step k deflate inflate applyCb G (t, x) (t\<lparr>trSender := fst (WaitTime k (trSender t) now w)\<rparr>, x)"
| shutdown: "tr_step k deflate inflate applyCb G (t, x) (t\<lparr>trSender := fst (StartShutdown k (trSender t) w)\<rparr>, x)"
| keys: "tr_step k deflate inflate applyCb G (t, x) (setUserStream t (PushKeys (UserStream_of t) b), x)"
| resize: "tr_step k deflate inflate applyCb G (t, x) (setUserStream t (PushResize (UserStream_of t) width height), x)"

definition tr_inv :: "Transport \<Rightarrow> bool" where
  "tr_inv t \<longleftrightarrow> sender_inv (trSender t) \<and> ackNum (trSender t) = latestNum t"

lemma sender_inv_acked: "sender_inv s \<Longrightarrow> sender_inv (ackedSender s inst b)"
  using sender_inv_ack sender_inv_misc(2) by (simp add: ackedSender_def Let_def)

lemma tr_inv_Recv:
  assumes "Recv k inflate applyCb t payload x w = (t', err, x', w')" "tr_inv t"
  shows "tr_inv t' \<and> latestNum t \<le> latestNum t'"
  using assms(1)
proof (cases rule: Recv_outcome)
  case (rendered a inst)
  then show ?thesis
    using assms(2) sender_inv_acked sender_inv_misc(1) by (auto simp: tr_inv_def renders_def SetAckNum_def sender_inv_def)
qed (use assms(2) sender_inv_acked in \<open>auto simp: tr_inv_def\<close>)

lemma tr_inv_step:
  assumes "tr_step k deflate inflate applyCb G (t, x) (t', x')" "tr_inv t"
  shows "tr_inv t' \<and> latestNum t \<le> latestNum t'"
  using assms(1)
proof cases
  case (recv payload w err w')
  show ?thesis by (rule tr_inv_Recv [OF recv(2) assms(2)])
next
  case (tick w s' err w')
  then have "sender_inv s' \<and> ackNum s' = ackNum (trSender t)"
    using Tick_spec [OF tick(3)] assms(2) by (auto simp: tr_inv_def tick_result_def calculateTimers_fields)
  then show ?thesis using tick assms(2) by (simp add: tr_inv_def)
next
  case (wait now w)
  then show ?thesis using sender_inv_calculateTimers assms(2)
    by (auto simp: tr_inv_def WaitTime_def Let_def calculateTimers_fields)
next
  case (shutdown w)
  then show ?thesis using sender_inv_misc(3) assms(2)
    by (auto simp: tr_inv_def StartShutdown_def sender_inv_def Let_def split: prod.splits)
qed (use assms(2) sender_inv_push stream_prefix_Push in \<open>auto simp: tr_inv_def setUserStream_def UserStream_of_def State_def\<close>)

section \<open>Delivery of a fragmented instruction\<close>

fun recvAll ::
  "'c senderConn \<Rightarrow> (nat \<Rightarrow> bytes \<Rightarrow> bytes option) \<Rightarrow> (bytes \<Rightarrow> 'x \<Rightarrow> 'x \<times> error option) \<Rightarrow>
   Transport \<Rightarrow> bytes list \<Rightarrow> 'x \<Rightarrow> 'c \<Rightarrow> Transport \<times> error option list \<times> 'x \<times> 'c" where
  "recvAll k inflate applyCb t [] x w = (t, [], x, w)"
| "recvAll k inflate applyCb t (p # ps) x w =
     (let (t, e, x, w) = Transport.Recv k inflate applyCb t p x w; (t, es, x, w) = recvAll k inflate applyCb t ps x w
      in (t, e # es, x, w))"

lemma Recv_marshal_none:
  assumes "valid_fragment f" "add inflate (trAssembly t) f = (a, Inr None)"
  shows "Transport.Recv k inflate applyCb t (marshal f) x w = (t\<lparr>trAssembly := a\<rparr>, None, x, w)"
  using assms by (simp add: Transport.Recv_def recvInstruction_def frag.dec_enc)

lemma recvAll_quiet:
  assumes "\<forall>f\<in>set fs. valid_fragment f" "adds inflate (trAssembly t) fs = (a, replicate (length fs) (Inr None))"
  shows "recvAll k inflate applyCb t (map marshal fs @ ps) x w =
    (let (t, es, x, w) = recvAll k inflate applyCb (t\<lparr>trAssembly := a\<rparr>) ps x w in (t, replicate (length fs) None @ es, x, w))"
  using assms
proof (induction fs arbitrary: t)
  case Nil
  then have "t\<lparr>trAssembly := a\<rparr> = t" by simp
  then show ?case by (simp split: prod.splits)
next
  case (Cons f fs)
  obtain a1 r where a1: "add inflate (trAssembly t) f = (a1, r)" by fastforce
  obtain a2 rs where a2: "adds inflate a1 fs = (a2, rs)" by fastforce
  have "r = Inr None" "rs = replicate (length fs) (Inr None)" "a2 = a" using Cons.prems(2) a1 a2 by simp_all
  then show ?case
    using Cons.IH [of "t\<lparr>trAssembly := a1\<rparr>"] Cons.prems(1) a1 a2 Recv_marshal_none [of f inflate t a1 k applyCb x w]
    by (simp split: prod.splits)
qed

lemma Recv_marshal_inst:
  assumes "valid_fragment f" "add inflate (trAssembly t) f = (a, Inr (Some (Marshal inst)))"
    "wf_instruction inst" "ProtocolVersion inst = protocolVersion"
  shows "Transport.Recv k inflate applyCb t (marshal f) x w = acceptInstruction k applyCb (t\<lparr>trAssembly := a\<rparr>) inst x w"
  using assms by (simp add: Transport.Recv_def recvInstruction_def frag.dec_enc instruction.dec_enc)

lemma recvAll_made:
  assumes "zlib deflate inflate" "10 < mtu" "wf_instruction inst" "ProtocolVersion inst = protocolVersion"
    "length (Marshal inst) \<le> maxUncompressed"
    "int (length (deflate (Marshal inst))) < 2 ^ 15 * (mtu - 10)"
    "makeFragments deflate fr (Marshal inst) mtu = (fr', Some fs)"
    "\<not> haveID (trAssembly t) \<or> currentID (trAssembly t) \<noteq> nextID fr'"
    "set ks \<subset> {..<length fs}" "insert j (set ks) = {..<length fs}"
  shows "\<exists>a. \<not> haveID a \<and> recvAll k inflate applyCb t (map (\<lambda>i. marshal (fs ! i)) (ks @ [j])) x w =
    (let (t, e, x, w) = acceptInstruction k applyCb (t\<lparr>trAssembly := a\<rparr>) inst x w in (t, replicate (length ks) None @ [e], x, w))"
proof -
  obtain a where a: "adds inflate (trAssembly t) (map ((!) fs) (ks @ [j])) =
      (a, replicate (length ks) (Inr None) @ [Inr (Some (Marshal inst))])" "\<not> haveID a"
    using adds_made [OF assms(1,2,5,6,7,8,9,10)] by blast
  obtain a1 rs where a1: "adds inflate (trAssembly t) (map ((!) fs) ks) = (a1, rs)" by fastforce
  obtain a2 r where a2: "add inflate a1 (fs ! j) = (a2, r)" by fastforce
  have eq: "rs = replicate (length ks) (Inr None)" "r = Inr (Some (Marshal inst))" "a2 = a"
    using a(1) a1 a2 by (simp_all add: adds_append)
  have set: "fragment_set fs" by (rule fragment_set_made [OF assms(2,6,7)])
  have "i < length fs" if "i \<in> set ks \<or> i = j" for i using that assms(10) by blast
  then have v: "\<forall>f\<in>set (map ((!) fs) ks). valid_fragment f" "valid_fragment (fs ! j)"
    using fragment_set_valid [OF set nth_mem] by auto
  have "map (\<lambda>i. marshal (fs ! i)) (ks @ [j]) = map marshal (map ((!) fs) ks) @ [marshal (fs ! j)]" by simp
  then have "recvAll k inflate applyCb t (map (\<lambda>i. marshal (fs ! i)) (ks @ [j])) x w =
      (let (t, es, x, w) = recvAll k inflate applyCb (t\<lparr>trAssembly := a1\<rparr>) [marshal (fs ! j)] x w
       in (t, replicate (length ks) None @ es, x, w))"
    using recvAll_quiet [OF v(1), of inflate t a1 k applyCb "[marshal (fs ! j)]" x w] a1 eq(1) by (simp add: comp_def)
  also have "\<dots> = (let (t, e, x, w) = acceptInstruction k applyCb (t\<lparr>trAssembly := a\<rparr>) inst x w
       in (t, replicate (length ks) None @ [e], x, w))"
    using Recv_marshal_inst [OF v(2), of inflate "t\<lparr>trAssembly := a1\<rparr>" a inst k applyCb x w] a2 eq assms(3,4)
    by (simp split: prod.splits)
  finally show ?thesis using a(2) by blast
qed

section \<open>Claims\<close>

text \<open>What the server's instructions mean: \<open>S n\<close> is the screen of its state \<open>n\<close>, and an instruction
  carries what \<open>applyCb\<close> needs to get from one to the other.\<close>

definition server_diffs ::
  "(bytes \<Rightarrow> 'x \<Rightarrow> 'x \<times> error option) \<Rightarrow> (u64 \<Rightarrow> 'x) \<Rightarrow> (Instruction \<Rightarrow> bool) \<Rightarrow> bool" where
  "server_diffs applyCb S G \<longleftrightarrow>
     (\<forall>inst. G inst \<longrightarrow>
        (if Diff inst = [] then S (NewNum inst) = S (OldNum inst)
         else applyCb (Diff inst) (S (OldNum inst)) = (S (NewNum inst), None)))"

lemma screen_step:
  assumes "tr_step k deflate inflate applyCb G (t, x) (t', x')" "server_diffs applyCb S G" "x = S (latestNum t)"
  shows "x' = S (latestNum t')"
  using assms(1)
proof cases
  case (recv payload w err w')
  from recv(2) show ?thesis
  proof (cases rule: Recv_outcome)
    case (failed a inst e)
    then have "G inst" "OldNum inst = latestNum t" using recv(1) by (auto simp: renders_def)
    then show ?thesis using failed assms(2,3) by (auto simp: server_diffs_def)
  next
    case (rendered a inst)
    then have "G inst" "OldNum inst = latestNum t" using recv(1) by (auto simp: renders_def)
    then show ?thesis using rendered assms(2,3) by (auto simp: server_diffs_def split: if_splits)
  qed (use assms(3) in auto)
qed (use assms(3) in \<open>auto simp: setUserStream_def\<close>)

lemma tr_inv_New: "tr_inv (fst (New k w)) \<and> latestNum (fst (New k w)) = 0"
  using sender_inv_misc(4) [of k w]
  by (auto simp: tr_inv_def New_def newSender_def Let_def split: prod.splits)

text \<open>A concrete instruction in one fragment, and a screen that records what it is given.\<close>

definition paintInst :: Instruction where
  "paintInst = zeroInstruction\<lparr>ProtocolVersion := protocolVersion, NewNum := 1, Diff := [7]\<rparr>"

definition paintFragment :: fragment where
  "paintFragment = \<lparr>fragId = 1, fragNum = 0, final = True, contents = Marshal paintInst\<rparr>"

definition plainScreen :: "bytes \<Rightarrow> bytes \<Rightarrow> bytes \<times> error option" where
  "plainScreen d x = (x @ d, None)"

lemma wf_paintInst: "wf_instruction paintInst"
  by (simp add: wf_instruction_def paintInst_def zeroInstruction_def)

lemma length_paintInst: "length (Marshal paintInst) \<le> 400"
  by (simp add: paintInst_def zeroInstruction_def protocolVersion_def Marshal_def Let_def appendUint64Field_def
      appendBytesField_def appendTag_def appendVarint.simps wireVarint_def wireBytes_def)

lemma paint_made:
  "makeFragments (\<lambda>b. b) zeroFragmenter (Marshal paintInst) 472 =
     (\<lparr>nextID = 1, lastPayload = Marshal paintInst, lastMTU = 472\<rparr>, Some [paintFragment])"
  using length_paintInst
  by (simp add: makeFragments_def compress_def fragHeaderLen_def zeroFragmenter_def makeFragments_loop.simps
      paintFragment_def Let_def)

lemma paint_yields:
  "yields (\<lambda>n b. Some (take n b)) (fst (New steadyConn 0)) (marshal paintFragment) = Some paintInst"
proof -
  have v: "valid_fragment paintFragment" by (simp add: valid_fragment_def paintFragment_def)
  have "\<exists>a. add (\<lambda>n b. Some (take n b)) zeroAssembly paintFragment = (a, Inr (Some (Marshal paintInst)))"
    using length_paintInst
    by (simp add: add_def store_def pin_def zeroAssembly_def paintFragment_def uncompress_def maxUncompressed_def Let_def)
  moreover have "trAssembly (fst (New steadyConn 0)) = zeroAssembly"
    by (simp add: New_def Let_def split: prod.splits)
  ultimately show ?thesis
    using v wf_paintInst
    by (auto simp: yields_def recvInstruction_def frag.dec_enc instruction.dec_enc)
      (auto simp: paintInst_def)
qed

text \<open>C7: what is on the screen. In every session, under every interleaving of ticks, input and
  arriving datagrams, with the server's instructions lost, duplicated and reordered at will, the
  screen shows exactly the server's state of number \<open>latestNum\<close>: no diff is painted twice, none on
  a state it was not made for. And that number is the one the client acknowledges: it never
  acknowledges a state it has not shown.\<close>

theorem screen_is_server_state:
  assumes "server_diffs applyCb S G"
    and "(tr_step k deflate inflate applyCb G)\<^sup>*\<^sup>* (fst (New k w), S 0) (t, x)"
  shows "x = S (latestNum t) \<and> ackNum (trSender t) = latestNum t"
proof -
  have "snd q = S (latestNum (fst q)) \<and> tr_inv (fst q)"
    if "(tr_step k deflate inflate applyCb G)\<^sup>*\<^sup>* (fst (New k w), S 0) q" for q
    using that
  proof (induction rule: rtranclp_induct)
    case base
    then show ?case using tr_inv_New [of k w] by simp
  next
    case (step q r)
    then show ?case using screen_step [OF _ assms(1)] tr_inv_step by (metis prod.collapse)
  qed
  from this [OF assms(2)] show ?thesis by (simp add: tr_inv_def)
qed

lemma screen_is_server_state_witness:
  "\<exists>t. (tr_step steadyConn (\<lambda>b. b) (\<lambda>n b. Some (take n b)) plainScreen ((=) paintInst))\<^sup>*\<^sup>* (fst (New steadyConn 0), []) (t, [7]) \<and>
     latestNum t = 1 \<and> ackNum (trSender t) = 1"
proof -
  let ?t = "fst (New steadyConn 0)"
  let ?S = "\<lambda>n. if n = (1 :: u64) then [7 :: byte] else []"
  have srv: "server_diffs plainScreen ?S ((=) paintInst)"
    by (simp add: server_diffs_def plainScreen_def paintInst_def zeroInstruction_def)
  obtain t' err x' w' where r: "Transport.Recv steadyConn (\<lambda>n b. Some (take n b)) plainScreen ?t (marshal paintFragment) [] 0 = (t', err, x', w')"
    by (metis prod_cases4)
  have ren: "renders ?t paintInst" using tr_inv_New [of steadyConn 0]
    by (simp add: renders_def paintInst_def zeroInstruction_def)
  have "latestNum t' = NewNum paintInst \<and> x' = Diff paintInst"
    using r
  proof (cases rule: Recv_outcome)
    case (rendered a inst)
    then have "inst = paintInst" using paint_yields by simp
    then show ?thesis using rendered by (auto simp: plainScreen_def split: if_splits)
  qed (use ren paint_yields in \<open>auto simp: plainScreen_def\<close>)
  then have t': "latestNum t' = 1" "x' = [7]" by (simp_all add: paintInst_def)
  have run: "(tr_step steadyConn (\<lambda>b. b) (\<lambda>n b. Some (take n b)) plainScreen ((=) paintInst))\<^sup>*\<^sup>* (?t, ?S 0) (t', x')"
    using tr_step.recv [OF _ r, of "(=) paintInst" "\<lambda>b. b"] paint_yields by auto
  then show ?thesis using screen_is_server_state [OF srv run] t' by auto
qed

text \<open>C40: An error changes nothing that is acknowledged. Whatever error \<open>Recv\<close> returns, the state on
  record and the acknowledgment are as before, so that the server repeats the diff. A payload that
  is no complete instruction of the right protocol version touches nothing but the assembly.\<close>

theorem recv_errors:
  assumes "Transport.Recv k inflate applyCb t payload x w = (t', Some e, x', w')" "tr_inv t"
  shows "latestNum t' = latestNum t \<and> ackNum (trSender t') = ackNum (trSender t) \<and>
    (yields inflate t payload = None \<longrightarrow>
       x' = x \<and> trSender t' = trSender t \<and> remoteShutdown t' = remoteShutdown t)"
  using assms(1) by (cases rule: Recv_outcome) auto

lemma recv_errors_witness:
  "\<exists>t' e x' w'. Transport.Recv steadyConn (\<lambda>n b. None) plainScreen (fst (New steadyConn 0)) [1, 2] [] 0 = (t', Some e, x', w') \<and>
     latestNum t' = 0 \<and> x' = []"
proof -
  let ?t = "fst (New steadyConn 0)"
  have p: "parseFragment [1, 2] = Inl ErrShortFragment" by (simp add: parseFragment_def fragHeaderLen_def)
  obtain t' w' where r: "Transport.Recv steadyConn (\<lambda>n b. None) plainScreen ?t [1, 2] [] 0 = (t', Some ErrShortFragment, [], w')"
    by (simp add: Transport.Recv_def recvInstruction_def p)
  show ?thesis using recv_errors [OF r] tr_inv_New [of steadyConn 0] r by auto
qed

text \<open>C8: one instruction, end to end. Cut into fragments that arrive in any order, any of them
  repeatedly, an instruction against the screen is rendered when the last missing fragment
  arrives, is acknowledged, and no delivery is an error; when all of them arrive again, nothing is
  painted and nothing changes.\<close>

theorem instruction_rendered_once:
  assumes "zlib deflate inflate" "10 < mtu" "wf_instruction inst" "ProtocolVersion inst = protocolVersion"
    and "length (Marshal inst) \<le> maxUncompressed"
    and "int (length (deflate (Marshal inst))) < 2 ^ 15 * (mtu - 10)"
    and "makeFragments deflate fr (Marshal inst) mtu = (fr', Some fs)"
    and "\<not> haveID (trAssembly t) \<or> currentID (trAssembly t) \<noteq> nextID fr'"
    and "set ks \<subset> {..<length fs}" "insert j (set ks) = {..<length fs}"
    and "tr_inv t" "renders t inst" "applyCb (Diff inst) x = (x', None)" "Diff inst \<noteq> []"
  shows "\<exists>t' w' t'' w''.
    recvAll k inflate applyCb t (map (\<lambda>i. marshal (fs ! i)) (ks @ [j])) x w =
      (t', replicate (length ks + 1) None, x', w') \<and>
    latestNum t' = NewNum inst \<and> ackNum (trSender t') = NewNum inst \<and>
    recvAll k inflate applyCb t' (map (\<lambda>i. marshal (fs ! i)) (ks @ [j])) x' w' =
      (t'', replicate (length ks + 1) None, x', w'') \<and> latestNum t'' = NewNum inst"
proof -
  have rep: "replicate (length ks) None @ [None :: error option] = replicate (length ks + 1) None"
    unfolding Suc_eq_plus1 [symmetric] replicate_Suc replicate_append_same ..
  obtain a where a: "\<not> haveID a" "recvAll k inflate applyCb t (map (\<lambda>i. marshal (fs ! i)) (ks @ [j])) x w =
    (let (t, e, x, w) = acceptInstruction k applyCb (t\<lparr>trAssembly := a\<rparr>) inst x w in (t, replicate (length ks) None @ [e], x, w))"
    using recvAll_made [OF assms(1-10), of k applyCb x w] by blast
  have "renders (t\<lparr>trAssembly := a\<rparr>) inst" using assms(12) by (simp add: renders_def)
  then obtain w' where w': "acceptInstruction k applyCb (t\<lparr>trAssembly := a\<rparr>) inst x w =
      (let t = t\<lparr>trAssembly := a, trSender := ackedSender (trSender t) inst True,
               remoteShutdown := remoteShutdown t \<or> NewNum inst = ShutdownNum\<rparr>
       in t\<lparr>trSender := SetAckNum (trSender t) (NewNum inst), latestNum := NewNum inst\<rparr>, None, x', w')"
    using accept_render [of "t\<lparr>trAssembly := a\<rparr>" inst x' None x applyCb k w] assms(13,14)
    by (auto simp: Let_def)
  define t' where "t' = (let t = t\<lparr>trAssembly := a, trSender := ackedSender (trSender t) inst True,
               remoteShutdown := remoteShutdown t \<or> NewNum inst = ShutdownNum\<rparr>
       in t\<lparr>trSender := SetAckNum (trSender t) (NewNum inst), latestNum := NewNum inst\<rparr>)"
  have t': "latestNum t' = NewNum inst" "ackNum (trSender t') = NewNum inst" "\<not> haveID (trAssembly t')"
    using assms(11,12) a(1) by (auto simp: t'_def Let_def SetAckNum_def tr_inv_def renders_def)
  obtain b where b: "recvAll k inflate applyCb t' (map (\<lambda>i. marshal (fs ! i)) (ks @ [j])) x' w' =
    (let (t, e, x, w) = acceptInstruction k applyCb (t'\<lparr>trAssembly := b\<rparr>) inst x' w' in (t, replicate (length ks) None @ [e], x, w))"
    using recvAll_made [OF assms(1-7) _ assms(9,10), of t' k applyCb x' w'] t'(3) by blast
  have "\<not> renders (t'\<lparr>trAssembly := b\<rparr>) inst" using t'(1) by (simp add: renders_def)
  then obtain w'' where "acceptInstruction k applyCb (t'\<lparr>trAssembly := b\<rparr>) inst x' w' =
      (t'\<lparr>trAssembly := b, trSender := ProcessAcknowledgmentThrough (trSender t') (AckNum inst),
         remoteShutdown := remoteShutdown t' \<or> NewNum inst = ShutdownNum\<rparr>, None, x', w'')"
    using accept_skip [of "t'\<lparr>trAssembly := b\<rparr>" inst k applyCb x' w'] by auto
  then show ?thesis
    using a(2) w' b t' unfolding t'_def [symmetric] by (simp add: rep)
qed

lemma instruction_rendered_once_witness:
  "\<exists>t' w'. recvAll steadyConn (\<lambda>n b. Some (take n b)) plainScreen (fst (New steadyConn 0))
     [marshal paintFragment] [] 0 = (t', [None], [7], w') \<and> latestNum t' = 1"
proof -
  let ?t = "fst (New steadyConn 0)"
  have z: "zlib (\<lambda>b. b) (\<lambda>n b. Some (take n b))" by (simp add: zlib_def)
  have l: "length (Marshal paintInst) \<le> maxUncompressed" "int (length (Marshal paintInst)) < 2 ^ 15 * (472 - 10)"
    using length_paintInst by (simp_all add: maxUncompressed_def)
  have t: "\<not> haveID (trAssembly ?t)" by (simp add: New_def zeroAssembly_def Let_def split: prod.splits)
  have r: "renders ?t paintInst" using tr_inv_New [of steadyConn 0]
    by (simp add: renders_def paintInst_def zeroInstruction_def)
  have "\<exists>t' w' t'' w''.
    recvAll steadyConn (\<lambda>n b. Some (take n b)) plainScreen ?t (map (\<lambda>i. marshal ([paintFragment] ! i)) ([] @ [0])) [] 0 =
      (t', replicate (length ([] :: nat list) + 1) None, [7], w') \<and>
    latestNum t' = NewNum paintInst \<and> ackNum (trSender t') = NewNum paintInst \<and>
    recvAll steadyConn (\<lambda>n b. Some (take n b)) plainScreen t' (map (\<lambda>i. marshal ([paintFragment] ! i)) ([] @ [0])) [7] w' =
      (t'', replicate (length ([] :: nat list) + 1) None, [7], w'') \<and> latestNum t'' = NewNum paintInst"
    by (rule instruction_rendered_once [OF z _ wf_paintInst _ l paint_made, where t = ?t])
      (use t r tr_inv_New [of steadyConn 0] in \<open>auto simp: paintInst_def plainScreen_def\<close>)
  then show ?thesis by (auto simp: paintInst_def)
qed

end
