(* ===== verification/Osc52.thy ===== *)
theory Osc52
  imports Gosh_Prelude "HOL-Library.Sublist"
begin

text \<open>
  Package \<^verbatim>\<open>internal/osc52\<close>: the streaming clipboard filter. \<open>Filter_loop\<close> is the loop of
  \<^verbatim>\<open>Filter.Filter\<close> (its iterations that do not advance the cursor included), \<open>Flush\<close>,
  \<open>FilterChunk\<close>, \<open>emit\<close> and the other methods follow the source. The reference semantics is
  \<open>feed\<close>, a transducer that reads one byte at a time; the loop is shown to implement it.

  \<^verbatim>\<open>reset\<close> also drops an over-sized backing array; capacities are not part of the model.
\<close>

section \<open>The filter\<close>

datatype Policy = Write | Full | Off

text \<open>The order of the policies by what they permit.\<close>

fun permits :: "Policy \<Rightarrow> nat" where
  "permits Off = 0"
| "permits Write = 1"
| "permits Full = 2"

instantiation Policy :: linorder
begin

definition less_eq_Policy :: "Policy \<Rightarrow> Policy \<Rightarrow> bool" where
  "less_eq_Policy p q \<longleftrightarrow> permits p \<le> permits q"

definition less_Policy :: "Policy \<Rightarrow> Policy \<Rightarrow> bool" where
  "less_Policy p q \<longleftrightarrow> permits p < permits q"

instance
proof
  fix p q r :: Policy
  show "p \<le> q \<Longrightarrow> q \<le> p \<Longrightarrow> p = q" by (cases p; cases q) (simp_all add: less_eq_Policy_def)
qed (auto simp: less_eq_Policy_def less_Policy_def)

end

definition ParsePolicy :: "string \<Rightarrow> string + Policy" where
  "ParsePolicy s =
     (if s = ''write'' then Inr Write
      else if s = ''full'' then Inr Full
      else if s = ''off'' then Inr Off
      else Inl s)"

definition PolicyString :: "Policy \<Rightarrow> string" where
  "PolicyString p = (case p of Full \<Rightarrow> ''full'' | Off \<Rightarrow> ''off'' | Write \<Rightarrow> ''write'')"

definition esc :: byte where "esc = 0x1B"
definition bel :: byte where "bel = 0x07"
definition can :: byte where "can = 0x18"
definition sub :: byte where "sub = 0x1A"

definition bracket :: byte where "bracket = 0x5D"
definition semicolon :: byte where "semicolon = 0x3B"
definition backslash :: byte where "backslash = 0x5C"
definition question :: byte where "question = 0x3F"

definition oscNumber :: int where "oscNumber = 52"
definition maxDigits :: nat where "maxDigits = 8"
definition maxSequence :: nat where "maxSequence = 65536"

datatype fstate = stText | stEsc | stPrefix | stBody | stBodyEsc

record Filter =
  policy :: Policy
  state :: fstate
  buf :: bytes
  oscnum :: int
  digits :: nat
  dropping :: bool

definition New :: "Policy \<Rightarrow> Filter" where
  "New p = \<lparr>policy = p, state = stText, buf = [], oscnum = 0, digits = 0, dropping = False\<rparr>"

fun IndexByte :: "bytes \<Rightarrow> byte \<Rightarrow> nat option" where
  "IndexByte [] c = None"
| "IndexByte (b # bs) c = (if b = c then Some 0 else map_option Suc (IndexByte bs c))"

definition reset :: "Filter \<Rightarrow> Filter" where
  "reset f = f\<lparr>buf := [], state := stText, dropping := False\<rparr>"

definition release :: "Filter \<Rightarrow> bytes \<Rightarrow> Filter \<times> bytes" where
  "release f dst = (reset f, dst @ buf f)"

definition discard :: "Filter \<Rightarrow> Filter" where
  "discard f = reset f"

definition appendSequence :: "bytes \<Rightarrow> bytes option \<Rightarrow> bytes \<Rightarrow> byte \<Rightarrow> bytes" where
  "appendSequence dst pc pd trm =
     (let dst = dst @ [esc, bracket, 0x35, 0x32, semicolon];
          dst = (case pc of None \<Rightarrow> dst | Some pc \<Rightarrow> dst @ pc @ [semicolon]);
          dst = dst @ pd
      in if trm = esc then dst @ [esc, backslash] else dst @ [bel])"

definition emit :: "Filter \<Rightarrow> bytes \<Rightarrow> byte \<Rightarrow> Filter \<times> bytes" where
  "emit f dst trm =
     (reset f,
      if dropping f \<or> policy f = Off then dst
      else
        let body = drop 2 (buf f);
            body = (case IndexByte body semicolon of None \<Rightarrow> body | Some i \<Rightarrow> drop (i + 1) body)
        in case IndexByte body semicolon of
             None \<Rightarrow> appendSequence dst None body trm
           | Some sep \<Rightarrow>
               let pc = take sep body; pd = drop (sep + 1) body
               in if pd = [question] then
                    (if policy f = Full then appendSequence dst (Some pc) pd trm else dst)
                  else
                    let pc = (if pc = [] then [0x63] else pc)
                    in appendSequence dst (Some pc) pd trm)"

text \<open>Iterations that leave the cursor in place lower the rank of the state.\<close>

fun rank :: "Filter \<Rightarrow> nat" where
  "rank f = (case state f of stText \<Rightarrow> 0 | stEsc \<Rightarrow> 1 | stPrefix \<Rightarrow> 1
     | stBody \<Rightarrow> (if dropping f then 0 else 1) | stBodyEsc \<Rightarrow> 2)"

definition is_digit :: "byte \<Rightarrow> bool" where
  "is_digit c \<longleftrightarrow> 0x30 \<le> c \<and> c \<le> 0x39"

function Filter_loop :: "Filter \<Rightarrow> bytes \<Rightarrow> bytes \<Rightarrow> Filter \<times> bytes" where
  "Filter_loop f dst src =
     (case src of
        [] \<Rightarrow> (f, dst)
      | c # rest \<Rightarrow>
          (case state f of
             stText \<Rightarrow>
               (case IndexByte src esc of
                  None \<Rightarrow> (f, dst @ src)
                | Some n \<Rightarrow>
                    Filter_loop (f\<lparr>buf := [esc], state := stEsc\<rparr>) (dst @ take n src)
                      (drop (n + 1) src))
           | stEsc \<Rightarrow>
               if c = bracket then
                 Filter_loop (f\<lparr>buf := buf f @ [c], oscnum := 0, digits := 0, state := stPrefix\<rparr>)
                   dst rest
               else Filter_loop (fst (release f dst)) (snd (release f dst)) src
           | stPrefix \<Rightarrow>
               if is_digit c \<and> digits f < maxDigits then
                 Filter_loop (f\<lparr>oscnum := oscnum f * 10 + int (unat (c - 0x30)),
                     digits := digits f + 1, buf := buf f @ [c]\<rparr>) dst rest
               else if c = semicolon \<and> 0 < digits f \<and> oscnum f = oscNumber then
                 Filter_loop (f\<lparr>buf := buf f @ [c], state := stBody\<rparr>) dst rest
               else Filter_loop (fst (release f dst)) (snd (release f dst)) src
           | stBody \<Rightarrow>
               if c = bel then Filter_loop (fst (emit f dst bel)) (snd (emit f dst bel)) rest
               else if c = esc then Filter_loop (f\<lparr>state := stBodyEsc\<rparr>) dst rest
               else if c = can \<or> c = sub then Filter_loop (discard f) dst rest
               else if \<not> dropping f \<and> maxSequence \<le> length (buf f) then
                 Filter_loop (f\<lparr>dropping := True, buf := []\<rparr>) dst src
               else
                 Filter_loop (if dropping f then f else f\<lparr>buf := buf f @ [c]\<rparr>) dst rest
           | stBodyEsc \<Rightarrow>
               if c = backslash then Filter_loop (fst (emit f dst esc)) (snd (emit f dst esc)) rest
               else Filter_loop ((discard f)\<lparr>buf := [esc], state := stEsc\<rparr>) dst src))"
  by pat_completeness auto
termination
  by (relation "measures [\<lambda>(f, dst, src). length src, \<lambda>(f, dst, src). rank f]")
    (auto simp: release_def reset_def discard_def emit_def)

definition Filter_bytes :: "Filter \<Rightarrow> bytes \<Rightarrow> bytes \<Rightarrow> Filter \<times> bytes" where
  "Filter_bytes f dst src = Filter_loop f dst src"

definition Flush :: "Filter \<Rightarrow> bytes \<Rightarrow> Filter \<times> bytes" where
  "Flush f dst =
     (if state f = stText then (f, dst)
      else if dropping f then (discard f, dst)
      else let f = (if state f = stBodyEsc then f\<lparr>buf := buf f @ [esc]\<rparr> else f)
           in release f dst)"

definition FilterChunk :: "Filter \<Rightarrow> bytes \<Rightarrow> bytes \<Rightarrow> Filter \<times> bytes" where
  "FilterChunk f dst src = (case Filter_bytes f dst src of (f, dst) \<Rightarrow> Flush f dst)"

declare Filter_loop.simps [simp del]

section \<open>The reference transducer\<close>

definition feedText :: "Filter \<Rightarrow> byte \<Rightarrow> Filter \<times> bytes" where
  "feedText f c = (if c = esc then (f\<lparr>buf := [esc], state := stEsc\<rparr>, []) else (f, [c]))"

definition feedEsc :: "Filter \<Rightarrow> byte \<Rightarrow> Filter \<times> bytes" where
  "feedEsc f c =
     (if c = bracket then
        (f\<lparr>buf := buf f @ [c], oscnum := 0, digits := 0, state := stPrefix\<rparr>, [])
      else (case feedText (reset f) c of (g, out) \<Rightarrow> (g, buf f @ out)))"

definition feedPrefix :: "Filter \<Rightarrow> byte \<Rightarrow> Filter \<times> bytes" where
  "feedPrefix f c =
     (if is_digit c \<and> digits f < maxDigits then
        (f\<lparr>oscnum := oscnum f * 10 + int (unat (c - 0x30)), digits := digits f + 1,
           buf := buf f @ [c]\<rparr>, [])
      else if c = semicolon \<and> 0 < digits f \<and> oscnum f = oscNumber then
        (f\<lparr>buf := buf f @ [c], state := stBody\<rparr>, [])
      else (case feedText (reset f) c of (g, out) \<Rightarrow> (g, buf f @ out)))"

definition feedBody :: "Filter \<Rightarrow> byte \<Rightarrow> Filter \<times> bytes" where
  "feedBody f c =
     (if c = bel then emit f [] bel
      else if c = esc then (f\<lparr>state := stBodyEsc\<rparr>, [])
      else if c = can \<or> c = sub then (reset f, [])
      else if dropping f then (f, [])
      else if maxSequence \<le> length (buf f) then (f\<lparr>dropping := True, buf := []\<rparr>, [])
      else (f\<lparr>buf := buf f @ [c]\<rparr>, []))"

definition feed :: "Filter \<Rightarrow> byte \<Rightarrow> Filter \<times> bytes" where
  "feed f c =
     (case state f of
        stText \<Rightarrow> feedText f c
      | stEsc \<Rightarrow> feedEsc f c
      | stPrefix \<Rightarrow> feedPrefix f c
      | stBody \<Rightarrow> feedBody f c
      | stBodyEsc \<Rightarrow>
          if c = backslash then emit f [] esc
          else feedEsc ((reset f)\<lparr>buf := [esc], state := stEsc\<rparr>) c)"

fun feeds :: "Filter \<Rightarrow> bytes \<Rightarrow> Filter \<times> bytes" where
  "feeds f [] = (f, [])"
| "feeds f (c # cs) =
     (case feed f c of (g, out) \<Rightarrow> case feeds g cs of (h, out') \<Rightarrow> (h, out @ out'))"

section \<open>The loop implements the transducer\<close>

lemma appendSequence_dst: "appendSequence dst pc pd trm = dst @ appendSequence [] pc pd trm"
  by (simp add: appendSequence_def Let_def split: option.splits)

lemma emit_dst: "emit f dst trm = (fst (emit f [] trm), dst @ snd (emit f [] trm))"
  by (auto simp: emit_def Let_def appendSequence_dst [of dst] split: option.splits)

lemma feeds_append:
  "feeds f (xs @ ys) = (case feeds f xs of (g, out) \<Rightarrow> case feeds g ys of (h, out') \<Rightarrow> (h, out @ out'))"
  by (induction xs arbitrary: f) (simp_all split: prod.splits)

lemma feeds_text:
  "state f = stText \<Longrightarrow> esc \<notin> set xs \<Longrightarrow> feeds f xs = (f, xs)"
  by (induction xs) (auto simp: feed_def feedText_def)

lemma IndexByte_None: "IndexByte xs c = None \<longleftrightarrow> c \<notin> set xs"
  by (induction xs) auto

lemma IndexByte_Some:
  "IndexByte xs c = Some n \<Longrightarrow> xs = take n xs @ c # drop (Suc n) xs \<and> c \<notin> set (take n xs)"
proof (induction xs arbitrary: n)
  case (Cons x xs)
  then show ?case by (cases n) (auto split: if_splits)
qed simp

lemma IndexByte_less: "IndexByte xs c = Some n \<Longrightarrow> n < length xs"
  by (induction xs arbitrary: n) (auto split: if_splits)

lemma feeds_unread:
  assumes "feed f c = (case feed g c of (h, out) \<Rightarrow> (h, o1 @ out))"
  shows "feeds f (c # cs) = (case feeds g (c # cs) of (h, out) \<Rightarrow> (h, o1 @ out))"
  using assms by (simp split: prod.splits)

lemma rank_le: "rank f \<le> 2"
  by (simp split: fstate.splits)

text \<open>
  The iterations that consume a byte do what \<open>feed\<close> does; those that read it again in a lower
  state \<open>g\<close> leave \<open>feed\<close> unchanged, the bytes they release in front.
\<close>

definition eats :: "Filter \<Rightarrow> byte \<Rightarrow> bool" where
  "eats f c \<longleftrightarrow> (\<forall>dst cs. Filter_loop f dst (c # cs)
     = Filter_loop (fst (feed f c)) (dst @ snd (feed f c)) cs)"

definition rereads :: "Filter \<Rightarrow> byte \<Rightarrow> Filter \<Rightarrow> bytes \<Rightarrow> bool" where
  "rereads f c g out \<longleftrightarrow> (\<forall>dst cs. Filter_loop f dst (c # cs) = Filter_loop g (dst @ out) (c # cs))
     \<and> rank g < rank f \<and> feed f c = (case feed g c of (h, o1) \<Rightarrow> (h, out @ o1))"

lemma Filter_loop_Esc:
  "state f = stEsc \<Longrightarrow> Filter_loop f dst (c # cs) =
     (if c = bracket then
        Filter_loop (f\<lparr>buf := buf f @ [c], oscnum := 0, digits := 0, state := stPrefix\<rparr>) dst cs
      else Filter_loop (reset f) (dst @ buf f) (c # cs))"
  by (subst Filter_loop.simps) (simp add: release_def)

lemma Filter_loop_Prefix:
  "state f = stPrefix \<Longrightarrow> Filter_loop f dst (c # cs) =
     (if is_digit c \<and> digits f < maxDigits then
        Filter_loop (f\<lparr>oscnum := oscnum f * 10 + int (unat (c - 0x30)), digits := digits f + 1,
          buf := buf f @ [c]\<rparr>) dst cs
      else if c = semicolon \<and> 0 < digits f \<and> oscnum f = oscNumber then
        Filter_loop (f\<lparr>buf := buf f @ [c], state := stBody\<rparr>) dst cs
      else Filter_loop (reset f) (dst @ buf f) (c # cs))"
  by (subst Filter_loop.simps) (simp only: list.case fstate.case release_def fst_conv snd_conv)

lemma Filter_loop_Body:
  "state f = stBody \<Longrightarrow> Filter_loop f dst (c # cs) =
     (if c = bel then Filter_loop (fst (emit f [] bel)) (dst @ snd (emit f [] bel)) cs
      else if c = esc then Filter_loop (f\<lparr>state := stBodyEsc\<rparr>) dst cs
      else if c = can \<or> c = sub then Filter_loop (reset f) dst cs
      else if \<not> dropping f \<and> maxSequence \<le> length (buf f) then
        Filter_loop (f\<lparr>dropping := True, buf := []\<rparr>) dst (c # cs)
      else Filter_loop (if dropping f then f else f\<lparr>buf := buf f @ [c]\<rparr>) dst cs)"
  by (subst Filter_loop.simps, subst (1 2) emit_dst) (simp add: discard_def)

lemma Filter_loop_BodyEsc:
  "state f = stBodyEsc \<Longrightarrow> Filter_loop f dst (c # cs) =
     (if c = backslash then Filter_loop (fst (emit f [] esc)) (dst @ snd (emit f [] esc)) cs
      else Filter_loop ((reset f)\<lparr>buf := [esc], state := stEsc\<rparr>) dst (c # cs))"
  by (subst Filter_loop.simps, subst (3 4) emit_dst) (simp add: discard_def)

lemma step_Esc:
  assumes "state f = stEsc"
  shows "if c = bracket then eats f c else rereads f c (reset f) (buf f)"
proof -
  have "state (reset f) = stText" by (simp add: reset_def)
  then show ?thesis
    using assms by (simp add: eats_def rereads_def Filter_loop_Esc feed_def feedEsc_def)
qed

lemma step_Prefix:
  assumes "state f = stPrefix"
  shows "if is_digit c \<and> digits f < maxDigits
      \<or> c = semicolon \<and> 0 < digits f \<and> oscnum f = oscNumber
    then eats f c else rereads f c (reset f) (buf f)"
proof -
  have "state (reset f) = stText" by (simp add: reset_def)
  moreover consider "is_digit c \<and> digits f < maxDigits"
    | "\<not> (is_digit c \<and> digits f < maxDigits)" "c = semicolon \<and> 0 < digits f \<and> oscnum f = oscNumber"
    | "\<not> (is_digit c \<and> digits f < maxDigits)" "\<not> (c = semicolon \<and> 0 < digits f \<and> oscnum f = oscNumber)"
    by blast
  then show ?thesis
    using assms calculation
    by cases (simp_all only: eats_def rereads_def Filter_loop_Prefix [OF assms] feed_def
        feedPrefix_def rank.simps fstate.case if_True if_False fst_conv snd_conv simp_thms, auto)
qed

lemma step_Body:
  assumes "state f = stBody"
  shows "if c \<noteq> bel \<and> c \<noteq> esc \<and> c \<noteq> can \<and> c \<noteq> sub \<and> \<not> dropping f \<and> maxSequence \<le> length (buf f)
    then rereads f c (f\<lparr>dropping := True, buf := []\<rparr>) [] else eats f c"
  using assms by (simp add: eats_def rereads_def Filter_loop_Body feed_def feedBody_def)

lemma step_BodyEsc:
  assumes "state f = stBodyEsc"
  shows "if c = backslash then eats f c
    else rereads f c ((reset f)\<lparr>buf := [esc], state := stEsc\<rparr>) []"
  using assms by (simp add: eats_def rereads_def Filter_loop_BodyEsc feed_def)

lemma Filter_loop_step:
  assumes "state f \<noteq> stText"
  shows "eats f c \<or> (\<exists>g out. rereads f c g out)"
  using assms step_Esc [of f c] step_Prefix [of f c] step_Body [of f c] step_BodyEsc [of f c]
  by (cases "state f") (auto split: if_splits)

lemma Filter_loop_text:
  assumes "state f = stText"
  shows "Filter_loop f dst src =
    (case IndexByte src esc of
       None \<Rightarrow> (f, dst @ src)
     | Some n \<Rightarrow> Filter_loop (f\<lparr>buf := [esc], state := stEsc\<rparr>) (dst @ take n src) (drop (n + 1) src))"
  using assms by (subst Filter_loop.simps) (cases src; simp)

lemma feeds_text_esc:
  assumes "state f = stText" "IndexByte src esc = Some n"
  shows "feeds f src = (case feeds (f\<lparr>buf := [esc], state := stEsc\<rparr>) (drop (Suc n) src)
    of (h, out) \<Rightarrow> (h, take n src @ out))"
proof -
  note sp = IndexByte_Some [OF assms(2)]
  have "feeds f src = feeds f (take n src @ esc # drop (Suc n) src)"
    using sp by simp
  also have "\<dots> = (case feeds (f\<lparr>buf := [esc], state := stEsc\<rparr>) (drop (Suc n) src)
    of (h, out) \<Rightarrow> (h, take n src @ out))"
    unfolding feeds_append using feeds_text [OF assms(1), of "take n src"] sp assms(1)
    by (simp add: feed_def feedText_def split: prod.splits)
  finally show ?thesis .
qed

lemma Filter_loop_feeds:
  "Filter_loop f dst src = (case feeds f src of (g, out) \<Rightarrow> (g, dst @ out))"
proof (induction "3 * length src + rank f" arbitrary: f dst src rule: less_induct)
  case less
  show ?case
  proof (cases src)
    case Nil
    then show ?thesis by (simp add: Filter_loop.simps)
  next
    case (Cons c cs)
    consider (plain) "state f = stText" | (eat) "eats f c" | (reread) g out where "rereads f c g out"
      using Filter_loop_step by blast
    then show ?thesis
    proof cases
      case plain
      show ?thesis
      proof (cases "IndexByte src esc")
        case None
        then show ?thesis
          using plain feeds_text [of f src]
          by (simp add: Filter_loop_text) (simp add: IndexByte_None)
      next
        case (Some n)
        let ?g = "f\<lparr>buf := [esc], state := stEsc\<rparr>"
        have "n < length src" using IndexByte_less [OF Some] .
        then have "Filter_loop ?g (dst @ take n src) (drop (Suc n) src) =
          (case feeds ?g (drop (Suc n) src) of (h, out) \<Rightarrow> (h, (dst @ take n src) @ out))"
          using rank_le [of ?g] by (intro less.hyps) auto
        then show ?thesis
          using plain Some by (simp add: Filter_loop_text feeds_text_esc split: prod.splits)
      qed
    next
      case eat
      obtain g out where g: "feed f c = (g, out)" by force
      have "Filter_loop g (dst @ out) cs = (case feeds g cs of (h, o1) \<Rightarrow> (h, (dst @ out) @ o1))"
        using Cons rank_le [of g] by (intro less.hyps) simp
      then show ?thesis
        using eat Cons g by (simp add: eats_def split: prod.splits)
    next
      case reread
      have "Filter_loop g (dst @ out) src = (case feeds g src of (h, o1) \<Rightarrow> (h, (dst @ out) @ o1))"
        using reread by (intro less.hyps) (simp add: rereads_def)
      moreover have "feeds f src = (case feeds g src of (h, o1) \<Rightarrow> (h, out @ o1))"
        using reread feeds_unread [where f = f and c = c and g = g and ?o1.0 = out and cs = cs] Cons by (simp only: rereads_def)
      ultimately show ?thesis
        using reread Cons by (simp add: rereads_def split: prod.splits)
    qed
  qed
qed

section \<open>Introducers\<close>

text \<open>
  What the filter recognizes: \<^verbatim>\<open>ESC ]\<close>, one to eight digits of value 52, a semicolon. A
  \<^emph>\<open>dangling\<close> list ends in a proper prefix of such an introducer; an \<^emph>\<open>interrupted\<close> one has
  such a prefix directly followed by \<^verbatim>\<open>ESC\<close>.
\<close>

definition dec_value :: "bytes \<Rightarrow> int" where
  "dec_value ds = foldl (\<lambda>n c. n * 10 + int (unat (c - 0x30))) 0 ds"

definition osc52_digits :: "bytes \<Rightarrow> bool" where
  "osc52_digits ds \<longleftrightarrow>
     list_all is_digit ds \<and> 0 < length ds \<and> length ds \<le> maxDigits \<and> dec_value ds = oscNumber"

fun starts_introducer :: "bytes \<Rightarrow> bool" where
  "starts_introducer (e # r # xs) \<longleftrightarrow>
     e = esc \<and> r = bracket \<and> osc52_digits (takeWhile is_digit xs) \<and>
     (case dropWhile is_digit xs of [] \<Rightarrow> False | c # _ \<Rightarrow> c = semicolon)"
| "starts_introducer _ \<longleftrightarrow> False"

definition has_introducer :: "bytes \<Rightarrow> bool" where
  "has_introducer xs \<longleftrightarrow> list_ex starts_introducer (suffixes xs)"

definition partial_introducer :: "bytes \<Rightarrow> bool" where
  "partial_introducer p \<longleftrightarrow>
     p = [esc] \<or> (take 2 p = [esc, bracket] \<and> list_all is_digit (drop 2 p) \<and>
       length (drop 2 p) \<le> maxDigits)"

definition dangling :: "bytes \<Rightarrow> bool" where
  "dangling xs \<longleftrightarrow> list_ex partial_introducer (suffixes xs)"

definition interrupted :: "bytes \<Rightarrow> bool" where
  "interrupted xs \<longleftrightarrow>
     list_ex (\<lambda>i. xs ! i = esc \<and> dangling (take i xs)) [0..<length xs]"

lemma byte_facts [simp]:
  "\<not> is_digit esc" "\<not> is_digit bracket" "\<not> is_digit semicolon" "esc \<noteq> bracket" "bracket \<noteq> esc"
  "esc \<noteq> semicolon" "semicolon \<noteq> esc" "bracket \<noteq> semicolon" "semicolon \<noteq> bracket"
  "bel \<noteq> esc" "esc \<noteq> bel" "backslash \<noteq> bracket" "esc \<noteq> backslash" "backslash \<noteq> esc"
  by (simp_all add: is_digit_def esc_def bracket_def semicolon_def bel_def backslash_def)

lemma digits_no [simp]:
  "list_all is_digit ds \<Longrightarrow> semicolon \<notin> set ds" "list_all is_digit ds \<Longrightarrow> esc \<notin> set ds"
  by (auto simp: list_all_iff)

lemma takeWhile_digits:
  assumes "list_all is_digit ds"
  shows "takeWhile is_digit (ds @ semicolon # b) = ds"
    "dropWhile is_digit (ds @ semicolon # b) = semicolon # b"
  using assms by (induction ds) auto

lemma starts_introducer_iff:
  "starts_introducer xs \<longleftrightarrow> (\<exists>ds b. xs = esc # bracket # ds @ semicolon # b \<and> osc52_digits ds)"
proof
  assume l: "starts_introducer xs"
  then obtain ys where xs: "xs = esc # bracket # ys"
    by (cases xs rule: starts_introducer.cases) auto
  with l obtain b where "dropWhile is_digit ys = semicolon # b" "osc52_digits (takeWhile is_digit ys)"
    by (auto split: list.splits)
  then show "\<exists>ds b. xs = esc # bracket # ds @ semicolon # b \<and> osc52_digits ds"
    unfolding xs by (metis takeWhile_dropWhile_id)
next
  assume "\<exists>ds b. xs = esc # bracket # ds @ semicolon # b \<and> osc52_digits ds"
  then show "starts_introducer xs"
    by (auto simp: takeWhile_digits osc52_digits_def)
qed

lemma has_introducer_iff:
  "has_introducer xs \<longleftrightarrow>
     (\<exists>a ds b. xs = a @ (esc # bracket # ds @ [semicolon]) @ b \<and> osc52_digits ds)"
proof -
  have "has_introducer xs \<longleftrightarrow> (\<exists>a ys. xs = a @ ys \<and> starts_introducer ys)"
    unfolding has_introducer_def list_ex_iff set_suffixes_eq suffix_def by blast
  then show ?thesis by (simp add: starts_introducer_iff) blast
qed

lemma partial_introducer_iff:
  "partial_introducer p \<longleftrightarrow>
     p = [esc] \<or> (\<exists>ds. p = esc # bracket # ds \<and> list_all is_digit ds \<and> length ds \<le> maxDigits)"
proof -
  have "take 2 p = [esc, bracket] \<longleftrightarrow> (\<exists>ds. p = esc # bracket # ds)"
    by (cases p rule: starts_introducer.cases) auto
  then show ?thesis by (auto simp: partial_introducer_def)
qed

lemma dangling_iff: "dangling xs \<longleftrightarrow> (\<exists>a p. xs = a @ p \<and> partial_introducer p)"
  unfolding dangling_def list_ex_iff set_suffixes_eq suffix_def by blast

lemma has_introducer_append: "has_introducer xs \<Longrightarrow> has_introducer (a @ xs @ b)"
  unfolding has_introducer_iff by (metis append.assoc)

lemma partial_prefix:
  assumes "partial_introducer (p @ q)" "p \<noteq> []"
  shows "partial_introducer p"
proof (cases p rule: starts_introducer.cases)
  case (1 e r xs)
  then show ?thesis using assms by (auto simp: partial_introducer_iff)
qed (use assms in \<open>auto simp: partial_introducer_iff\<close>)

lemma partial_of_introducer:
  assumes "esc # bracket # ds @ [semicolon] = p @ q" "p \<noteq> []" "q \<noteq> []" "osc52_digits ds"
  shows "partial_introducer p"
proof -
  have "esc # bracket # ds = p @ butlast q"
    using assms(1,3) by (metis butlast_append butlast_snoc append_Cons)
  moreover have "partial_introducer (esc # bracket # ds)"
    using assms(4) by (simp add: partial_introducer_iff osc52_digits_def)
  ultimately show ?thesis
    using partial_prefix assms(2) by metis
qed

lemma introducer_straddle:
  assumes "\<not> dangling out" "has_introducer (out @ x)"
  shows "has_introducer out \<or> has_introducer x"
proof -
  obtain a ds b where eq: "out @ x = a @ (esc # bracket # ds @ [semicolon]) @ b" and ds: "osc52_digits ds"
    using assms(2) unfolding has_introducer_iff by blast
  let ?I = "esc # bracket # ds @ [semicolon]"
  consider (right) c where "a = out @ c" "x = c @ ?I @ b"
    | (left) c where "out = a @ c" "c @ x = ?I @ b" "c \<noteq> []"
    using eq by (rule append_split) auto
  then show ?thesis
  proof cases
    case right
    then show ?thesis unfolding has_introducer_iff using ds by blast
  next
    case left
    from left(2) [symmetric] consider (inside) d where "c = ?I @ d" | (cut) d where "?I = c @ d" "d \<noteq> []"
      by (rule append_split) auto
    then show ?thesis
    proof cases
      case inside
      then have "out = a @ ?I @ d" using left by simp
      then show ?thesis unfolding has_introducer_iff using ds by blast
    next
      case cut
      then have "partial_introducer c"
        using partial_of_introducer left(3) ds by blast
      then show ?thesis using assms(1) left(1) dangling_iff by blast
    qed
  qed
qed

lemma dangling_straddle:
  assumes "\<not> dangling out" "dangling (out @ x)"
  shows "dangling x"
proof -
  obtain a p where eq: "out @ x = a @ p" and p: "partial_introducer p"
    using assms(2) unfolding dangling_iff by blast
  consider (right) c where "x = c @ p" | (left) c where "out = a @ c" "p = c @ x" "c \<noteq> []"
    using eq by (rule append_split) auto
  then show ?thesis
  proof cases
    case right
    then show ?thesis unfolding dangling_iff using p by blast
  next
    case left
    then have "partial_introducer c" using partial_prefix p by blast
    then show ?thesis using assms(1) left(1) dangling_iff by blast
  qed
qed

section \<open>The invariant of the filter\<close>

definition body_byte :: "byte \<Rightarrow> bool" where
  "body_byte c \<longleftrightarrow> c \<noteq> bel \<and> c \<noteq> esc \<and> c \<noteq> can \<and> c \<noteq> sub"

definition filter_inv :: "Filter \<Rightarrow> bool" where
  "filter_inv f \<longleftrightarrow>
     (case state f of
        stText \<Rightarrow> buf f = [] \<and> \<not> dropping f
      | stEsc \<Rightarrow> buf f = [esc] \<and> \<not> dropping f
      | stPrefix \<Rightarrow>
          take 2 (buf f) = [esc, bracket] \<and> list_all is_digit (drop 2 (buf f)) \<and>
          length (drop 2 (buf f)) = digits f \<and> digits f \<le> maxDigits \<and>
          oscnum f = dec_value (drop 2 (buf f)) \<and> \<not> dropping f
      | _ \<Rightarrow>
          if dropping f then buf f = []
          else starts_introducer (buf f) \<and> length (buf f) \<le> maxSequence \<and>
            list_all body_byte (drop 2 (buf f)))"

lemma take2_iff: "take 2 xs = [a, b] \<longleftrightarrow> (\<exists>ys. xs = a # b # ys)"
  by (cases xs; cases "tl xs") auto

lemma starts_introducer_snoc: "starts_introducer xs \<Longrightarrow> starts_introducer (xs @ ys)"
  unfolding starts_introducer_iff by (metis append_Cons append_assoc)

lemma dec_value_snoc: "dec_value (ds @ [c]) = dec_value ds * 10 + int (unat (c - 0x30))"
  by (simp add: dec_value_def)

lemma digit_body_byte: "is_digit c \<Longrightarrow> body_byte c"
proof -
  have "is_digit c \<longrightarrow> c \<noteq> bel \<and> c \<noteq> can \<and> c \<noteq> sub \<and> c \<noteq> esc"
    by (auto simp: is_digit_def bel_def can_def sub_def esc_def)
  then show "is_digit c \<Longrightarrow> body_byte c" by (simp add: body_byte_def)
qed

lemma reset_inv [simp]: "filter_inv (reset f)" "state (reset f) = stText" "policy (reset f) = policy f"
  "buf (reset f) = []" "\<not> dropping (reset f)"
  by (simp_all add: filter_inv_def reset_def)

lemma New_inv [simp]: "filter_inv (New p)" "state (New p) = stText" "policy (New p) = p"
  by (simp_all add: filter_inv_def New_def)

lemma feedText_inv: "filter_inv f \<Longrightarrow> state f = stText \<Longrightarrow> filter_inv (fst (feedText f c))"
  by (simp add: feedText_def filter_inv_def)

definition toEsc :: "Filter \<Rightarrow> Filter" where
  "toEsc f = (reset f)\<lparr>buf := [esc], state := stEsc\<rparr>"

lemma toEsc_simps [simp]:
  "filter_inv (toEsc f)" "state (toEsc f) = stEsc" "buf (toEsc f) = [esc]" "policy (toEsc f) = policy f"
  by (simp_all add: toEsc_def filter_inv_def reset_def)

lemma released:
  "(case feedText (reset f) c of (g, out) \<Rightarrow> (g, buf f @ out))
     = (if c = esc then (toEsc f, buf f) else (reset f, buf f @ [c]))"
  by (simp add: feedText_def toEsc_def)

lemma toEsc_toEsc [simp]: "toEsc (toEsc f) = toEsc f" "reset (toEsc f) = reset f"
  by (simp_all add: toEsc_def reset_def)

lemma feedEsc_inv: "filter_inv f \<Longrightarrow> state f = stEsc \<Longrightarrow> filter_inv (fst (feedEsc f c))"
  unfolding feedEsc_def released
  by (simp add: filter_inv_def [of f]) (simp add: filter_inv_def dec_value_def)

lemma feedPrefix_inv:
  assumes "filter_inv f" "state f = stPrefix"
  shows "filter_inv (fst (feedPrefix f c))"
proof -
  obtain ds where b: "buf f = esc # bracket # ds" and ds: "list_all is_digit ds" "length ds = digits f"
    "digits f \<le> maxDigits" "oscnum f = dec_value ds" "\<not> dropping f"
    using assms by (auto simp: filter_inv_def take2_iff)
  consider "is_digit c \<and> digits f < maxDigits"
    | "\<not> (is_digit c \<and> digits f < maxDigits)" "c = semicolon \<and> 0 < digits f \<and> oscnum f = oscNumber"
    | "\<not> (is_digit c \<and> digits f < maxDigits)" "\<not> (c = semicolon \<and> 0 < digits f \<and> oscnum f = oscNumber)"
    by blast
  then show ?thesis
  proof cases
    case 1
    then show ?thesis
      using ds assms(2) by (simp add: feedPrefix_def filter_inv_def b dec_value_snoc)
  next
    case 2
    have "starts_introducer (esc # bracket # ds @ [semicolon])"
      using 2 ds unfolding starts_introducer_iff by (auto simp: osc52_digits_def)
    moreover have "list_all body_byte ds" "body_byte semicolon"
      using ds(1) digit_body_byte
      by (auto simp: list_all_iff body_byte_def semicolon_def bel_def esc_def can_def sub_def)
    ultimately show ?thesis
      using 2 ds assms(2)
      by (simp add: feedPrefix_def filter_inv_def b maxDigits_def maxSequence_def)
  next
    case 3
    then show ?thesis
      by (simp only: feedPrefix_def released if_False) simp
  qed
qed

lemma fst_emit [simp]: "fst (emit f dst t) = reset f"
  by (simp add: emit_def)

lemma feedBody_inv: "filter_inv f \<Longrightarrow> state f = stBody \<Longrightarrow> filter_inv (fst (feedBody f c))"
proof -
  assume f: "filter_inv f" "state f = stBody"
  have "length (buf f) \<ge> 2" if "\<not> dropping f"
    using f that by (auto simp: filter_inv_def starts_introducer_iff)
  then show ?thesis
    using f by (auto simp: feedBody_def filter_inv_def body_byte_def starts_introducer_snoc)
qed

lemma feed_inv:
  assumes "filter_inv f"
  shows "filter_inv (fst (feed f c))"
proof (cases "state f")
  case stBodyEsc
  then show ?thesis
    using feedEsc_inv [of "toEsc f" c] by (simp add: feed_def flip: toEsc_def)
qed (use assms in \<open>simp_all add: feed_def feedText_inv feedEsc_inv feedPrefix_inv feedBody_inv\<close>)

lemma feeds_inv: "filter_inv f \<Longrightarrow> filter_inv (fst (feeds f xs))"
proof (induction xs arbitrary: f)
  case (Cons c cs)
  then show ?case using feed_inv [of f c] by (auto split: prod.splits) (metis fst_conv)
qed simp

lemma feed_policy: "policy (fst (feed f c)) = policy f"
proof -
  have "policy (fst (feedEsc g c)) = policy g" for g
    unfolding feedEsc_def released by simp
  moreover have "policy (fst (feedPrefix f c)) = policy f"
    unfolding feedPrefix_def released by simp
  ultimately show ?thesis
    by (cases "state f") (simp_all add: feed_def feedText_def feedBody_def flip: toEsc_def)
qed

lemma feeds_policy: "policy (fst (feeds f xs)) = policy f"
proof (induction xs arbitrary: f)
  case (Cons c cs)
  then show ?case using feed_policy [of f c] by (auto split: prod.splits) (metis fst_conv)
qed simp

section \<open>Bytes that pass, bytes that are dropped\<close>

lemma feeds_snoc:
  assumes "feeds f xs = (g, out)" "feed g c = (h, out')"
  shows "feeds f (xs @ [c]) = (h, out @ out')"
  using assms by (simp add: feeds_append)

lemma feed_Esc:
  "filter_inv g \<Longrightarrow> state g = stEsc \<Longrightarrow> feed g c =
     (if c = bracket then
        (g\<lparr>buf := [esc, c], oscnum := 0, digits := 0, state := stPrefix\<rparr>, [])
      else if c = esc then (toEsc g, [esc]) else (reset g, [esc, c]))"
  unfolding feed_def feedEsc_def released by (simp add: filter_inv_def)

lemma plain_byte: "c \<noteq> esc \<Longrightarrow> \<not> has_introducer [c] \<and> \<not> dangling [c]"
  by (auto simp: has_introducer_iff dangling_iff partial_introducer_iff Cons_eq_append_conv)

lemma esc_byte:
  "c \<noteq> esc \<Longrightarrow> c \<noteq> bracket \<Longrightarrow> \<not> has_introducer [esc, c] \<and> \<not> dangling [esc, c]"
  by (auto simp: has_introducer_iff dangling_iff partial_introducer_iff Cons_eq_append_conv)

lemma esc_first:
  assumes "esc # bracket # ds @ [c] = a @ esc # q" "list_all is_digit ds" "c \<noteq> esc"
  shows "a = [] \<and> q = bracket # ds @ [c]"
proof (cases a)
  case (Cons x xs)
  then have "bracket # ds @ [c] = xs @ esc # q" using assms(1) by simp
  then have "esc \<in> set (bracket # ds @ [c])" by simp
  then show ?thesis using assms(2,3) by auto
qed (use assms in simp)

lemma prefix_bytes:
  assumes "list_all is_digit ds" "c \<noteq> esc" "length ds \<le> maxDigits"
    and "\<not> (is_digit c \<and> length ds < maxDigits)" "\<not> (c = semicolon \<and> osc52_digits ds)"
  shows "\<not> has_introducer (esc # bracket # ds @ [c]) \<and> \<not> dangling (esc # bracket # ds @ [c])"
proof
  show "\<not> has_introducer (esc # bracket # ds @ [c])"
  proof
    assume "has_introducer (esc # bracket # ds @ [c])"
    then obtain a es b where "esc # bracket # ds @ [c] = a @ esc # bracket # es @ semicolon # b"
      and es: "osc52_digits es"
      by (auto simp: has_introducer_iff)
    then have eq: "ds @ [c] = es @ semicolon # b"
      using esc_first [OF _ assms(1,2)] by fastforce
    have "b = []"
    proof (rule ccontr)
      assume "b \<noteq> []"
      then have "ds = es @ semicolon # butlast b"
        using eq by (metis butlast.simps(2) butlast_append butlast_snoc list.distinct(1))
      then show False using assms(1) by simp
    qed
    then show False using eq es assms(5) by simp
  qed
  show "\<not> dangling (esc # bracket # ds @ [c])"
  proof
    assume "dangling (esc # bracket # ds @ [c])"
    then obtain a p where p: "esc # bracket # ds @ [c] = a @ p" "partial_introducer p"
      by (auto simp: dangling_iff)
    then obtain q where "p = esc # q" by (auto simp: partial_introducer_iff)
    then have "p = esc # bracket # ds @ [c]"
      using esc_first [OF _ assms(1,2)] p(1) by blast
    then show False using p(2) assms(4) by (auto simp: partial_introducer_iff)
  qed
qed

lemma has_introducer_digits: "osc52_digits ds \<Longrightarrow> has_introducer (esc # bracket # ds @ [semicolon])"
  unfolding has_introducer_iff by (intro exI [of _ "[]"] exI [of _ ds]) simp

text \<open>What one byte does to a held introducer prefix.\<close>

lemma held_step:
  assumes "filter_inv g" "state g \<in> {stEsc, stPrefix}" "feed g c = (h, out)"
  shows "(out = [] \<and> state h = stPrefix \<and> buf h = buf g @ [c])
    \<or> (out = [] \<and> state h = stBody \<and> buf h = buf g @ [c] \<and> has_introducer (buf g @ [c]))
    \<or> (out = buf g \<and> c = esc \<and> h = toEsc g)
    \<or> (out = buf g @ [c] \<and> c \<noteq> esc \<and> h = reset g \<and> \<not> has_introducer out \<and> \<not> dangling out)"
proof (cases "state g")
  case stEsc
  then show ?thesis
    using assms esc_byte [of c] feed_Esc [of g c]
    by (auto simp: filter_inv_def split: if_splits)
next
  case stPrefix
  obtain ds where b: "buf g = esc # bracket # ds" and ds: "list_all is_digit ds" "length ds = digits g"
    "digits g \<le> maxDigits" "oscnum g = dec_value ds"
    using assms(1) stPrefix by (auto simp: filter_inv_def take2_iff)
  have o: "osc52_digits ds \<longleftrightarrow> 0 < digits g \<and> oscnum g = oscNumber"
    using ds by (simp add: osc52_digits_def)
  have "feed g c = feedPrefix g c" using stPrefix by (simp add: feed_def)
  then have f: "feedPrefix g c = (h, out)" using assms(3) by simp
  consider "is_digit c \<and> digits g < maxDigits"
    | "\<not> (is_digit c \<and> digits g < maxDigits)" "c = semicolon \<and> osc52_digits ds"
    | "\<not> (is_digit c \<and> digits g < maxDigits)" "\<not> (c = semicolon \<and> osc52_digits ds)" "c = esc"
    | "\<not> (is_digit c \<and> digits g < maxDigits)" "\<not> (c = semicolon \<and> osc52_digits ds)" "c \<noteq> esc"
    by blast
  then show ?thesis
  proof cases
    case 1
    then show ?thesis using f stPrefix by (auto simp: feedPrefix_def)
  next
    case 2
    then show ?thesis
      using f has_introducer_digits [of ds] by (auto simp: feedPrefix_def b o)
  next
    case 3
    then show ?thesis using f by (simp add: feedPrefix_def released)
  next
    case 4
    then have "(h, out) = (reset g, buf g @ [c])"
      using f o by (simp only: feedPrefix_def released if_False if_True simp_thms)
    then show ?thesis
      using 4 prefix_bytes [of ds c] ds by (simp add: b)
  qed
qed (use assms(2) in simp_all)

lemma feeds_snocD:
  assumes "feeds f (xs @ [c]) = (h, out)"
  obtains g o1 o2 where "feeds f xs = (g, o1)" "feed g c = (h, o2)" "out = o1 @ o2"
  using assms by (auto simp: feeds_append split: prod.splits)

lemma feeds_New_inv: "feeds (New p) xs = (g, out) \<Longrightarrow> filter_inv g \<and> policy g = p"
  using feeds_inv [of "New p" xs] feeds_policy [of "New p" xs] by simp

lemma feeds_no_introducer:
  "\<not> has_introducer src \<Longrightarrow> feeds (New p) src = (g, out) \<Longrightarrow>
     state g \<in> {stText, stEsc, stPrefix} \<and> out @ buf g = src"
proof (induction src arbitrary: g out rule: rev_induct)
  case Nil
  then show ?case by (auto simp: New_def)
next
  case (snoc c src)
  obtain h o1 o2 where h: "feeds (New p) src = (h, o1)" "feed h c = (g, o2)" "out = o1 @ o2"
    using snoc.prems(2) by (rule feeds_snocD)
  have "\<not> has_introducer src"
    using snoc.prems(1) has_introducer_append [of src "[]" "[c]"] by auto
  with snoc.IH h(1) have IH: "state h \<in> {stText, stEsc, stPrefix}" "o1 @ buf h = src" by blast+
  have inv: "filter_inv h" using feeds_New_inv h(1) by blast
  show ?case
  proof (cases "state h = stText")
    case True
    then show ?thesis
      using IH h inv by (auto simp: feed_def feedText_def filter_inv_def split: if_splits)
  next
    case False
    then have st: "state h \<in> {stEsc, stPrefix}" using IH(1) by simp
    have "\<not> has_introducer (buf h @ [c])"
      using snoc.prems(1) IH(2) has_introducer_append [of "buf h @ [c]" o1 "[]"] by auto
    then show ?thesis
      using held_step [OF inv st h(2)] IH h(3) by auto
  qed
qed

lemma interrupted_snoc: "interrupted (xs @ [c]) \<longleftrightarrow> interrupted xs \<or> c = esc \<and> dangling xs"
proof -
  have "list_ex (\<lambda>i. (xs @ [c]) ! i = esc \<and> dangling (take i (xs @ [c]))) [0..<length xs]
    \<longleftrightarrow> list_ex (\<lambda>i. xs ! i = esc \<and> dangling (take i xs)) [0..<length xs]"
    by (auto simp: list_ex_iff nth_append)
  then show ?thesis
    by (simp add: interrupted_def)
qed

lemma dangling_suffix: "suffix p xs \<Longrightarrow> partial_introducer p \<Longrightarrow> dangling xs"
  unfolding dangling_iff suffix_def by blast

lemma held_partial: "filter_inv g \<Longrightarrow> state g \<in> {stEsc, stPrefix} \<Longrightarrow> partial_introducer (buf g)"
  by (auto simp: filter_inv_def partial_introducer_iff take2_iff)

lemma clean_append:
  assumes "\<not> has_introducer out" "\<not> dangling out" "\<not> has_introducer x" "\<not> dangling x"
  shows "\<not> has_introducer (out @ x) \<and> \<not> dangling (out @ x)"
  using introducer_straddle dangling_straddle assms by blast

lemma feed_Body_Off:
  "state g = stBody \<Longrightarrow> policy g = Off \<Longrightarrow>
    snd (feed g c) = [] \<and> state (fst (feed g c)) \<in> {stText, stBody, stBodyEsc}
    \<and> (state (fst (feed g c)) = stBodyEsc \<longrightarrow> c = esc)"
  by (auto simp: feed_def feedBody_def) (simp_all add: emit_def)

lemma feed_BodyEsc:
  "state g = stBodyEsc \<Longrightarrow> feed g c =
     (if c = backslash then emit g [] esc
      else if c = bracket then
        ((toEsc g)\<lparr>buf := [esc, c], oscnum := 0, digits := 0, state := stPrefix\<rparr>, [])
      else if c = esc then (toEsc g, [esc]) else (reset g, [esc, c]))"
  using feed_Esc [of "toEsc g" c] by (simp add: feed_def flip: toEsc_def)

lemma Off_clean:
  "\<not> interrupted src \<Longrightarrow> feeds (New Off) src = (g, out) \<Longrightarrow>
     \<not> has_introducer out \<and> \<not> dangling out
     \<and> (state g \<in> {stEsc, stPrefix} \<longrightarrow> suffix (buf g) src)
     \<and> (state g = stBodyEsc \<longrightarrow> suffix [esc] src)"
proof (induction src arbitrary: g out rule: rev_induct)
  case Nil
  then show ?case by (auto simp: New_def has_introducer_iff dangling_iff partial_introducer_iff)
next
  case (snoc c src)
  obtain h o1 o2 where h: "feeds (New Off) src = (h, o1)" "feed h c = (g, o2)" "out = o1 @ o2"
    using snoc.prems(2) by (rule feeds_snocD)
  have ni: "\<not> interrupted src" "c = esc \<Longrightarrow> \<not> dangling src"
    using snoc.prems(1) by (auto simp: interrupted_snoc)
  have IH: "\<not> has_introducer o1" "\<not> dangling o1"
    "state h \<in> {stEsc, stPrefix} \<longrightarrow> suffix (buf h) src" "state h = stBodyEsc \<longrightarrow> suffix [esc] src"
    using snoc.IH [OF ni(1) h(1)] by blast+
  have inv: "filter_inv h" "policy h = Off" using feeds_New_inv h(1) by blast+
  have part: "partial_introducer [esc]" by (simp add: partial_introducer_iff)
  consider "state h = stText" | "state h = stBody" | "state h = stBodyEsc"
    | (held) "state h \<in> {stEsc, stPrefix}" by (cases "state h") auto
  then show ?case
  proof cases
    case 1
    then show ?thesis
      using h IH inv plain_byte [of c] clean_append [OF IH(1,2), of "[c]"]
      by (auto simp: feed_def feedText_def split: if_splits)
  next
    case 2
    then show ?thesis
      using feed_Body_Off [OF 2 inv(2), of c] h IH by auto
  next
    case 3
    have "c \<noteq> esc" using ni(2) IH(4) 3 dangling_suffix part by blast
    moreover have "suffix [esc, c] (src @ [c])"
      using IH(4) 3 snoc_suffix_snoc [of "[esc]" c src c] by simp
    ultimately show ?thesis
      using feed_BodyEsc [OF 3, of c] h IH(1,2) inv(2) esc_byte [of c]
        clean_append [OF IH(1,2), of "[esc, c]"]
      by (auto simp: emit_def split: if_splits)
  next
    case held
    have "c \<noteq> esc" using ni(2) IH(3) held dangling_suffix held_partial [OF inv(1) held] by blast
    then show ?thesis
      using held_step [OF inv(1) held h(2)] h(3) IH held clean_append [OF IH(1,2), of o2]
      by auto
  qed
qed

section \<open>Complete sequences\<close>

lemmas byte_defs = esc_def bel_def can_def sub_def bracket_def semicolon_def backslash_def question_def

lemma feeds_digits:
  "state f = stPrefix \<Longrightarrow> list_all is_digit ds \<Longrightarrow> digits f + length ds \<le> maxDigits \<Longrightarrow>
     feeds f ds = (f\<lparr>oscnum := foldl (\<lambda>n c. n * 10 + int (unat (c - 0x30))) (oscnum f) ds,
        digits := digits f + length ds, buf := buf f @ ds\<rparr>, [])"
proof (induction ds arbitrary: f)
  case (Cons d ds)
  have "feed f d = (f\<lparr>oscnum := oscnum f * 10 + int (unat (d - 0x30)), digits := digits f + 1,
      buf := buf f @ [d]\<rparr>, [])"
    using Cons.prems by (simp add: feed_def feedPrefix_def)
  then show ?case
    using Cons by simp
qed simp

lemma feeds_body:
  "state f = stBody \<Longrightarrow> \<not> dropping f \<Longrightarrow> list_all body_byte xs \<Longrightarrow>
     length (buf f) + length xs \<le> maxSequence \<Longrightarrow> feeds f xs = (f\<lparr>buf := buf f @ xs\<rparr>, [])"
proof (induction xs arbitrary: f)
  case (Cons x xs)
  have "feed f x = (f\<lparr>buf := buf f @ [x]\<rparr>, [])"
    using Cons.prems by (simp add: feed_def feedBody_def body_byte_def)
  then show ?case using Cons by simp
qed simp

text \<open>Reading an introducer and a body from plain text holds exactly those bytes.\<close>

lemma feeds_held:
  assumes "filter_inv f" "state f = stText" "osc52_digits ds" "list_all body_byte xs"
    and "length ds + length xs + 3 \<le> maxSequence"
  shows "\<exists>g. feeds f (esc # bracket # ds @ semicolon # xs) = (g, []) \<and> state g = stBody
    \<and> \<not> dropping g \<and> policy g = policy f \<and> buf g = esc # bracket # ds @ semicolon # xs"
proof -
  let ?g1 = "f\<lparr>buf := [esc, bracket], state := stPrefix, oscnum := 0, digits := 0\<rparr>"
  let ?g2 = "?g1\<lparr>oscnum := dec_value ds, digits := length ds, buf := [esc, bracket] @ ds\<rparr>"
  let ?g3 = "?g2\<lparr>buf := [esc, bracket] @ ds @ [semicolon], state := stBody\<rparr>"
  have d: "list_all is_digit ds" "length ds \<le> maxDigits" "0 < length ds" "dec_value ds = oscNumber"
    using assms(3) by (auto simp: osc52_digits_def)
  have a: "feeds f [esc, bracket] = (?g1, [])"
    using assms(2) by (simp add: feed_def feedText_def feedEsc_def)
  have b: "feeds ?g1 ds = (?g2, [])"
    using feeds_digits [of ?g1 ds] d by (simp add: dec_value_def)
  have c: "feeds ?g2 [semicolon] = (?g3, [])"
    using d by (simp add: feed_def feedPrefix_def)
  have "\<not> dropping f" using assms(1,2) by (simp add: filter_inv_def)
  then have e: "feeds ?g3 xs = (?g3\<lparr>buf := [esc, bracket] @ ds @ [semicolon] @ xs\<rparr>, [])"
    using feeds_body [of ?g3 xs] assms(4,5) by simp
  have "feeds f ([esc, bracket] @ ds @ [semicolon] @ xs)
      = (?g3\<lparr>buf := [esc, bracket] @ ds @ [semicolon] @ xs\<rparr>, [])"
    unfolding feeds_append a b c e prod.case by simp
  then show ?thesis using \<open>\<not> dropping f\<close> by simp
qed

lemma IndexByte_first: "c \<notin> set xs \<Longrightarrow> IndexByte (xs @ c # ys) c = Some (length xs)"
  by (induction xs) auto

text \<open>The policy, as the documentation states it: what a complete clipboard operation becomes.\<close>

definition terminator :: "bool \<Rightarrow> bytes" where
  "terminator st = (if st then [esc, backslash] else [bel])"

definition clipboard_op :: "Policy \<Rightarrow> bytes \<Rightarrow> bytes \<Rightarrow> bool \<Rightarrow> bytes" where
  "clipboard_op p pc pd st =
     (if p = Off \<or> (pd = [question] \<and> p \<noteq> Full) then []
      else [esc, bracket, 0x35, 0x32, semicolon] @
        (if pc = [] \<and> pd \<noteq> [question] then [0x63] else pc) @ [semicolon] @ pd @ terminator st)"

lemma emit_clipboard_op:
  assumes "buf f = esc # bracket # ds @ semicolon # pc @ semicolon # pd" "\<not> dropping f"
    "list_all is_digit ds" "semicolon \<notin> set pc"
  shows "snd (emit f [] (if st then esc else bel)) = clipboard_op (policy f) pc pd st"
proof -
  have "drop 2 (buf f) = ds @ semicolon # pc @ semicolon # pd" using assms(1) by simp
  then show ?thesis
    using assms(2-4)
    by (simp add: emit_def IndexByte_first Let_def clipboard_op_def appendSequence_def terminator_def)
qed

lemma emit_cong:
  assumes "buf f = buf g" "dropping f = dropping g" "policy f = policy g"
  shows "snd (emit f dst t) = snd (emit g dst t)"
  unfolding emit_def snd_conv assms by (rule refl)

lemma feeds_operation:
  assumes "filter_inv f" "state f = stText" "osc52_digits ds"
    and "list_all body_byte (pc @ pd)" "semicolon \<notin> set pc"
    and "length ds + length pc + length pd + 4 \<le> maxSequence"
  shows "\<exists>g. feeds f (esc # bracket # ds @ semicolon # pc @ semicolon # pd @ terminator st)
      = (g, clipboard_op (policy f) pc pd st) \<and> state g = stText \<and> filter_inv g"
proof -
  have bs: "body_byte semicolon"
    by (simp add: body_byte_def semicolon_def bel_def esc_def can_def sub_def)
  let ?b = "pc @ semicolon # pd"
  obtain g where g: "feeds f (esc # bracket # ds @ semicolon # ?b) = (g, [])" "state g = stBody"
    "\<not> dropping g" "policy g = policy f" "buf g = esc # bracket # ds @ semicolon # ?b"
    using feeds_held [of f ds ?b] assms bs by auto
  have dg: "list_all is_digit ds" using assms(3) by (simp add: osc52_digits_def)
  have t: "feeds g (terminator st) = (reset g, snd (emit g [] (if st then esc else bel)))"
  proof (cases st)
    case True
    have "snd (emit (g\<lparr>state := stBodyEsc\<rparr>) [] esc) = snd (emit g [] esc)"
      by (rule emit_cong) simp_all
    moreover have "fst (emit (g\<lparr>state := stBodyEsc\<rparr>) [] esc) = reset g"
      by (simp add: reset_def)
    ultimately have "emit (g\<lparr>state := stBodyEsc\<rparr>) [] esc = (reset g, snd (emit g [] esc))"
      by (simp add: prod_eq_iff)
    then show ?thesis
      using True g(2) by (simp add: terminator_def feed_def feedBody_def)
  next
    case False
    then show ?thesis
      using g(2) by (simp add: terminator_def feed_def feedBody_def prod_eq_iff split: prod.splits)
  qed
  have "feeds f ((esc # bracket # ds @ semicolon # ?b) @ terminator st)
      = (reset g, clipboard_op (policy f) pc pd st)"
    unfolding feeds_append g(1) prod.case t
    using emit_clipboard_op [of g ds pc pd st] g dg assms(5) by simp
  then show ?thesis by simp
qed

lemma Filter_bytes_feeds:
  "Filter_bytes f dst src = (fst (feeds f src), dst @ snd (feeds f src))"
  by (simp add: Filter_bytes_def Filter_loop_feeds split: prod.splits)

section \<open>Claims\<close>

text \<open>C23: The filter is a streaming one: cutting the terminal bytes into chunks at any point changes
  neither the bytes written nor the state reached, and writing is appending.\<close>

theorem filter_streams:
  "Filter_bytes f dst (src1 @ src2) =
     (case Filter_bytes f dst src1 of (g, dst1) \<Rightarrow> Filter_bytes g dst1 src2)"
  by (simp add: Filter_bytes_feeds feeds_append split: prod.splits)

text \<open>C24: Whatever bytes the server sends, the filter holds at most 64 KiB, and what it holds is
  always an unfinished introducer or an OSC 52 in progress (so slicing off \<^verbatim>\<open>ESC ]\<close> in emit is
  in range).\<close>

theorem filter_buffer_bounded:
  "filter_inv (fst (Filter_bytes (New p) dst src))
     \<and> length (buf (fst (Filter_bytes (New p) dst src))) \<le> maxSequence"
proof -
  let ?g = "fst (Filter_bytes (New p) dst src)"
  have inv: "filter_inv ?g" using feeds_inv [of "New p" src] by (simp add: Filter_bytes_feeds)
  have "length (buf ?g) \<le> 2 + maxDigits" if "state ?g = stPrefix"
    using inv that by (auto simp: filter_inv_def take2_iff)
  then have "length (buf ?g) \<le> maxSequence"
    using inv by (cases "state ?g") (auto simp: filter_inv_def maxDigits_def maxSequence_def split: if_splits)
  then show ?thesis using inv by blast
qed

text \<open>Bytes that contain no OSC 52 introducer (other escape sequences, titles, hyperlinks, UTF-8
  text) reach the terminal unchanged under every policy, apart from an unfinished prefix held at
  the end.\<close>

theorem filter_passes_other_bytes:
  assumes "\<not> has_introducer src"
  shows "snd (Filter_bytes (New p) [] src) @ buf (fst (Filter_bytes (New p) [] src)) = src"
  using feeds_no_introducer [OF assms, of p "fst (feeds (New p) src)" "snd (feeds (New p) src)"]
  by (simp add: Filter_bytes_feeds)

theorem filter_passes_other_bytes_witness:
  "snd (Filter_bytes (New Off) [] [0x1B, 0x5D, 0x30, 0x3B, 0x68, 0x07])
     @ buf (fst (Filter_bytes (New Off) [] [0x1B, 0x5D, 0x30, 0x3B, 0x68, 0x07]))
   = [0x1B, 0x5D, 0x30, 0x3B, 0x68, 0x07]"
  by (rule filter_passes_other_bytes) code_simp

text \<open>C22: A complete clipboard operation is treated as the policy says, whichever way its number
  is written and its end is marked: off drops it; a read query is forwarded under full only; a
  write is re-emitted canonically with an empty selection turned into the system clipboard.\<close>

theorem filter_applies_policy:
  assumes "filter_inv f" "state f = stText" "osc52_digits ds"
    and "list_all body_byte (pc @ pd)" "semicolon \<notin> set pc"
    and "length ds + length pc + length pd + 4 \<le> maxSequence"
  shows "snd (Filter_bytes f dst (esc # bracket # ds @ semicolon # pc @ semicolon # pd @ terminator st))
      = dst @ clipboard_op (policy f) pc pd st"
  using feeds_operation [OF assms, of st] by (auto simp: Filter_bytes_feeds)

theorem filter_applies_policy_witness:
  "snd (Filter_bytes (New Write) [0x41] (esc # bracket # [0x30, 0x35, 0x32] @ semicolon # [] @
      semicolon # [0x51, 0x51] @ terminator True))
   = [0x41] @ clipboard_op (policy (New Write)) [] [0x51, 0x51] True"
proof (rule filter_applies_policy)
  show "osc52_digits [0x30, 0x35, 0x32]" by code_simp
  show "list_all body_byte ([] @ [0x51, 0x51])"
    by (simp add: body_byte_def bel_def esc_def can_def sub_def)
qed (simp_all add: maxSequence_def)

text \<open>A stricter policy forwards an operation exactly as a laxer one does, or drops it.\<close>

lemma stricter_policy_drops:
  assumes "p \<le> q"
  shows "snd (emit (f\<lparr>policy := p\<rparr>) dst trm) = dst \<or>
    snd (emit (f\<lparr>policy := p\<rparr>) dst trm) = snd (emit (f\<lparr>policy := q\<rparr>) dst trm)"
  using assms by (cases p; cases q) (simp_all add: emit_def less_eq_Policy_def Let_def split: option.splits)

text \<open>C21: Under the off policy no OSC 52 introducer reaches the terminal, for any server output in
  which no unfinished introducer is directly followed by ESC.\<close>

theorem off_blocks_clipboard:
  assumes "\<not> interrupted src"
  shows "\<not> has_introducer (snd (Filter_bytes (New Off) [] src))"
  using Off_clean [OF assms, of "fst (feeds (New Off) src)" "snd (feeds (New Off) src)"]
  by (simp add: Filter_bytes_feeds)

theorem off_blocks_clipboard_witness:
  "\<not> has_introducer (snd (Filter_bytes (New Off) [] [0x68, 0x1B, 0x5D, 0x35, 0x32, 0x3B, 0x63, 0x3B, 0x3F, 0x07]))"
  by (rule off_blocks_clipboard) code_simp


text \<open>A number padded beyond eight digits is released verbatim, so an OSC 52 written that way
  passes the off policy.\<close>

theorem padded_number_escapes:
  "snd (Filter_bytes (New Off) [] [0x1B, 0x5D, 0x30, 0x30, 0x30, 0x30, 0x30, 0x30, 0x30, 0x35, 0x32,
      0x3B, 0x63, 0x3B, 0x3F, 0x07])
    = [0x1B, 0x5D, 0x30, 0x30, 0x30, 0x30, 0x30, 0x30, 0x30, 0x35, 0x32, 0x3B, 0x63, 0x3B, 0x3F, 0x07]"
  by (simp add: Filter_bytes_feeds New_def feed_def feedText_def feedEsc_def
      feedPrefix_def feedBody_def emit_def appendSequence_def reset_def is_digit_def maxDigits_def
      maxSequence_def oscNumber_def byte_defs)

lemma feeds_esc_free:
  assumes "filter_inv f" "state f = stText" "esc \<notin> set b"
  shows "FilterChunk f dst b = (f, dst @ b)"
  using feeds_text [OF assms(2,3)] assms(2)
  by (simp add: FilterChunk_def Filter_bytes_feeds Flush_def)

text \<open>Filtering a chunk of local input leaves nothing behind: the filter is back in its text
  state with an empty buffer, whatever was typed.\<close>

theorem chunk_holds_nothing:
  "state (fst (FilterChunk (New p) dst src)) = stText \<and> buf (fst (FilterChunk (New p) dst src)) = []"
proof -
  have "filter_inv (fst (feeds (New p) src))" by (rule feeds_inv) simp
  then show ?thesis
    by (simp add: FilterChunk_def Filter_bytes_feeds Flush_def discard_def release_def Let_def)
      (auto simp: filter_inv_def)
qed

text \<open>A terminal's clipboard report that is read in two pieces is not stripped: cut anywhere
  inside its body, both pieces are forwarded verbatim by the input filter.\<close>

theorem split_report_forwarded:
  assumes "osc52_digits ds" "list_all body_byte (body1 @ body2)"
    and "length ds + length body1 + 3 \<le> maxSequence"
  shows "(case FilterChunk (New Off) [] (esc # bracket # ds @ semicolon # body1) of
      (g, out1) \<Rightarrow> out1 @ snd (FilterChunk g [] (body2 @ [bel])))
    = esc # bracket # ds @ semicolon # body1 @ body2 @ [bel]"
proof -
  let ?a = "esc # bracket # ds @ semicolon # body1"
  obtain g where g: "feeds (New Off) ?a = (g, [])" "state g = stBody" "\<not> dropping g" "buf g = ?a"
    using feeds_held [of "New Off" ds body1] assms by auto
  have "FilterChunk (New Off) [] ?a = (reset g, ?a)"
    using g by (simp add: FilterChunk_def Filter_bytes_feeds Flush_def release_def)
  moreover have "esc \<notin> set (body2 @ [bel])"
    using assms(2) by (auto simp: list_all_iff body_byte_def)
  then have "FilterChunk (reset g) [] (body2 @ [bel]) = (reset g, body2 @ [bel])"
    using feeds_esc_free [of "reset g"] by simp
  ultimately show ?thesis by simp
qed

theorem split_report_forwarded_witness:
  "(case FilterChunk (New Off) [] (esc # bracket # [0x35, 0x32] @ semicolon # [0x63, 0x3B, 0x51]) of
      (g, out1) \<Rightarrow> out1 @ snd (FilterChunk g [] ([0x51] @ [bel])))
    = esc # bracket # [0x35, 0x32] @ semicolon # [0x63, 0x3B, 0x51] @ [0x51] @ [bel]"
proof (rule split_report_forwarded)
  show "osc52_digits [0x35, 0x32]" by code_simp
  show "list_all body_byte ([0x63, 0x3B, 0x51] @ [0x51])"
    by (simp add: body_byte_def byte_defs)
qed (simp add: maxSequence_def)

text \<open>The policy names of the command line are parsed to the policies that print as them, and
  nothing else is accepted.\<close>

theorem parse_policy_roundtrip:
  "ParsePolicy s = Inr p \<longleftrightarrow> PolicyString p = s"
  by (cases p) (auto simp: ParsePolicy_def PolicyString_def)

end
