(* ===== verification/Client.thy ===== *)
theory Client
  imports Transport Osc52
begin

unbundle bit_operations_syntax

text \<open>
  \<^verbatim>\<open>internal/client/client.go\<close>: the session that joins the terminal, the transport and the connection.

  The goroutines that read the terminal and the socket only copy what they read into channels;
  the loop of \<^verbatim>\<open>Run\<close> is the one reader of those. An iteration is \<open>loopTop\<close>, from \<^verbatim>\<open>Tick\<close> to the reset of
  the timer, and \<open>handle\<close>, the branch of the \<^verbatim>\<open>select\<close> that was taken, given as a \<open>loopEvent\<close>: a run is
  determined by the answers of the world and the events, and theorems quantify over all of both.
  The timer, whose wait \<open>loopTop\<close> returns, only decides when \<open>Timer\<close> happens.

  The output is a script of the errors of its writes with the record of the successful ones.
\<close>

section \<open>Configuration and session\<close>

definition escapeKey :: byte where
  "escapeKey = 0x1E"

record Config =
  Addr :: string
  Key :: bytes
  Size :: "(nat \<Rightarrow> int \<times> int) option"
  DisableEscape :: bool
  Clipboard :: Policy
  ShutdownTimeout :: duration

record Output =
  outScript :: "nat \<Rightarrow> error option"
  outStep :: nat
  written :: "bytes list"

type_synonym screen = "Filter \<times> Output"

record Session =
  cfg :: Config
  tr :: Transport
  scr :: screen
  clipIn :: "Filter option"
  sizeCalls :: nat

type_synonym env = "Connection \<times> world"

definition defaults :: "Config \<Rightarrow> Config" where
  "defaults c =
     (let c = (if Size c = None then c\<lparr>Size := Some (\<lambda>_. (80, 24))\<rparr> else c)
      in if ShutdownTimeout c = 0 then c\<lparr>ShutdownTimeout := 3 * second\<rparr> else c)"

definition New :: "Config \<Rightarrow> Output \<Rightarrow> world \<Rightarrow> (error + Session \<times> env) \<times> world" where
  "New c out w =
     (let c = defaults c; (r, w) = Dial (Addr c) (Key c) w
      in case r of
           Inl e \<Rightarrow> (Inl e, w)
         | Inr conn \<Rightarrow>
             (let (t, k) = Transport.New netConn (conn, w)
              in (Inr (\<lparr>cfg = c, tr = t, scr = (Osc52.New (Clipboard c), out),
                        clipIn = (if Clipboard c \<noteq> Full then Some (Osc52.New Off) else None),
                        sizeCalls = 0\<rparr>, k), snd k)))"

section \<open>Rendering\<close>

definition writeOutput :: "Output \<Rightarrow> bytes \<Rightarrow> Output \<times> error option" where
  "writeOutput out b =
     (let err = outScript out (outStep out); out = out\<lparr>outStep := outStep out + 1\<rparr>
      in case err of
           Some e \<Rightarrow> (out, Some e)
         | None \<Rightarrow> (out\<lparr>written := written out @ [b]\<rparr>, None))"

fun applyEvents :: "HostEvent list \<Rightarrow> screen \<Rightarrow> screen \<times> error option" where
  "applyEvents [] (clip, out) = ((clip, out), None)"
| "applyEvents (ev # evs) (clip, out) =
     (if Bytes ev = [] then applyEvents evs (clip, out)
      else
        let (clip, b) = Filter_bytes clip [] (Bytes ev)
        in if b = [] then applyEvents evs (clip, out)
           else
             let (out, err) = writeOutput out b
             in case err of
                  Some e \<Rightarrow> ((clip, out), Some e)
                | None \<Rightarrow> applyEvents evs (clip, out))"

definition applyHost :: "bytes \<Rightarrow> screen \<Rightarrow> screen \<times> error option" where
  "applyHost diff x =
     (case UnmarshalHostMessage diff of
        Inl e \<Rightarrow> (x, Some (ErrBadHostMessage e))
      | Inr evs \<Rightarrow> applyEvents evs x)"

section \<open>Input\<close>

fun escapes_loop :: "bytes \<Rightarrow> bool \<Rightarrow> bytes \<Rightarrow> bytes \<times> bool \<times> bool" where
  "escapes_loop out pending [] = (out, False, pending)"
| "escapes_loop out pending (c # b) =
     (if pending then
        (if c = 0x2E then (out, True, False)
         else if c = escapeKey then escapes_loop (out @ [escapeKey]) False b
         else escapes_loop (out @ [escapeKey, c]) False b)
      else if c = escapeKey then escapes_loop out True b
      else escapes_loop (out @ [c]) False b)"

text \<open>The bytes to forward, whether a quit was requested, and the new value of \<^verbatim>\<open>*pending\<close>.\<close>

definition processEscapes :: "bytes \<Rightarrow> bool \<Rightarrow> bytes \<times> bool \<times> bool" where
  "processEscapes b pending = escapes_loop [] pending b"

definition filterInput :: "Session \<Rightarrow> bytes \<Rightarrow> Session \<times> bytes" where
  "filterInput s keys =
     (case clipIn s of
        None \<Rightarrow> (s, keys)
      | Some f \<Rightarrow>
          if keys = [] then (s, keys)
          else let (f, b) = FilterChunk f [] keys in (s\<lparr>clipIn := Some f\<rparr>, b))"

section \<open>The loop\<close>

record loop =
  escapePending :: bool
  quitRequested :: bool
  shutdownFrom :: time
  fatal :: "error option"
  ctxLive :: bool

definition initLoop :: loop where
  "initLoop = \<lparr>escapePending = False, quitRequested = False, shutdownFrom = 0, fatal = None, ctxLive = True\<rparr>"

datatype loopEvent = CtxDone error | Input bytes | Datagram bytes | Resized | Timer

datatype outcome = Returned "error option" Session env | Running Session loop env

definition setSender :: "Session \<Rightarrow> sender \<Rightarrow> Session" where
  "setSender s sd = s\<lparr>tr := (tr s)\<lparr>trSender := sd\<rparr>\<rparr>"

definition pollSize :: "Session \<Rightarrow> Session \<times> int \<times> int" where
  "pollSize s = (s\<lparr>sizeCalls := sizeCalls s + 1\<rparr>, case Size (cfg s) of Some f \<Rightarrow> f (sizeCalls s) | None \<Rightarrow> (0, 0))"

definition pushSize :: "Session \<Rightarrow> Session" where
  "pushSize s =
     (let (s, width, height) = pollSize s
      in s\<lparr>tr := setUserStream (tr s) (PushResize (UserStream_of (tr s)) width height)\<rparr>)"

definition beginShutdown :: "Session \<Rightarrow> loop \<Rightarrow> env \<Rightarrow> Session \<times> loop \<times> env" where
  "beginShutdown s lp c =
     (let (sd, c) = StartShutdown netConn (trSender (tr s)) c; (now, c) = connNow netConn c
      in (setSender s sd, lp\<lparr>shutdownFrom := now\<rparr>, c))"

definition shutdownDone :: "Session \<Rightarrow> loop \<Rightarrow> env \<Rightarrow> bool \<times> env" where
  "shutdownDone s lp c =
     (let sd = trSender (tr s)
      in if ShutdownInProgress sd then
           if ShutdownAcknowledged sd \<or> ShutdownAckTimedOut sd then (True, c)
           else let (now, c) = connNow netConn c in (ShutdownTimeout (cfg s) < timeSub now (shutdownFrom lp), c)
         else (False, c))"

definition clampWait :: "duration \<Rightarrow> duration" where
  "clampWait wait =
     (let wait = (if wait < millisecond then millisecond else wait)
      in if 100 * millisecond < wait then 100 * millisecond else wait)"

definition loopTop :: "(bytes \<Rightarrow> bytes) \<Rightarrow> Session \<Rightarrow> loop \<Rightarrow> env \<Rightarrow> (outcome \<times> duration) option" where
  "loopTop deflate s lp c =
     (case Tick netConn deflate (trSender (tr s)) c of
        None \<Rightarrow> None
      | Some (sd, _, c) \<Rightarrow>
          Some (let s = setSender s sd;
                    (s, lp, c) = (if RemoteShutdown (tr s) \<and> \<not> ShutdownInProgress (trSender (tr s))
                                 then beginShutdown s lp c else (s, lp, c));
                    (finished, c) = shutdownDone s lp c
                in if finished then (Returned (fatal lp) s c, 0)
                   else
                     let (now, c) = connNow netConn c;
                         (sd, wait) = WaitTime netConn (trSender (tr s)) now c
                     in (Running (setSender s sd) lp c, clampWait wait)))"

definition handleInput :: "Session \<Rightarrow> loop \<Rightarrow> env \<Rightarrow> bytes \<Rightarrow> Session \<times> loop \<times> env" where
  "handleInput s lp c b =
     (let (keys, lp) =
        (if \<not> DisableEscape (cfg s) then
           let (keys, quit, pending) = processEscapes b (escapePending lp)
           in (keys, lp\<lparr>quitRequested := quit, escapePending := pending\<rparr>)
         else (b, lp));
        (s, keys) = filterInput s keys;
        s = (if keys \<noteq> [] then s\<lparr>tr := setUserStream (tr s) (PushKeys (UserStream_of (tr s)) keys)\<rparr> else s)
      in if quitRequested lp \<and> \<not> ShutdownInProgress (trSender (tr s)) then beginShutdown s lp c else (s, lp, c))"

definition handleDatagram ::
  "(nat \<Rightarrow> bytes \<Rightarrow> bytes option) \<Rightarrow> Session \<Rightarrow> loop \<Rightarrow> env \<Rightarrow> bytes \<Rightarrow> outcome" where
  "handleDatagram inflate s lp c payload =
     (let (t, err, x, c) = Transport.Recv netConn inflate applyHost (tr s) payload (scr s) c;
          s = s\<lparr>tr := t, scr := x\<rparr>
      in if err = Some ErrVersionMismatch then Returned err s c else Running s lp c)"

fun handle :: "(nat \<Rightarrow> bytes \<Rightarrow> bytes option) \<Rightarrow> Session \<Rightarrow> loop \<Rightarrow> env \<Rightarrow> loopEvent \<Rightarrow> outcome" where
  "handle inflate s lp c (CtxDone e) =
     (let lp = lp\<lparr>ctxLive := False, quitRequested := True\<rparr>; (s, lp, c) = beginShutdown s lp c
      in Running s (lp\<lparr>fatal := Some e\<rparr>) c)"
| "handle inflate s lp c (Input b) = (let (s, lp, c) = handleInput s lp c b in Running s lp c)"
| "handle inflate s lp c (Datagram payload) = handleDatagram inflate s lp c payload"
| "handle inflate s lp c Resized = Running (pushSize s) lp c"
| "handle inflate s lp c Timer = Running s lp c"

fun runLoop ::
  "(bytes \<Rightarrow> bytes) \<Rightarrow> (nat \<Rightarrow> bytes \<Rightarrow> bytes option) \<Rightarrow> loopEvent list \<Rightarrow> Session \<Rightarrow> loop \<Rightarrow> env \<Rightarrow> outcome option" where
  "runLoop deflate inflate evs s lp c =
     (case loopTop deflate s lp c of
        None \<Rightarrow> None
      | Some (Returned e s c, _) \<Rightarrow> Some (Returned e s c)
      | Some (Running s lp c, _) \<Rightarrow>
          (case evs of
             [] \<Rightarrow> Some (Running s lp c)
           | ev # evs \<Rightarrow>
               (case handle inflate s lp c ev of
                  Returned e s c \<Rightarrow> Some (Returned e s c)
                | Running s lp c \<Rightarrow> runLoop deflate inflate evs s lp c)))"

declare runLoop.simps [simp del]

definition Run ::
  "(bytes \<Rightarrow> bytes) \<Rightarrow> (nat \<Rightarrow> bytes \<Rightarrow> bytes option) \<Rightarrow> Session \<Rightarrow> loopEvent list \<Rightarrow> env \<Rightarrow> outcome option" where
  "Run deflate inflate s evs c =
     (let s = pushSize s
      in map_option
           (\<lambda>r. case r of
                  Returned e s (conn, w) \<Rightarrow> (let (conn, _, w) = Close conn w in Returned e s (conn, w))
                | Running s lp c \<Rightarrow> Running s lp c)
           (runLoop deflate inflate evs s initLoop c))"

section \<open>Lemmas: input and output\<close>

lemma escapes_loop_out:
  "escapes_loop out p b = (case escapes_loop [] p b of (o1, q, p') \<Rightarrow> (out @ o1, q, p'))"
proof (induction b arbitrary: out p)
  case (Cons c b)
  have *: "escapes_loop (xs @ ys) r b = (case escapes_loop ys r b of (o1, q, p') \<Rightarrow> (xs @ o1, q, p'))" for xs ys r
    using Cons [of "xs @ ys" r] Cons [of ys r] by (simp split: prod.splits)
  show ?case
    using * [of out "[]"] * [of out "[escapeKey]"] * [of out "[escapeKey, c]"] * [of out "[c]"] by simp
qed simp

lemma escapes_loop_append:
  "escapes_loop out p (a @ b) =
     (case escapes_loop out p a of (o1, q, p') \<Rightarrow> if q then (o1, True, p') else escapes_loop o1 p' b)"
  by (induction out p a rule: escapes_loop.induct) simp_all

definition escapeByte :: "byte \<Rightarrow> bytes" where
  "escapeByte c = (if c = escapeKey then [escapeKey, escapeKey] else [c])"

lemma escapes_loop_escaped: "escapes_loop out False (concat (map escapeByte t)) = (out @ t, False, False)"
  by (induction t arbitrary: out) (simp_all add: escapeByte_def escapeKey_def)

lemma applyEvents_filters:
  assumes "outScript out = (\<lambda>_. None)"
  shows "\<exists>out'. applyEvents evs (clip, out) = ((fst (Filter_bytes clip [] (concat (map Bytes evs))), out'), None) \<and>
    outScript out' = (\<lambda>_. None) \<and>
    concat (written out') = concat (written out) @ snd (Filter_bytes clip [] (concat (map Bytes evs)))"
  using assms
proof (induction evs arbitrary: clip out)
  case Nil
  then show ?case by (simp add: Filter_bytes_def Filter_loop.simps)
next
  case (Cons ev evs)
  obtain f b where f: "Filter_bytes clip [] (Bytes ev) = (f, b)" by fastforce
  have split: "Filter_bytes clip [] (Bytes ev @ xs) = (case Filter_bytes f [] xs of (g, o1) \<Rightarrow> (g, b @ o1))" for xs
    using f feeds_append [of clip "Bytes ev" xs]
    by (simp add: Filter_bytes_feeds split: prod.splits)
  show ?case
  proof (cases "b = []")
    case True
    then show ?thesis
      using Cons.IH [OF Cons.prems, of f] f split
      by (cases "Bytes ev = []") (auto simp: Filter_bytes_feeds split: prod.splits)
  next
    case False
    let ?o = "out\<lparr>outStep := outStep out + 1, written := written out @ [b]\<rparr>"
    have "Bytes ev \<noteq> []" using False f by (auto simp: Filter_bytes_def Filter_loop.simps)
    then show ?thesis
      using Cons.IH [of ?o f] Cons.prems f split False by (auto simp: writeOutput_def Let_def split: prod.splits)
  qed
qed

section \<open>Lemmas: the loop\<close>

lemma loopTop_returns: "\<exists>r. loopTop deflate s lp c = Some r"
proof -
  obtain sd e c' where "Tick netConn deflate (trSender (tr s)) c = Some (sd, e, c')"
    using net.Tick_returns by (metis prod_cases3)
  then show ?thesis by (simp add: loopTop_def)
qed

lemma runLoop_returns: "\<exists>r. runLoop deflate inflate evs s lp c = Some r"
proof (induction evs arbitrary: s lp c)
  case Nil
  obtain r d where "loopTop deflate s lp c = Some (r, d)" using loopTop_returns by (metis prod.collapse)
  then show ?case by (cases r) (simp_all add: runLoop.simps)
next
  case (Cons ev evs)
  obtain r d where r: "loopTop deflate s lp c = Some (r, d)" using loopTop_returns by (metis prod.collapse)
  show ?case
  proof (cases r)
    case (Running s1 l1 c1)
    then show ?thesis using r Cons by (cases "handle inflate s1 l1 c1 ev") (simp_all add: runLoop.simps)
  qed (use r in \<open>simp add: runLoop.simps\<close>)
qed

text \<open>Nothing ends a session but the shutdown and a foreign protocol version.\<close>

lemma setSender_simps [simp]:
  "trSender (tr (setSender s sd)) = sd" "cfg (setSender s sd) = cfg s" "scr (setSender s sd) = scr s"
  "clipIn (setSender s sd) = clipIn s"
  by (simp_all add: setSender_def)

lemma loopTop_Returned:
  assumes "loopTop deflate s lp c = Some (Returned e s' c', d)"
  shows "shutdownInProgress (trSender (tr s')) \<and> e = fatal lp"
proof -
  obtain sd r c1 where t: "Tick netConn deflate (trSender (tr s)) c = Some (sd, r, c1)"
    using net.Tick_returns by (metis prod_cases3)
  let ?s = "setSender s sd"
  obtain s2 l2 c2 where b: "(if RemoteShutdown (tr ?s) \<and> \<not> ShutdownInProgress (trSender (tr ?s))
      then beginShutdown ?s lp c1 else (?s, lp, c1)) = (s2, l2, c2)" by (metis prod_cases3)
  have l2: "fatal l2 = fatal lp"
    using b by (auto simp: beginShutdown_def Let_def split: if_splits prod.splits)
  obtain f c3 where f: "shutdownDone s2 l2 c2 = (f, c3)" by (metis prod.collapse)
  have "f" "e = fatal l2" "s' = s2"
    using assms unfolding loopTop_def t option.case prod.case Let_def b f
    by (auto split: if_splits prod.splits)
  then show ?thesis
    using f l2 by (auto simp: shutdownDone_def ShutdownInProgress_def Let_def split: if_splits)
qed

lemma beginShutdown_fatal: "beginShutdown s lp c = (s', lp', c') \<Longrightarrow> fatal lp' = fatal lp"
  by (auto simp: beginShutdown_def Let_def split: prod.splits)

lemma handleInput_fatal: "handleInput s lp c b = (s', lp', c') \<Longrightarrow> fatal lp' = fatal lp"
  by (auto simp: handleInput_def Let_def dest!: beginShutdown_fatal split: if_splits prod.splits)

lemma handle_fatal:
  assumes "handle inflate s lp c ev = Running s' lp' c'"
  shows "fatal lp' = fatal lp \<or> (\<exists>e. ev = CtxDone e \<and> fatal lp' = Some e)"
  using assms
  by (cases ev) (auto simp: handleDatagram_def Let_def dest: handleInput_fatal split: prod.splits if_splits)

lemma handle_Returned:
  "handle inflate s lp c ev = Returned e s' c' \<Longrightarrow> e = Some ErrVersionMismatch"
  by (cases ev) (auto simp: handleDatagram_def Let_def split: prod.splits if_splits)

lemma loopTop_fatal:
  "loopTop deflate s lp c = Some (Running s' lp' c', d) \<Longrightarrow> fatal lp' = fatal lp"
  by (auto simp: loopTop_def Let_def dest!: beginShutdown_fatal split: option.splits if_splits prod.splits)

lemma runLoop_Returned:
  assumes "runLoop deflate inflate evs s lp c = Some (Returned e s' c')"
  shows "e = Some ErrVersionMismatch \<or>
    shutdownInProgress (trSender (tr s')) \<and> (e = fatal lp \<or> (\<exists>x. CtxDone x \<in> set evs \<and> e = Some x))"
  using assms
proof (induction evs arbitrary: s lp c)
  case Nil
  obtain r d where "loopTop deflate s lp c = Some (r, d)" using loopTop_returns by (metis prod.collapse)
  then show ?case using Nil loopTop_Returned by (cases r) (auto simp: runLoop.simps)
next
  case (Cons ev evs)
  obtain r d where r: "loopTop deflate s lp c = Some (r, d)" using loopTop_returns by (metis prod.collapse)
  show ?case
  proof (cases r)
    case (Returned e2 s2 c2)
    then show ?thesis using r Cons.prems loopTop_Returned by (auto simp: runLoop.simps)
  next
    case (Running s1 l1 c1)
    note f = loopTop_fatal [OF r [unfolded Running]]
    show ?thesis
    proof (cases "handle inflate s1 l1 c1 ev")
      case (Returned e2 s2 c2)
      then show ?thesis using handle_Returned [OF Returned] r Running Cons.prems by (auto simp: runLoop.simps)
    next
      case R: (Running s2 l2 c2)
      then have "runLoop deflate inflate evs s2 l2 c2 = Some (Returned e s' c')"
        using Cons.prems r Running by (simp add: runLoop.simps)
      from Cons.IH [OF this] handle_fatal [OF R] f show ?thesis by auto
    qed
  qed
qed

text \<open>Once the closing handshake has outlived its timeout, the next iteration returns.\<close>

lemma loopTop_timeout:
  assumes "sender_inv (trSender (tr s))" "shutdownInProgress (trSender (tr s))"
    "\<forall>n. shutdownFrom lp + ShutdownTimeout (cfg s) < ansTime (script w n)"
    "0 \<le> ShutdownTimeout (cfg s)" "ShutdownTimeout (cfg s) < maxDuration"
  shows "\<exists>s' c'. loopTop deflate s lp (conn, w) = Some (Returned (fatal lp) s' c', 0)"
proof -
  obtain sd r c1 where t: "Tick netConn deflate (trSender (tr s)) (conn, w) = Some (sd, r, c1)"
    using net.Tick_returns by (metis prod_cases3)
  obtain conn1 w1 where c1: "c1 = (conn1, w1)" by fastforce
  have "script w1 = script w" using net_script.Tick_keeps [OF _ t, of "script w"] c1 by simp
  then obtain now c2 where now: "connNow netConn c1 = (now, c2)" "shutdownFrom lp + ShutdownTimeout (cfg s) < now"
    using assms(3) by (auto simp: netConn_def c1 timeNow_def call_def)
  have "shutdownInProgress sd"
    using Tick_spec [OF t assms(1)] assms(2) by (auto simp: tick_result_def calculateTimers_fields)
  moreover have "ShutdownTimeout (cfg s) < timeSub now (shutdownFrom lp)"
    using now(2) assms(4,5) by (simp add: timeSub_def)
  ultimately show ?thesis
    using now by (auto simp: loopTop_def t shutdownDone_def ShutdownInProgress_def Let_def)
qed

lemma runLoop_timeout:
  assumes "loopTop deflate s lp c = Some (Returned e s' c', d)"
  shows "runLoop deflate inflate evs s lp c = Some (Returned e s' c')"
  using assms by (simp add: runLoop.simps)

section \<open>The client and the server\<close>

text \<open>What an event adds to the user's history: the bytes that escapes and the filter let through.\<close>

definition forwarded :: "Session \<Rightarrow> loop \<Rightarrow> bytes \<Rightarrow> bytes" where
  "forwarded s lp b =
     snd (filterInput s (if DisableEscape (cfg s) then b else fst (processEscapes b (escapePending lp))))"

fun userEvents :: "Session \<Rightarrow> loop \<Rightarrow> loopEvent \<Rightarrow> UserEvent list" where
  "userEvents s lp (Input b) = keyEvents (forwarded s lp b)"
| "userEvents s lp Resized = (case snd (pollSize s) of (width, height) \<Rightarrow> [resizeEvent width height])"
| "userEvents s lp _ = []"

text \<open>
  The client and the server together: an iteration of the loop, the receiving goroutine and the
  network changing the connection and the world at will, the arrival of an instruction that was
  sent, the server dropping a state. The history fits, sizes are \<^verbatim>\<open>int\<close>s and state numbers
  are left.
\<close>

record whole =
  wSession :: Session
  wLoop :: loop
  wEnv :: env
  wTyped :: "UserEvent list"
  wHeld :: "u64 \<Rightarrow> UserEvent list option"

inductive whole_step ::
  "(bytes \<Rightarrow> bytes) \<Rightarrow> (nat \<Rightarrow> bytes \<Rightarrow> bytes option) \<Rightarrow>
   ((u64 \<Rightarrow> UserEvent list option) \<Rightarrow> Instruction \<Rightarrow> (u64 \<Rightarrow> UserEvent list option)) \<Rightarrow> whole \<Rightarrow> whole \<Rightarrow> bool"
  for deflate inflate recv where
  iterate: "loopTop deflate (wSession z) (wLoop z) (wEnv z) = Some (Running s1 l1 c1, d) \<Longrightarrow>
    handle inflate s1 l1 c1 ev = Running s2 l2 c2 \<Longrightarrow>
    shutdownInProgress (trSender (tr (wSession z))) \<or>
      stateNum (last (sentStates (trSender (tr (wSession z))))) < ShutdownNum - 1 \<Longrightarrow>
    length (wTyped z) + length (userEvents s1 l1 ev) < 2 ^ 56 \<Longrightarrow>
    go_int (fst (snd (pollSize s1))) \<Longrightarrow> go_int (snd (snd (pollSize s1))) \<Longrightarrow>
    whole_step deflate inflate recv z
      (z\<lparr>wSession := s2, wLoop := l2, wEnv := c2, wTyped := wTyped z @ userEvents s1 l1 ev\<rparr>)"
| pump: "whole_step deflate inflate recv z (z\<lparr>wEnv := k\<rparr>)"
| deliver: "inst \<in> set (emitted (trSender (tr (wSession z)))) \<Longrightarrow>
    whole_step deflate inflate recv z (z\<lparr>wHeld := recv (wHeld z) inst\<rparr>)"
| forget: "n \<noteq> ShutdownNum \<Longrightarrow> whole_step deflate inflate recv z (z\<lparr>wHeld := (wHeld z)(n := None)\<rparr>)"

text \<open>The system of \<open>Sync\<close> that a state of the whole shows.\<close>

definition sysOf :: "Session \<Rightarrow> UserEvent list \<Rightarrow> (u64 \<Rightarrow> UserEvent list option) \<Rightarrow> sys" where
  "sysOf s T h = \<lparr>client = trSender (tr s), typed = T, held = h\<rparr>"

abbreviation steps where
  "steps deflate recv \<equiv> (sys_step netConn deflate recv)\<^sup>*\<^sup>*"

lemma sender_steps:
  assumes "(sender_step netConn deflate)\<^sup>*\<^sup>* sd sd'" "trSender (tr s) = sd" "trSender (tr s') = sd'"
  shows "steps deflate recv (sysOf s T h) (sysOf s' T h)"
proof -
  have "steps deflate recv \<lparr>client = sd, typed = T, held = h\<rparr> \<lparr>client = sd', typed = T, held = h\<rparr>"
    using assms(1)
  proof (induction rule: rtranclp_induct)
    case (step y z)
    then show ?case using sys_step.sender [of netConn deflate "\<lparr>client = y, typed = T, held = h\<rparr>" z recv] by simp
  qed simp
  then show ?thesis using assms(2,3) by (simp add: sysOf_def)
qed

lemma beginShutdown_steps:
  assumes "beginShutdown s lp c = (s', lp', c')"
  shows "(sender_step netConn deflate)\<^sup>*\<^sup>* (trSender (tr s)) (trSender (tr s'))"
  using assms sender_step.shutdown [of netConn deflate "trSender (tr s)" c]
  by (auto simp: beginShutdown_def Let_def split: prod.splits)

lemma loopTop_steps:
  assumes "loopTop deflate s lp c = Some (Running s' lp' c', d)"
    "shutdownInProgress (trSender (tr s)) \<or> stateNum (last (sentStates (trSender (tr s)))) < ShutdownNum - 1"
  shows "(sender_step netConn deflate)\<^sup>*\<^sup>* (trSender (tr s)) (trSender (tr s'))"
proof -
  obtain sd r c1 where t: "Tick netConn deflate (trSender (tr s)) c = Some (sd, r, c1)"
    using net.Tick_returns by (metis prod_cases3)
  let ?s = "setSender s sd"
  obtain s2 l2 c2 where b: "(if RemoteShutdown (tr ?s) \<and> \<not> ShutdownInProgress (trSender (tr ?s))
      then beginShutdown ?s lp c1 else (?s, lp, c1)) = (s2, l2, c2)" by (metis prod_cases3)
  obtain f c3 where f: "shutdownDone s2 l2 c2 = (f, c3)" by (metis prod.collapse)
  have 1: "sender_step netConn deflate (trSender (tr s)) sd" by (rule sender_step.tick [OF t assms(2)])
  have 2: "(sender_step netConn deflate)\<^sup>*\<^sup>* sd (trSender (tr s2))"
    using b beginShutdown_steps [of ?s lp c1 s2 l2 c2 deflate] by (auto split: if_splits)
  have "\<exists>now w. trSender (tr s') = fst (WaitTime netConn (trSender (tr s2)) now w)"
    using assms(1) unfolding loopTop_def t option.case prod.case Let_def b f
    by (auto split: if_splits prod.splits) (metis fst_conv surj_pair)
  then have 3: "sender_step netConn deflate (trSender (tr s2)) (trSender (tr s'))"
    using sender_step.wait by metis
  show ?thesis using 1 2 3 by (meson converse_rtranclp_into_rtranclp rtranclp.rtrancl_into_rtrancl)
qed

lemma filterInput_tr: "filterInput s b = (s', b') \<Longrightarrow> tr s' = tr s \<and> cfg s' = cfg s"
  by (auto simp: filterInput_def Let_def split: option.splits if_splits prod.splits)

lemma push_steps:
  assumes "length T + length b < 2 ^ 56"
  shows "steps deflate recv (sysOf s T h)
    (sysOf (s\<lparr>tr := setUserStream (tr s) (PushKeys (UserStream_of (tr s)) b)\<rparr>) (T @ keyEvents b) h)"
  using sys_step.keys [of "sysOf s T h" b netConn deflate recv] assms
  by (auto simp: sysOf_def setUserStream_def UserStream_of_def)

lemma resize_steps:
  assumes "length T + 1 < 2 ^ 56" "go_int width" "go_int height"
  shows "steps deflate recv (sysOf s T h)
    (sysOf (s\<lparr>tr := setUserStream (tr s) (PushResize (UserStream_of (tr s)) width height)\<rparr>) (T @ [resizeEvent width height]) h)"
  using sys_step.resize [of "sysOf s T h" width height netConn deflate recv] assms
  by (auto simp: sysOf_def setUserStream_def UserStream_of_def)

text \<open>What a read of the input does: the keystrokes that are let through are pushed, and the quit sequence begins
  the closing handshake.\<close>

lemma handleInput_parts:
  assumes "handleInput s lp c b = (s', lp', c')"
  obtains s1 lp1 quit where "tr s1 = tr s" "cfg s1 = cfg s"
    "(s', lp', c') =
       (let ks = forwarded s lp b; s2 = (if ks \<noteq> [] then s1\<lparr>tr := setUserStream (tr s1) (PushKeys (UserStream_of (tr s1)) ks)\<rparr> else s1)
        in if quit then beginShutdown s2 lp1 c else (s2, lp1, c))"
proof -
  obtain keys lp1 where k: "(if \<not> DisableEscape (cfg s) then
      case processEscapes b (escapePending lp) of
        (keys, quit, pending) \<Rightarrow> (keys, lp\<lparr>quitRequested := quit, escapePending := pending\<rparr>)
      else (b, lp)) = (keys, lp1)"
    by (metis prod.collapse)
  have keys: "keys = (if DisableEscape (cfg s) then b else fst (processEscapes b (escapePending lp)))"
    using k by (auto simp: Let_def split: if_splits prod.splits)
  obtain s1 ks where f: "filterInput s keys = (s1, ks)" by (metis prod.collapse)
  then have ks: "forwarded s lp b = ks" "tr s1 = tr s" "cfg s1 = cfg s"
    using keys filterInput_tr by (auto simp: forwarded_def)
  define s2 where "s2 = (if ks \<noteq> [] then s1\<lparr>tr := setUserStream (tr s1) (PushKeys (UserStream_of (tr s1)) ks)\<rparr> else s1)"
  have "(s', lp', c') = (if quitRequested lp1 \<and> \<not> ShutdownInProgress (trSender (tr s2)) then beginShutdown s2 lp1 c else (s2, lp1, c))"
    using assms unfolding handleInput_def Let_def k prod.case f s2_def by simp
  then show thesis using that [OF ks(2,3), of "quitRequested lp1 \<and> \<not> ShutdownInProgress (trSender (tr s2))" lp1]
    by (simp add: s2_def ks(1) Let_def)
qed

lemma handleInput_steps:
  assumes "handleInput s lp c b = (s', lp', c')" "length T + length (forwarded s lp b) < 2 ^ 56"
  shows "steps deflate recv (sysOf s T h) (sysOf s' (T @ keyEvents (forwarded s lp b)) h)"
proof -
  let ?ks = "forwarded s lp b"
  obtain s1 lp1 quit where p: "tr s1 = tr s" "(s', lp', c') =
      (let s2 = (if ?ks \<noteq> [] then s1\<lparr>tr := setUserStream (tr s1) (PushKeys (UserStream_of (tr s1)) ?ks)\<rparr> else s1)
       in if quit then beginShutdown s2 lp1 c else (s2, lp1, c))"
    by (rule handleInput_parts [OF assms(1)]) (simp add: Let_def)
  define s2 where "s2 = (if ?ks \<noteq> [] then s1\<lparr>tr := setUserStream (tr s1) (PushKeys (UserStream_of (tr s1)) ?ks)\<rparr> else s1)"
  have "sysOf s T h = sysOf s1 T h" by (simp add: sysOf_def p)
  then have 1: "steps deflate recv (sysOf s T h) (sysOf s2 (T @ keyEvents ?ks) h)"
    using push_steps [of T ?ks deflate recv s1 h] assms(2) by (simp add: s2_def keyEvents_def)
  have "(sender_step netConn deflate)\<^sup>*\<^sup>* (trSender (tr s2)) (trSender (tr s'))"
    using p(2) beginShutdown_steps [of s2 lp1 c s' lp' c'] by (auto simp: Let_def s2_def [symmetric] split: if_splits)
  then have "steps deflate recv (sysOf s2 (T @ keyEvents ?ks) h) (sysOf s' (T @ keyEvents ?ks) h)"
    by (rule sender_steps) simp_all
  with 1 show ?thesis by simp
qed

lemma Recv_steps:
  assumes "Transport.Recv k inflate applyCb t payload x w = (t', err, x', w')"
  shows "(sender_step k deflate)\<^sup>*\<^sup>* (trSender t) (trSender t')"
  using assms
proof (cases rule: Recv_outcome)
  case (rendered a inst)
  then show ?thesis
    using rtranclp.rtrancl_into_rtrancl [OF steps_acked [of k deflate "trSender t" inst "Diff inst \<noteq> []"] sender_step.acknum]
    by simp
qed (use steps_acked [of k deflate "trSender t"] in auto)

lemma handle_steps:
  assumes "handle inflate s lp c ev = Running s' lp' c'" "length T + length (userEvents s lp ev) < 2 ^ 56"
    "go_int (fst (snd (pollSize s)))" "go_int (snd (snd (pollSize s)))"
  shows "steps deflate recv (sysOf s T h) (sysOf s' (T @ userEvents s lp ev) h)"
proof (cases ev)
  case (CtxDone e)
  obtain s1 l1 c1 where b: "beginShutdown s (lp\<lparr>ctxLive := False, quitRequested := True\<rparr>) c = (s1, l1, c1)"
    by (metis prod_cases3)
  then have "s' = s1" using assms(1) CtxDone by simp
  then show ?thesis using sender_steps [OF beginShutdown_steps [OF b]] CtxDone by simp
next
  case (Input b)
  obtain s1 l1 c1 where "handleInput s lp c b = (s1, l1, c1)" by (metis prod_cases3)
  then show ?thesis using handleInput_steps assms(1,2) Input by (simp add: keyEvents_def)
next
  case (Datagram payload)
  obtain t err x c1 where r: "Transport.Recv netConn inflate applyHost (tr s) payload (scr s) c = (t, err, x, c1)"
    by (metis prod_cases4)
  then have "tr s' = t" using assms(1) Datagram by (auto simp: handleDatagram_def Let_def split: if_splits)
  then show ?thesis using sender_steps [OF Recv_steps [OF r]] Datagram by simp
next
  case Resized
  obtain s1 width height where p: "pollSize s = (s1, width, height)" by (metis prod_cases3)
  then have "sysOf s1 T h = sysOf s T h" by (auto simp: pollSize_def sysOf_def)
  then show ?thesis
    using resize_steps [of T width height deflate recv s1 h] assms Resized p by (auto simp: pushSize_def)
next
  case Timer
  then show ?thesis using assms(1) by simp
qed

lemma whole_step_steps:
  assumes "whole_step deflate inflate recv z z'"
  shows "steps deflate recv (sysOf (wSession z) (wTyped z) (wHeld z)) (sysOf (wSession z') (wTyped z') (wHeld z'))"
  using assms
proof cases
  case (iterate s1 l1 c1 d ev s2 l2 c2)
  have "steps deflate recv (sysOf (wSession z) (wTyped z) (wHeld z)) (sysOf s1 (wTyped z) (wHeld z))"
    using sender_steps [OF loopTop_steps [OF iterate(2,4)]] by simp
  also have "steps deflate recv \<dots> (sysOf s2 (wTyped z @ userEvents s1 l1 ev) (wHeld z))"
    by (rule handle_steps [OF iterate(3,5,6,7)])
  finally show ?thesis using iterate(1) by simp
next
  case (pump k)
  then show ?thesis by simp
next
  case (deliver inst)
  then show ?thesis using sys_step.deliver [of inst "sysOf (wSession z) (wTyped z) (wHeld z)"]
    by (auto simp: sysOf_def)
next
  case (forget n)
  then show ?thesis using sys_step.forget [of n netConn deflate recv "sysOf (wSession z) (wTyped z) (wHeld z)"]
    by (auto simp: sysOf_def)
qed

section \<open>Claims\<close>

lemma whole_inv:
  assumes "mosh_receiver recv" "(whole_step deflate inflate recv)\<^sup>*\<^sup>* z z'"
    "sync_inv (sysOf (wSession z) (wTyped z) (wHeld z))"
  shows "sync_inv (sysOf (wSession z') (wTyped z') (wHeld z'))"
  using assms(2)
proof (induction rule: rtranclp_induct)
  case base
  show ?case by (fact assms(3))
next
  case (step y x)
  then show ?case using sync_inv_run [OF whole_step_steps assms(1)] by blast
qed

lemma start_inv:
  assumes "New c out w = (Inr (s, k), w')" "pollSize s = (s1, width, height)" "go_int width" "go_int height"
    "mosh_receiver recv"
  shows "sync_inv (sysOf (pushSize s) [resizeEvent width height] [0 \<mapsto> []])"
proof -
  have "\<exists>q. trSender (tr s) = fst (newSender netConn q)"
    using assms(1)
    by (auto simp: New_def Transport.New_def Let_def split: prod.splits sum.splits) (metis fst_conv)
  then obtain q where "sysOf s [] [0 \<mapsto> []] = initSys netConn q" by (auto simp: sysOf_def initSys_def)
  moreover have "sysOf s1 [] [0 \<mapsto> []] = sysOf s [] [0 \<mapsto> []]" using assms(2) by (auto simp: pollSize_def sysOf_def)
  moreover have "steps id recv (sysOf s1 [] [0 \<mapsto> []]) (sysOf (pushSize s) [resizeEvent width height] [0 \<mapsto> []])"
    using resize_steps [of "[]" width height id recv s1 "[0 \<mapsto> []]"] assms(2,3,4) by (simp add: pushSize_def)
  ultimately show ?thesis using sync_inv_run [OF _ assms(5)] sync_inv_init by metis
qed

text \<open>C1: the program and the server. Run the client from \<open>New\<close> on any world, with any input, window
  changes, datagrams, cancellation and timing, against a mosh server that receives any selection
  of the instructions the client sends, in any order and any number of times, and forgets states
  at will. Every state the server ever holds is a prefix of what the user did: the window size
  first, then the keystrokes that the escapes and the clipboard filter let through and the
  resizes, complete, once and in order.\<close>

theorem client_server_prefix:
  assumes "mosh_receiver recv" "New c out w = (Inr (s, k), w')"
    and "pollSize s = (s1, width, height)" "go_int width" "go_int height"
    and "(whole_step deflate inflate recv)\<^sup>*\<^sup>*
      \<lparr>wSession = pushSize s, wLoop = initLoop, wEnv = k, wTyped = [resizeEvent width height], wHeld = [0 \<mapsto> []]\<rparr> z"
    and "wHeld z n = Some X"
  shows "prefix X (wTyped z)"
proof -
  have "sync_inv (sysOf (wSession z) (wTyped z) (wHeld z))"
    by (rule whole_inv [OF assms(1,6)]) (simp add: start_inv [OF assms(2,3,4,5,1)])
  then show ?thesis using assms(7) by (auto simp: sync_inv_def held_ok_def sysOf_def)
qed

definition plainConfig :: Config where
  "plainConfig = \<lparr>Addr = ''h:1'', Key = replicate 16 0, Size = None, DisableEscape = False, Clipboard = Write, ShutdownTimeout = 0\<rparr>"

definition plainOutput :: Output where
  "plainOutput = \<lparr>outScript = (\<lambda>_. None), outStep = 0, written = []\<rparr>"

lemma plain_New:
  "\<exists>s k w'. New plainConfig plainOutput goodWorld = (Inr (s, k), w') \<and> snd (pollSize s) = (80, 24)"
  by (simp add: New_def plainConfig_def defaults_def Dial_def NewSession_zero goodWorld_def call_def dialUDP_def timeNow_def
      pollSize_def Let_def split: prod.splits)

lemma client_server_prefix_witness:
  "\<exists>s k w' z. New plainConfig plainOutput goodWorld = (Inr (s, k), w') \<and>
     (whole_step (\<lambda>b. b) (\<lambda>n b. Some (take n b)) plainReceiver)\<^sup>*\<^sup>*
       \<lparr>wSession = pushSize s, wLoop = initLoop, wEnv = k, wTyped = [resizeEvent 80 24], wHeld = [0 \<mapsto> []]\<rparr> z \<and>
     prefix [] (wTyped z)"
proof -
  obtain s k w' where n: "New plainConfig plainOutput goodWorld = (Inr (s, k), w')" "snd (pollSize s) = (80, 24)"
    using plain_New by blast
  obtain s1 where p: "pollSize s = (s1, 80, 24)" using n(2) by (metis prod.collapse)
  show ?thesis
    using client_server_prefix [OF plainReceiver_ok n(1) p _ _ rtranclp.rtrancl_refl, of 0 "[]"] n(1)
    by (intro exI conjI) (assumption | rule rtranclp.rtrancl_refl | simp)+
qed

text \<open>A session in the closing handshake, past its timeout.\<close>

definition closingSession :: Session where
  "closingSession = \<lparr>cfg = defaults plainConfig, tr = \<lparr>trSender = waitingSender\<lparr>shutdownInProgress := True\<rparr>,
    trAssembly = zeroAssembly, latestNum = 0, remoteShutdown = False\<rparr>, scr = (Osc52.New Off, plainOutput),
    clipIn = None, sizeCalls = 0\<rparr>"

lemma closing_timeout:
  "sender_inv (trSender (tr closingSession))" "shutdownInProgress (trSender (tr closingSession))"
  "\<forall>n. shutdownFrom initLoop + ShutdownTimeout (cfg closingSession) < ansTime (script goodWorld n)"
  "0 \<le> ShutdownTimeout (cfg closingSession)" "ShutdownTimeout (cfg closingSession) < maxDuration"
  using waitingSender_inv(1)
  by (simp_all add: closingSession_def sender_inv_def initLoop_def defaults_def plainConfig_def goodWorld_def go_time)

lemma closing_pushed:
  "sender_inv (trSender (tr (pushSize closingSession)))" "shutdownInProgress (trSender (tr (pushSize closingSession)))"
  "cfg (pushSize closingSession) = cfg closingSession"
  using sender_inv_push [OF closing_timeout(1) stream_prefix_Push(2)] closing_timeout(2)
  by (simp_all add: pushSize_def pollSize_def setUserStream_def UserStream_of_def State_def Let_def split: option.splits prod.splits)

text \<open>C32: what ends a session. Whatever arrives on the socket, however often sending fails and
  whatever the output returns, \<open>Run\<close> returns only in the closing handshake, with the error of
  the context if that was cancelled and none otherwise, or on an instruction of another protocol
  version. Loss of the network never ends it.\<close>

theorem session_end:
  assumes "Run deflate inflate s evs k = Some (Returned e s' k')"
  shows "e = Some ErrVersionMismatch \<or>
    shutdownInProgress (trSender (tr s')) \<and> (e = None \<or> (\<exists>x. CtxDone x \<in> set evs \<and> e = Some x))"
proof -
  obtain r where r: "runLoop deflate inflate evs (pushSize s) initLoop k = Some r" using runLoop_returns by blast
  then obtain k2 where "r = Returned e s' k2"
    using assms by (cases r) (auto simp: Run_def Let_def split: prod.splits)
  then show ?thesis using runLoop_Returned [of deflate inflate evs "pushSize s" initLoop k e s' k2] r
    by (auto simp: initLoop_def)
qed

lemma session_end_witness:
  "\<exists>e s' k'. Run (\<lambda>b. b) (\<lambda>n b. None) closingSession []
     (newConnection ''h'' 0 (newSession (replicate 16 0)) 0, goodWorld) = Some (Returned e s' k') \<and>
     (e = Some ErrVersionMismatch \<or> shutdownInProgress (trSender (tr s')) \<and> e = None)"
proof -
  let ?c = "newConnection ''h'' 0 (newSession (replicate 16 0)) 0"
  obtain s' k' where "loopTop (\<lambda>b. b) (pushSize closingSession) initLoop (?c, goodWorld) = Some (Returned None s' k', 0)"
    using loopTop_timeout [of "pushSize closingSession" initLoop goodWorld "\<lambda>b. b" ?c] closing_pushed closing_timeout
    by (auto simp: initLoop_def)
  then have "\<exists>k''. Run (\<lambda>b. b) (\<lambda>n b. None) closingSession [] (?c, goodWorld) = Some (Returned None s' k'')"
    by (cases k') (auto simp: Run_def runLoop_timeout Close_def Let_def split: prod.splits)
  then show ?thesis using session_end [of "\<lambda>b. b" "\<lambda>n b. None" closingSession "[]"] by fastforce
qed

text \<open>C33: the loop keeps going. Every iteration comes back, so that a run of any events is defined: it
  has returned or is still running; and the time an iteration sleeps is between 1 and 100 ms, so
  that it neither spins nor misses input for long.\<close>

theorem loop_alive:
  "(\<exists>r. Run deflate inflate s evs k = Some r) \<and>
   (\<exists>r wait. loopTop deflate s lp k = Some (r, wait) \<and>
      (case r of Running _ _ _ \<Rightarrow> millisecond \<le> wait \<and> wait \<le> 100 * millisecond | Returned _ _ _ \<Rightarrow> wait = 0))"
proof -
  obtain r wait where r: "loopTop deflate s lp k = Some (r, wait)" using loopTop_returns by (metis prod.collapse)
  obtain sd e c where t: "Tick netConn deflate (trSender (tr s)) k = Some (sd, e, c)"
    using net.Tick_returns by (metis prod_cases3)
  have "case r of Running _ _ _ \<Rightarrow> millisecond \<le> wait \<and> wait \<le> 100 * millisecond | Returned _ _ _ \<Rightarrow> wait = 0"
    using r by (auto simp: loopTop_def t clampWait_def Let_def go_time split: prod.splits if_splits)
  then show ?thesis using r runLoop_returns [of deflate inflate evs "pushSize s" initLoop k] by (auto simp: Run_def)
qed



text \<open>The escape key. Cutting the input at any point changes nothing: a chunk continues where the
  one before it stopped, unless that one asked to quit. And every text can be sent: with each
  escape key doubled, it is forwarded exactly, without a quit and with nothing held back.\<close>

theorem escapes_stream:
  "processEscapes (a @ b) pending =
     (case processEscapes a pending of
        (out, True, pending') \<Rightarrow> (out, True, pending')
      | (out, False, pending') \<Rightarrow>
          (case processEscapes b pending' of (out', quit, pending'') \<Rightarrow> (out @ out', quit, pending''))) \<and>
   processEscapes (concat (map escapeByte t)) False = (t, False, False)"
proof -
  obtain o1 q p1 where "escapes_loop [] pending a = (o1, q, p1)" by (metis prod_cases3)
  then show ?thesis
    using escapes_loop_append [of "[]" pending a b] escapes_loop_out [of o1 p1 b] escapes_loop_escaped [of "[]" t]
    by (cases q) (simp_all add: processEscapes_def)
qed

text \<open>What reaches the terminal. While its writes succeed, applying a host message writes what
  the clipboard filter makes of the concatenated bytes of its events and nothing else, and leaves
  the filter where that run leaves it: how the server cuts its output into events and messages
  plays no part.\<close>

theorem apply_filters_stream:
  assumes "UnmarshalHostMessage diff = Inr evs" "outScript out = (\<lambda>_. None)"
  shows "\<exists>out'. applyHost diff (clip, out) = ((fst (Filter_bytes clip [] (concat (map Bytes evs))), out'), None) \<and>
    concat (written out') = concat (written out) @ snd (Filter_bytes clip [] (concat (map Bytes evs)))"
  using applyEvents_filters [OF assms(2), of evs clip] assms(1) by (auto simp: applyHost_def)

lemma apply_filters_stream_witness:
  "\<exists>out'. applyHost [] (Osc52.New Off, plainOutput) = ((fst (Filter_bytes (Osc52.New Off) [] []), out'), None)"
proof -
  have "UnmarshalHostMessage [] = Inr []" by (simp add: UnmarshalHostMessage_def)
  then show ?thesis using apply_filters_stream [of "[]" "[]" plainOutput "Osc52.New Off"] by (auto simp: plainOutput_def)
qed

end
