(* ===== verification/Filepath.thy ===== *)
theory Filepath
  imports Gosh_Prelude
begin

text \<open>
  What the sources use of the packages \<^verbatim>\<open>strings\<close>, \<^verbatim>\<open>path/filepath\<close> and \<^verbatim>\<open>os\<close> of the standard library to
  form paths: \<^verbatim>\<open>strings.Join\<close>, \<^verbatim>\<open>filepath.Join\<close> with its \<^verbatim>\<open>Clean\<close> (for the separator \<^verbatim>\<open>/\<close>) and
  \<^verbatim>\<open>os.UserHomeDir\<close>. The environment is a function, a variable that is not set being empty.
\<close>

fun join :: "string \<Rightarrow> string list \<Rightarrow> string" where
  "join sep [] = []"
| "join sep [s] = s"
| "join sep (s # ss) = s @ sep @ join sep ss"

text \<open>The elements of a path, between its separators.\<close>

fun elements :: "string \<Rightarrow> string \<Rightarrow> string list" where
  "elements cur [] = [cur]"
| "elements cur (c # s) = (if c = CHR ''/'' then cur # elements [] s else elements (cur @ [c]) s)"

text \<open>One element, on the stack of those kept so far.\<close>

definition cleanStep :: "bool \<Rightarrow> string list \<Rightarrow> string \<Rightarrow> string list" where
  "cleanStep rooted kept e =
     (if e = [] \<or> e = ''.'' then kept
      else if e = ''..'' then
        (if kept \<noteq> [] \<and> hd kept \<noteq> ''..'' then tl kept
         else if rooted then kept else ''..'' # kept)
      else e # kept)"

definition Clean :: "string \<Rightarrow> string" where
  "Clean path =
     (if path = [] then ''.''
      else
        let rooted = hd path = CHR ''/'';
            out = (if rooted then ''/'' else []) @ join ''/'' (rev (foldl (cleanStep rooted) [] (elements [] path)))
        in if out = [] then ''.'' else out)"

definition filepath_Join :: "string list \<Rightarrow> string" where
  "filepath_Join elem =
     (let elem = dropWhile (\<lambda>e. e = []) elem in if elem = [] then [] else Clean (join ''/'' elem))"

definition UserHomeDir :: "string \<Rightarrow> (string \<Rightarrow> string) \<Rightarrow> string option" where
  "UserHomeDir goos getenv =
     (let home = getenv (if goos = ''windows'' then ''USERPROFILE'' else ''HOME'') in if home = [] then None else Some home)"

section \<open>Lemmas\<close>

text \<open>An element that \<^verbatim>\<open>Clean\<close> keeps.\<close>

definition plain_elem :: "string \<Rightarrow> bool" where
  "plain_elem e \<longleftrightarrow> e \<noteq> [] \<and> e \<noteq> ''.'' \<and> e \<noteq> ''..'' \<and> CHR ''/'' \<notin> set e"

lemma elements_append: "elements cur (a @ CHR ''/'' # b) = elements cur a @ elements [] b"
  by (induction a arbitrary: cur) auto

lemma elements_plain: "CHR ''/'' \<notin> set e \<Longrightarrow> elements cur e = [cur @ e]"
  by (induction e arbitrary: cur) auto

lemma elements_join:
  "es \<noteq> [] \<Longrightarrow> \<forall>e\<in>set es. CHR ''/'' \<notin> set e \<Longrightarrow> elements [] (join ''/'' es) = es"
proof (induction "''/''" es rule: join.induct)
  case (2 s)
  then show ?case by (simp add: elements_plain)
next
  case (3 s t ss)
  then show ?case by (simp add: elements_append elements_plain)
qed simp

lemma cleanStep_plain: "plain_elem e \<Longrightarrow> cleanStep rooted kept e = e # kept"
  by (simp add: cleanStep_def plain_elem_def)

lemma clean_plain: "\<forall>e\<in>set es. plain_elem e \<Longrightarrow> foldl (cleanStep rooted) kept es = rev es @ kept"
  by (induction es arbitrary: kept) (simp_all add: cleanStep_plain)

text \<open>Joining plain elements below a directory whose path is already clean.\<close>

lemma filepath_Join_below:
  assumes "dir = ''/'' @ join ''/'' ds" "ds \<noteq> []" "\<forall>e\<in>set (ds @ es). plain_elem e" "es \<noteq> []"
  shows "filepath_Join (dir # es) = dir @ ''/'' @ join ''/'' es"
proof -
  have j: "join ''/'' (a @ es) = join ''/'' a @ ''/'' @ join ''/'' es" if "a \<noteq> []" for a
    using that assms(4)
  proof (induction "''/''" a rule: join.induct)
    case (2 s)
    then show ?case by (cases es) simp_all
  qed simp_all
  let ?p = "join ''/'' (dir # es)"
  have p: "?p = CHR ''/'' # join ''/'' (ds @ es)" using assms(1) j [of "[dir]"] j [OF assms(2)] by simp
  have el: "elements [] ?p = [] # (ds @ es)"
    unfolding p using elements_join [of "ds @ es"] assms(2,3) by (auto simp: plain_elem_def)
  have "foldl (cleanStep True) [] (elements [] ?p) = rev (ds @ es)"
    unfolding el using clean_plain [OF assms(3), of True "[]"] by (simp add: cleanStep_def)
  then have "Clean ?p = CHR ''/'' # join ''/'' (ds @ es)" unfolding Clean_def Let_def by (simp add: p)
  then show ?thesis using assms(1) j [OF assms(2)] by (simp add: filepath_Join_def)
qed

end
