(* ===== verification/Hostkey.thy ===== *)
theory Hostkey
  imports Session_Crypto Filepath "HOL-Library.Multiset" "HOL-Library.Sublist"
begin

unbundle bit_operations_syntax

text \<open>
  \<^verbatim>\<open>internal/bootstrap/hostkey.go\<close>: the policy on host keys and the preference among their algorithms.

  The packages \<^verbatim>\<open>ssh\<close> and \<^verbatim>\<open>knownhosts\<close> are parameters: what a verifier answers for an address and a
  key (\<open>verdict\<close>), the lists of supported and of weak algorithms, and the normal form of a host
  name. The names of the algorithms are those of the ssh protocol. The file is its contents, with the
  errors that its operations return, a failing write with the number of bytes that reached the file.
  The notice on the standard error output is not modelled.
\<close>

section \<open>The policy\<close>

definition PolicyStrict :: string where "PolicyStrict = ''strict''"
definition PolicyAcceptNew :: string where "PolicyAcceptNew = ''accept-new''"
definition PolicyInsecure :: string where "PolicyInsecure = ''insecure''"

text \<open>The error is that the home directory is not known.\<close>

definition DefaultKnownHostsPath :: "string \<Rightarrow> (string \<Rightarrow> string) \<Rightarrow> string option" where
  "DefaultKnownHostsPath goos getenv =
     (case UserHomeDir goos getenv of
        None \<Rightarrow> None
      | Some home \<Rightarrow> Some (filepath_Join [home, ''.ssh'', ''known_hosts'']))"

record PublicKey =
  keyType :: string
  keyBlob :: bytes

datatype verdict =
    Accepted
  | KeyError "PublicKey list"  \<comment> \<open>\<^verbatim>\<open>knownhosts.KeyError\<close> with its \<^verbatim>\<open>Want\<close>\<close>
  | OtherError error

datatype hostError =
    ErrUnknownPolicy string
  | ErrHome
  | ErrNoFile string
  | ErrFile error
  | ErrParse error
  | ErrVerify verdict
  | ErrAppend error

record hostsFile =
  fileExists :: bool
  fileData :: string
  errMkdir :: "error option"
  errCreate :: "error option"
  errParse :: "error option"
  errOpen :: "error option"
  errWrite :: "(nat \<times> error) option"

datatype callback = InsecureIgnoreHostKey | Verify | AcceptNew

definition HostKeyCallback ::
  "string \<Rightarrow> string \<Rightarrow> string option \<Rightarrow> hostsFile \<Rightarrow> (hostError + callback) \<times> hostsFile" where
  "HostKeyCallback policy path defaultPath fs =
     (if policy = PolicyInsecure then (Inr InsecureIgnoreHostKey, fs)
      else if policy \<noteq> PolicyStrict \<and> policy \<noteq> PolicyAcceptNew then (Inl (ErrUnknownPolicy policy), fs)
      else
        case (if path = [] then defaultPath else Some path) of
          None \<Rightarrow> (Inl ErrHome, fs)
        | Some path \<Rightarrow>
            (let (err, fs) =
               (if \<not> fileExists fs then
                  if policy = PolicyStrict then (Some (ErrNoFile path), fs)
                  else case errMkdir fs of
                         Some e \<Rightarrow> (Some (ErrFile e), fs)
                       | None \<Rightarrow>
                           (case errCreate fs of
                              Some e \<Rightarrow> (Some (ErrFile e), fs)
                            | None \<Rightarrow> (None, fs\<lparr>fileExists := True, fileData := []\<rparr>))
                else (None, fs))
             in case err of
                  Some e \<Rightarrow> (Inl e, fs)
                | None \<Rightarrow>
                    (case errParse fs of
                       Some e \<Rightarrow> (Inl (ErrParse e), fs)
                     | None \<Rightarrow> (Inr (if policy = PolicyStrict then Verify else AcceptNew), fs))))"

text \<open>The line that \<^verbatim>\<open>acceptNew\<close> appends.\<close>

definition hostLine :: "string \<Rightarrow> PublicKey \<Rightarrow> string" where
  "hostLine name key = name @ '' '' @ keyType key @ '' '' @ EncodeToString (keyBlob key) @ [CHR 0x0A]"

definition acceptNew ::
  "(string \<Rightarrow> PublicKey \<Rightarrow> verdict) \<Rightarrow> (string \<Rightarrow> string) \<Rightarrow> hostsFile \<Rightarrow> string \<Rightarrow> PublicKey \<Rightarrow>
   hostError option \<times> hostsFile" where
  "acceptNew verify normName fs hostname key =
     (let err = verify hostname key
      in if err = Accepted then (None, fs)
         else if (case err of KeyError want \<Rightarrow> 0 < length want | _ \<Rightarrow> True) then (Some (ErrVerify err), fs)
         else case errOpen fs of
                Some e \<Rightarrow> (Some (ErrAppend e), fs)
              | None \<Rightarrow>
                  (let line = hostLine (normName hostname) key
                   in case errWrite fs of
                        Some (n, e) \<Rightarrow> (Some (ErrAppend e), fs\<lparr>fileData := fileData fs @ take n line\<rparr>)
                      | None \<Rightarrow> (None, fs\<lparr>fileData := fileData fs @ line\<rparr>)))"

text \<open>Calling the callback.\<close>

definition runCallback ::
  "callback \<Rightarrow> (string \<Rightarrow> PublicKey \<Rightarrow> verdict) \<Rightarrow> (string \<Rightarrow> string) \<Rightarrow> hostsFile \<Rightarrow> string \<Rightarrow> PublicKey \<Rightarrow>
   hostError option \<times> hostsFile" where
  "runCallback cb verify normName fs hostname key =
     (case cb of
        InsecureIgnoreHostKey \<Rightarrow> (None, fs)
      | Verify \<Rightarrow> (if verify hostname key = Accepted then None else Some (ErrVerify (verify hostname key)), fs)
      | AcceptNew \<Rightarrow> acceptNew verify normName fs hostname key)"

section \<open>The preferred algorithms\<close>

definition certAlgoSuffix :: string where
  "certAlgoSuffix = ''-cert-v01@openssh.com''"

definition isCertAlgorithm :: "string \<Rightarrow> bool" where
  "isCertAlgorithm algo = suffix certAlgoSuffix algo"

definition hostKeyAlgorithmsFor :: "string \<Rightarrow> string list" where
  "hostKeyAlgorithmsFor t =
     (if t = ''ssh-rsa'' then
        [''rsa-sha2-256-cert-v01@openssh.com'', ''rsa-sha2-512-cert-v01@openssh.com'', ''ssh-rsa-cert-v01@openssh.com'',
         ''rsa-sha2-256'', ''rsa-sha2-512'', ''ssh-rsa'']
      else if t = ''ssh-ed25519'' then [''ssh-ed25519-cert-v01@openssh.com'', ''ssh-ed25519'']
      else if t = ''ecdsa-sha2-nistp256'' then [''ecdsa-sha2-nistp256-cert-v01@openssh.com'', ''ecdsa-sha2-nistp256'']
      else if t = ''ecdsa-sha2-nistp384'' then [''ecdsa-sha2-nistp384-cert-v01@openssh.com'', ''ecdsa-sha2-nistp384'']
      else if t = ''ecdsa-sha2-nistp521'' then [''ecdsa-sha2-nistp521-cert-v01@openssh.com'', ''ecdsa-sha2-nistp521'']
      else if t = ''ssh-dss'' then [''ssh-dss-cert-v01@openssh.com'', ''ssh-dss'']
      else [])"

definition candidateHostKeyAlgorithms :: "string list \<Rightarrow> string list \<Rightarrow> (string \<Rightarrow> bool) \<Rightarrow> string list" where
  "candidateHostKeyAlgorithms supported weak preferred = supported @ filter preferred weak"

fun typesOf :: "string list \<Rightarrow> PublicKey list \<Rightarrow> string list" where
  "typesOf types [] = types"
| "typesOf types (k # ks) = typesOf (if keyType k \<in> set types then types else types @ [keyType k]) ks"

text \<open>The generated key is one no line can match.\<close>

definition recordedHostKeyTypes :: "(string \<Rightarrow> PublicKey \<Rightarrow> verdict) \<Rightarrow> string \<Rightarrow> PublicKey option \<Rightarrow> string list" where
  "recordedHostKeyTypes verify addr generated =
     (case generated of
        None \<Rightarrow> []
      | Some unmatchable \<Rightarrow>
          (case verify addr unmatchable of KeyError want \<Rightarrow> typesOf [] want | _ \<Rightarrow> []))"

fun partition4 ::
  "(string \<Rightarrow> bool) \<Rightarrow> string list \<Rightarrow> string list \<Rightarrow> string list \<Rightarrow> string list \<Rightarrow> string list \<Rightarrow> string list" where
  "partition4 preferred [] certKnown certRest plainKnown plainRest = certKnown @ certRest @ plainKnown @ plainRest"
| "partition4 preferred (algo # algos) certKnown certRest plainKnown plainRest =
     (if isCertAlgorithm algo \<and> preferred algo then partition4 preferred algos (certKnown @ [algo]) certRest plainKnown plainRest
      else if isCertAlgorithm algo then partition4 preferred algos certKnown (certRest @ [algo]) plainKnown plainRest
      else if preferred algo then partition4 preferred algos certKnown certRest (plainKnown @ [algo]) plainRest
      else partition4 preferred algos certKnown certRest plainKnown (plainRest @ [algo]))"

definition preferredAlgorithms :: "string list \<Rightarrow> string list" where
  "preferredAlgorithms recorded = concat (map hostKeyAlgorithmsFor recorded)"

text \<open>The empty list is the \<^verbatim>\<open>nil\<close> that leaves the defaults of the library alone.\<close>

definition knownHostKeyAlgorithms ::
  "string list \<Rightarrow> string list \<Rightarrow> (string \<Rightarrow> (string \<Rightarrow> PublicKey \<Rightarrow> verdict) option) \<Rightarrow> PublicKey option \<Rightarrow>
   string \<Rightarrow> string \<Rightarrow> string list" where
  "knownHostKeyAlgorithms supported weak parse generated path addr =
     (if path = [] then []
      else case parse path of
             None \<Rightarrow> []
           | Some verify \<Rightarrow>
               (let recorded = recordedHostKeyTypes verify addr generated
                in if recorded = [] then []
                   else
                     let pref = preferredAlgorithms recorded; preferred = (\<lambda>a. a \<in> set pref)
                     in if pref = [] then []
                        else partition4 preferred (candidateHostKeyAlgorithms supported weak preferred) [] [] [] []))"

section \<open>Lemmas\<close>

text \<open>The order: certificates first, and within each half the recorded types first.\<close>

definition algoRank :: "string list \<Rightarrow> string \<Rightarrow> nat" where
  "algoRank pref a = (if isCertAlgorithm a then 0 else 2) + (if a \<in> set pref then 0 else 1)"

lemma partition4_filters:
  "partition4 P xs a b c d =
     a @ filter (\<lambda>x. isCertAlgorithm x \<and> P x) xs @ b @ filter (\<lambda>x. isCertAlgorithm x \<and> \<not> P x) xs @
     c @ filter (\<lambda>x. \<not> isCertAlgorithm x \<and> P x) xs @ d @ filter (\<lambda>x. \<not> isCertAlgorithm x \<and> \<not> P x) xs"
  by (induction P xs a b c d rule: partition4.induct) simp_all

lemma sorted_same: "(\<And>x y. x \<in> set xs \<Longrightarrow> y \<in> set xs \<Longrightarrow> f x = (f y :: nat)) \<Longrightarrow> sorted (map f xs)"
proof (induction xs)
  case (Cons a xs)
  have "f a = f y" if "y \<in> set xs" for y using Cons.prems [of a y] that by simp
  then have "\<forall>y\<in>set xs. f a \<le> f y" by simp
  moreover have "sorted (map f xs)" using Cons by simp
  ultimately show ?case by simp
qed simp

lemma partition4_sort: "partition4 (\<lambda>a. a \<in> set pref) xs [] [] [] [] = sort_key (algoRank pref) xs"
proof -
  let ?P = "\<lambda>a. a \<in> set pref"
  let ?ys = "partition4 ?P xs [] [] [] []"
  have "mset ?ys = mset xs"
    unfolding partition4_filters by (induction xs) auto
  moreover have "filter (\<lambda>x. algoRank pref k = algoRank pref x) ?ys = filter (\<lambda>x. algoRank pref k = algoRank pref x) xs" for k
    unfolding partition4_filters
    by (cases "isCertAlgorithm k"; cases "k \<in> set pref"; simp add: algoRank_def filter_empty_conv; intro filter_cong refl; auto)
  moreover have "sorted (map (algoRank pref) ?ys)"
    unfolding partition4_filters
    by (auto simp: sorted_append algoRank_def intro!: sorted_same)
  ultimately show ?thesis by (metis properties_for_sort_key)
qed

lemma set_typesOf: "set (typesOf ts ks) = set ts \<union> keyType ` set ks"
  by (induction ts ks rule: typesOf.induct) auto

section \<open>Claims\<close>


text \<open>C36: what host keys are trusted. An unknown policy is an error. Under the strict policy the
  callback accepts exactly what the verifier accepts and the file never changes. Under accept-new it
  accepts besides only a host the file has no key for, and only after its line is in the file; a
  changed key is refused under both and leaves the file as it is, and whatever the file held is kept.\<close>

theorem host_key_decision:
  assumes "HostKeyCallback policy path defaultPath fs = (r, fs1)" "policy \<noteq> PolicyInsecure"
  shows "(policy \<noteq> PolicyStrict \<and> policy \<noteq> PolicyAcceptNew \<longrightarrow> r = Inl (ErrUnknownPolicy policy) \<and> fs1 = fs) \<and>
    (\<forall>cb err fs2. r = Inr cb \<longrightarrow> runCallback cb verify normName fs1 hostname key = (err, fs2) \<longrightarrow>
      (err = None \<longleftrightarrow> verify hostname key = Accepted \<or>
         policy = PolicyAcceptNew \<and> verify hostname key = KeyError [] \<and> errOpen fs1 = None \<and> errWrite fs1 = None) \<and>
      (\<exists>added. fs2 = fs1\<lparr>fileData := fileData fs1 @ added\<rparr> \<and>
         (added \<noteq> [] \<longrightarrow> policy = PolicyAcceptNew \<and> verify hostname key = KeyError []) \<and>
         (err = None \<and> verify hostname key = KeyError [] \<longrightarrow> added = hostLine (normName hostname) key)))"
proof -
  have cb: "cb = (if policy = PolicyStrict then Verify else AcceptNew)" if "r = Inr cb" for cb
    using assms that
    by (auto simp: HostKeyCallback_def PolicyStrict_def PolicyAcceptNew_def Let_def split: if_splits sum.splits option.splits)
  have pol: "policy = PolicyStrict \<or> policy = PolicyAcceptNew" if "r = Inr cb" for cb
    using assms that by (auto simp: HostKeyCallback_def split: if_splits)
  have "r = Inl (ErrUnknownPolicy policy) \<and> fs1 = fs" if "policy \<noteq> PolicyStrict" "policy \<noteq> PolicyAcceptNew"
    using assms that by (auto simp: HostKeyCallback_def)
  moreover have "(err = None \<longleftrightarrow> verify hostname key = Accepted \<or>
         policy = PolicyAcceptNew \<and> verify hostname key = KeyError [] \<and> errOpen fs1 = None \<and> errWrite fs1 = None) \<and>
      (\<exists>added. fs2 = fs1\<lparr>fileData := fileData fs1 @ added\<rparr> \<and>
         (added \<noteq> [] \<longrightarrow> policy = PolicyAcceptNew \<and> verify hostname key = KeyError []) \<and>
         (err = None \<and> verify hostname key = KeyError [] \<longrightarrow> added = hostLine (normName hostname) key))"
    if "r = Inr cb" "runCallback cb verify normName fs1 hostname key = (err, fs2)" for cb err fs2
  proof (cases "cb = AcceptNew \<and> verify hostname key = KeyError [] \<and> errOpen fs1 = None")
    case True
    then have "policy = PolicyAcceptNew" using cb [OF that(1)] pol [OF that(1)] by auto
    then show ?thesis using that(2) True
      by (auto simp: runCallback_def acceptNew_def Let_def split: option.splits prod.splits)
  next
    case False
    then show ?thesis
      using that(2) cb [OF that(1)] pol [OF that(1)]
      by (cases "verify hostname key"; intro conjI exI [of _ "[]"])
        (auto simp: runCallback_def acceptNew_def PolicyStrict_def PolicyAcceptNew_def Let_def split: if_splits option.splits)
  qed
  ultimately show ?thesis by blast
qed

definition emptyHosts :: hostsFile where
  "emptyHosts = \<lparr>fileExists = False, fileData = [], errMkdir = None, errCreate = None, errParse = None, errOpen = None,
     errWrite = None\<rparr>"

lemma host_key_decision_witness:
  "\<exists>fs1 fs2. HostKeyCallback PolicyAcceptNew ''f'' (Some ''g'') emptyHosts = (Inr AcceptNew, fs1) \<and>
     runCallback AcceptNew (\<lambda>h k. KeyError []) (\<lambda>h. h) fs1 ''h'' \<lparr>keyType = ''ssh-rsa'', keyBlob = []\<rparr> = (None, fs2) \<and>
     fileData fs2 = ''h ssh-rsa '' @ [CHR 0x0A]"
proof -
  obtain fs1 where 1: "HostKeyCallback PolicyAcceptNew ''f'' (Some ''g'') emptyHosts = (Inr AcceptNew, fs1)"
    "fileData fs1 = []" "errOpen fs1 = None" "errWrite fs1 = None"
    by (simp add: HostKeyCallback_def PolicyAcceptNew_def PolicyInsecure_def PolicyStrict_def emptyHosts_def Let_def)
  obtain err fs2 where 2: "runCallback AcceptNew (\<lambda>h k. KeyError []) (\<lambda>h. h) fs1 ''h'' \<lparr>keyType = ''ssh-rsa'', keyBlob = []\<rparr> = (err, fs2)"
    by fastforce
  show ?thesis
    using host_key_decision [OF 1(1), of "\<lambda>h k. KeyError []" "\<lambda>h. h" "''h''" "\<lparr>keyType = ''ssh-rsa'', keyBlob = []\<rparr>"] 1 2
    by (auto simp: PolicyAcceptNew_def PolicyInsecure_def PolicyStrict_def hostLine_def)
qed

text \<open>The lines of a file. A new line is a line of its own exactly when the file was empty or ended in
  a newline; the code does not look, and completes the last line otherwise.\<close>

fun linesOf :: "string \<Rightarrow> string \<Rightarrow> string list" where
  "linesOf cur [] = (if cur = [] then [] else [cur])"
| "linesOf cur (c # s) = (if c = CHR 0x0A then cur # linesOf [] s else linesOf (cur @ [c]) s)"

lemma linesOf_line: "CHR 0x0A \<notin> set ln \<Longrightarrow> linesOf cur (ln @ CHR 0x0A # s) = (cur @ ln) # linesOf [] s"
  by (induction ln arbitrary: cur) auto

lemma linesOf_append: "linesOf cur (a @ CHR 0x0A # s) = linesOf cur (a @ [CHR 0x0A]) @ linesOf [] s"
  by (induction a arbitrary: cur) auto

lemma accept_new_line:
  assumes "CHR 0x0A \<notin> set ln" "fd = [] \<or> last fd = CHR 0x0A"
  shows "linesOf [] (fd @ ln @ [CHR 0x0A]) = linesOf [] fd @ [ln]"
proof (cases "fd = []")
  case True
  then show ?thesis using linesOf_line [OF assms(1), of "[]" "[]"] by simp
next
  case False
  then obtain a where "fd = a @ [CHR 0x0A]" using assms(2) by (metis append_butlast_last_id)
  then show ?thesis
    using linesOf_append [of "[]" a "ln @ [CHR 0x0A]"] linesOf_line [OF assms(1), of "[]" "[]"] by simp
qed

lemma accept_new_joins:
  assumes "CHR 0x0A \<notin> set ln" "CHR 0x0A \<notin> set fd"
  shows "linesOf [] (fd @ ln @ [CHR 0x0A]) = [fd @ ln]"
  using linesOf_line [of "fd @ ln" "[]" "[]"] assms by simp

end
