(* ===== verification/Bootstrap.thy ===== *)
theory Bootstrap
  imports Hostkey
begin

unbundle bit_operations_syntax

text \<open>
  \<^verbatim>\<open>internal/bootstrap/bootstrap.go\<close>: starting \<^verbatim>\<open>mosh-server\<close> on the remote host.

  Strings are lists of characters, one per byte. The ssh library is a parameter of \<open>Run\<close>: what
  dialing, opening a session and running the command return, and the address of the peer. Of the
  standard library the model has what the source uses: the matches of \<^verbatim>\<open>connectRE\<close>,
  \<^verbatim>\<open>net.JoinHostPort\<close> and \<^verbatim>\<open>net.SplitHostPort\<close>, \<^verbatim>\<open>strconv.Atoi\<close> on digits and
  \<^verbatim>\<open>strings.TrimSpace\<close>.

  \<open>shLex\<close> is the reference for the remote shell: token recognition and quote removal as POSIX defines
  them (2.2 and 2.3), for input in which every character with another meaning to the shell is
  quoted; on any other input it is undefined.
\<close>

section \<open>Quoting\<close>

definition specials :: string where
  "specials = '' '' @ [CHR 0x09, CHR 0x0A, CHR 0x22, CHR 0x27, CHR 0x5C] @ ''$'' @ [CHR 0x60] @ ''!*?[]{}();<>|&~#''"

fun replaceQuotes :: "string \<Rightarrow> string" where
  "replaceQuotes [] = []"
| "replaceQuotes (c # s) =
     (if c = CHR 0x27 then [CHR 0x27, CHR 0x5C, CHR 0x27, CHR 0x27] else [c]) @ replaceQuotes s"

definition shellQuote :: "string \<Rightarrow> string" where
  "shellQuote s =
     (if s = [] then [CHR 0x27, CHR 0x27]
      else if \<not> list_ex (\<lambda>c. c \<in> set specials) s then s
      else [CHR 0x27] @ replaceQuotes s @ [CHR 0x27])"

section \<open>The remote command\<close>

record ('a, 'c) Options =
  User :: string
  Host :: string
  SSHPort :: int
  UDPPort :: string
  ServerCommand :: string
  RemoteCommand :: "string list"
  Term :: string
  Auth :: "'a list"
  HostKeyCallback :: "'c option"
  KnownHostsPath :: string
  TimeoutOpt :: duration

definition toUpper :: "char \<Rightarrow> char" where
  "toUpper c = (let n = of_char c :: nat in if 97 \<le> n \<and> n \<le> 122 then char_of (n - 32) else c)"

definition contains :: "string \<Rightarrow> string \<Rightarrow> bool" where
  "contains s t = list_ex (\<lambda>r. take (length t) r = t) (suffixes s)"

definition termOf :: "('a, 'c) Options \<Rightarrow> (string \<Rightarrow> string) \<Rightarrow> string" where
  "termOf opts getenv =
     (let t = Term opts; t = (if t = [] then getenv ''TERM'' else t)
      in if t = [] then ''xterm-256color'' else t)"

definition langOf :: "(string \<Rightarrow> string) \<Rightarrow> string" where
  "langOf getenv =
     (let lang = getenv ''LANG''; up = map toUpper lang
      in if \<not> contains up ''UTF-8'' \<and> \<not> contains up ''UTF8'' then ''C.UTF-8'' else lang)"

definition serverCommand :: "('a, 'c) Options \<Rightarrow> (string \<Rightarrow> string) \<Rightarrow> string" where
  "serverCommand opts getenv =
     (let server = (if ServerCommand opts = [] then ''mosh-server'' else ServerCommand opts);
          parts = [''TERM='' @ shellQuote (termOf opts getenv), server, ''new'', ''-c'', ''256'',
                   ''-l'', shellQuote (''LANG='' @ langOf getenv)];
          parts = (if UDPPort opts \<noteq> [] then parts @ [''-p'', shellQuote (UDPPort opts)] else parts);
          parts = (if RemoteCommand opts \<noteq> []
                   then parts @ [''--''] @ map shellQuote (RemoteCommand opts) else parts)
      in join '' '' parts)"

section \<open>The reference shell\<close>

fun shLex :: "bool \<Rightarrow> string option \<Rightarrow> string \<Rightarrow> string list option" where
  "shLex True w [] = None"
| "shLex True w (c # s) =
     (if c = CHR 0x27 then shLex False w s else shLex True (map_option (\<lambda>w. w @ [c]) w) s)"
| "shLex False None [] = Some []"
| "shLex False (Some w) [] = Some [w]"
| "shLex False w (c # s) =
     (if c = CHR 0x20 then
        (case w of None \<Rightarrow> shLex False None s | Some w \<Rightarrow> map_option ((#) w) (shLex False None s))
      else if c = CHR 0x27 then shLex True (Some (case w of None \<Rightarrow> [] | Some w \<Rightarrow> w)) s
      else if c = CHR 0x5C then
        (case s of
           [] \<Rightarrow> None
         | d # s \<Rightarrow> if d = CHR 0x0A \<or> d = CHR 0x00 then None
                     else shLex False (Some ((case w of None \<Rightarrow> [] | Some w \<Rightarrow> w) @ [d])) s)
      else if c \<in> set specials \<or> c = CHR 0x00 then None
      else shLex False (Some ((case w of None \<Rightarrow> [] | Some w \<Rightarrow> w) @ [c])) s)"

lemma shLex_plain:
  "s \<noteq> [] \<Longrightarrow> \<not> list_ex (\<lambda>c. c \<in> set specials) s \<Longrightarrow> CHR 0x00 \<notin> set s \<Longrightarrow>
    shLex False w (s @ cs) = shLex False (Some ((case w of None \<Rightarrow> [] | Some w \<Rightarrow> w) @ s)) cs"
proof (induction s arbitrary: w)
  case (Cons c s)
  have c: "c \<noteq> CHR 0x20" "c \<noteq> CHR 0x27" "c \<noteq> CHR 0x5C" "c \<notin> set specials" "c \<noteq> CHR 0x00"
    using Cons.prems by (auto simp: specials_def)
  then show ?case
    using Cons by (cases "s = []") simp_all
qed simp

lemma shLex_quoted:
  "shLex True (Some w) (replaceQuotes s @ CHR 0x27 # cs) = shLex False (Some (w @ s)) cs"
  by (induction s arbitrary: w) simp_all

text \<open>A piece of the command line that adds \<open>s\<close> to the word being read.\<close>

definition reads :: "string \<Rightarrow> string \<Rightarrow> bool" where
  "reads p s \<longleftrightarrow> (\<forall>w cs. shLex False w (p @ cs) = shLex False (Some ((case w of None \<Rightarrow> [] | Some w \<Rightarrow> w) @ s)) cs)"

lemma readsD:
  "reads p s \<Longrightarrow> shLex False w (p @ cs) = shLex False (Some ((case w of None \<Rightarrow> [] | Some w \<Rightarrow> w) @ s)) cs"
  by (simp add: reads_def)

lemma reads_plain:
  "s \<noteq> [] \<Longrightarrow> \<not> list_ex (\<lambda>c. c \<in> set specials) s \<Longrightarrow> CHR 0x00 \<notin> set s \<Longrightarrow> reads s s"
  using shLex_plain by (auto simp: reads_def)

lemma reads_shellQuote:
  assumes "CHR 0x00 \<notin> set s"
  shows "reads (shellQuote s) s"
proof (cases "s = [] \<or> list_ex (\<lambda>c. c \<in> set specials) s")
  case False
  then show ?thesis using reads_plain assms by (simp add: shellQuote_def)
next
  case True
  then show ?thesis
    using shLex_quoted by (auto simp: reads_def shellQuote_def)
qed

lemma reads_append: "reads p s \<Longrightarrow> reads q t \<Longrightarrow> reads (p @ q) (s @ t)"
  by (simp add: reads_def)

lemma shLex_join:
  "list_all2 reads ps ws \<Longrightarrow> shLex False None (join '' '' ps) = Some ws"
proof (induction "'' ''" ps arbitrary: ws rule: join.induct)
  case (2 p)
  then obtain w where "ws = [w]" "reads p w" by (auto simp: list_all2_Cons1)
  then show ?case using readsD [of p w None "[]"] by simp
next
  case (3 p q ps)
  then obtain w vs where ws: "ws = w # vs" "reads p w" "list_all2 reads (q # ps) vs" by (auto simp: list_all2_Cons1)
  then show ?case using 3(1) [OF ws(3)] by (simp add: reads_def)
qed simp

section \<open>The MOSH CONNECT line\<close>

definition newline :: char where
  "newline = CHR 0x0A"

definition is_space :: "char \<Rightarrow> bool" where
  "is_space c \<longleftrightarrow> c \<in> {CHR 0x09, CHR 0x0A, CHR 0x0C, CHR 0x0D, CHR 0x20}"

definition is_decimal :: "char \<Rightarrow> bool" where
  "is_decimal c \<longleftrightarrow> (let n = of_char c :: nat in 48 \<le> n \<and> n \<le> 57)"

definition is_key_char :: "char \<Rightarrow> bool" where
  "is_key_char c \<longleftrightarrow> (let n = of_char c :: nat
     in 65 \<le> n \<and> n \<le> 90 \<or> 97 \<le> n \<and> n \<le> 122 \<or> 48 \<le> n \<and> n \<le> 57 \<or> n = 47 \<or> n = 43)"

text \<open>The end \<^verbatim>\<open>\s*$\<close> of the expression in multi-line mode: what is left after its longest match.\<close>

fun wsEnd :: "string \<Rightarrow> string option" where
  "wsEnd [] = Some []"
| "wsEnd (c # s) =
     (case if is_space c then wsEnd s else None of
        Some q \<Rightarrow> Some q
      | None \<Rightarrow> if c = newline then Some (c # s) else None)"

text \<open>A match that begins here: the port, the key and what is left after the match.\<close>

definition connectAt :: "string \<Rightarrow> (string \<times> string \<times> string) option" where
  "connectAt s =
     (if take 13 s \<noteq> ''MOSH CONNECT '' then None
      else
        let s = drop 13 s; port = takeWhile is_decimal s; s = drop (length port) s
        in if port = [] \<or> 5 < length port \<or> take 1 s \<noteq> '' '' then None
           else
             let s = drop 1 s; key = take 22 s; s = drop 22 s
             in if length key \<noteq> 22 \<or> \<not> list_all is_key_char key then None
                else map_option (\<lambda>r. (port, key, r)) (wsEnd s))"

lemma wsEnd_length: "wsEnd s = Some r \<Longrightarrow> length r \<le> length s"
  by (induction s arbitrary: r) (force split: option.splits if_splits)+

lemma connectAt_length: "connectAt s = Some (p, k, r) \<Longrightarrow> length r < length s"
proof -
  assume a: "connectAt s = Some (p, k, r)"
  then have "take 13 s = ''MOSH CONNECT ''" by (auto simp: connectAt_def split: if_splits)
  then have "length (take 13 s) = 13" by simp
  then have "13 \<le> length s" by simp
  moreover obtain n where "wsEnd (drop n s) = Some r" "13 \<le> n"
    using a by (auto simp: connectAt_def Let_def drop_drop split: if_splits)
  ultimately show ?thesis using wsEnd_length [of "drop n s" r] by auto
qed

text \<open>\<^verbatim>\<open>connectRE.FindStringSubmatch\<close>: the first match, which begins at the start of a line.\<close>

fun findConnect :: "bool \<Rightarrow> string \<Rightarrow> (string \<times> string) option" where
  "findConnect bol s =
     (case if bol then connectAt s else None of
        Some (port, key, _) \<Rightarrow> Some (port, key)
      | None \<Rightarrow> (case s of [] \<Rightarrow> None | c # s \<Rightarrow> findConnect (c = newline) s))"

declare findConnect.simps [simp del]

text \<open>\<^verbatim>\<open>connectRE.ReplaceAllString\<close> with the text of \<^verbatim>\<open>RedactKeys\<close>.\<close>

function redact :: "bool \<Rightarrow> string \<Rightarrow> string" where
  "redact bol s =
     (case if bol then connectAt s else None of
        Some (port, key, r) \<Rightarrow> ''MOSH CONNECT '' @ port @ '' <key redacted>'' @ redact False r
      | None \<Rightarrow> (case s of [] \<Rightarrow> [] | c # s \<Rightarrow> c # redact (c = newline) s))"
  by pat_completeness auto
termination
  by (relation "measure (\<lambda>(bol, s). length s)") (auto split: if_splits dest: connectAt_length)

declare redact.simps [simp del]

definition RedactKeys :: "string \<Rightarrow> string" where
  "RedactKeys output = redact True output"

section \<open>Lemmas: the MOSH CONNECT line\<close>

definition port_ok :: "string \<Rightarrow> bool" where
  "port_ok p \<longleftrightarrow> p \<noteq> [] \<and> length p \<le> 5 \<and> list_all is_decimal p"

definition key_ok :: "string \<Rightarrow> bool" where
  "key_ok k \<longleftrightarrow> length k = 22 \<and> list_all is_key_char k"

lemma connectAt_iff:
  "connectAt s = Some (p, k, r) \<longleftrightarrow>
     (\<exists>t. s = ''MOSH CONNECT '' @ p @ '' '' @ k @ t \<and> port_ok p \<and> key_ok k \<and> wsEnd t = Some r)"
proof
  assume a: "connectAt s = Some (p, k, r)"
  define u where "u = drop 13 s"
  have s: "s = ''MOSH CONNECT '' @ u"
  proof -
    have "take 13 s = ''MOSH CONNECT ''" using a by (auto simp: connectAt_def split: if_splits)
    then show ?thesis unfolding u_def by (metis append_take_drop_id)
  qed
  have p: "p = takeWhile is_decimal u" using a by (auto simp: connectAt_def Let_def u_def split: if_splits)
  define v where "v = drop (length p) u"
  have u: "u = p @ v" using p by (metis append_eq_conv_conj takeWhile_dropWhile_id v_def)
  have v: "v = '' '' @ drop 1 v"
    using a p append_take_drop_id [of 1 v] by (auto simp: connectAt_def Let_def u_def v_def split: if_splits)
  have k: "drop 1 v = k @ drop 22 (drop 1 v)" "key_ok k" "wsEnd (drop 22 (drop 1 v)) = Some r" "port_ok p"
    using a p append_take_drop_id [of 22 "drop 1 v"]
    by (auto simp: connectAt_def Let_def u_def v_def key_ok_def port_ok_def list_all_iff split: if_splits dest: set_takeWhileD)
  then show "\<exists>t. s = ''MOSH CONNECT '' @ p @ '' '' @ k @ t \<and> port_ok p \<and> key_ok k \<and> wsEnd t = Some r"
    using s u v by metis
next
  assume "\<exists>t. s = ''MOSH CONNECT '' @ p @ '' '' @ k @ t \<and> port_ok p \<and> key_ok k \<and> wsEnd t = Some r"
  then obtain t where s: "s = ''MOSH CONNECT '' @ p @ '' '' @ k @ t" "port_ok p" "key_ok k" "wsEnd t = Some r" by blast
  have "takeWhile is_decimal (p @ '' '' @ k @ t) = p"
    using s(2) by (subst takeWhile_append2) (auto simp: port_ok_def list_all_iff is_decimal_def)
  then show "connectAt s = Some (p, k, r)"
    using s by (simp add: connectAt_def Let_def port_ok_def key_ok_def)
qed

abbreviation firstLine :: "string \<Rightarrow> string" where
  "firstLine s \<equiv> takeWhile (\<lambda>c. c \<noteq> newline) s"

lemma wsEnd_line: "(\<exists>r. wsEnd s = Some r) \<longleftrightarrow> list_all is_space (firstLine s)"
  by (induction s) (auto simp: is_space_def newline_def split: option.splits)

lemma wsEnd_rest: "wsEnd s = Some r \<Longrightarrow> r = [] \<or> (\<exists>t. r = newline # t)"
  by (induction s arbitrary: r) (auto split: option.splits if_splits)

lemma no_newline:
  "port_ok p \<Longrightarrow> newline \<notin> set p" "key_ok k \<Longrightarrow> newline \<notin> set k" "newline \<notin> set ''MOSH CONNECT ''"
  "newline \<notin> set '' <key redacted>''"
  by (auto simp: port_ok_def key_ok_def list_all_iff is_decimal_def is_key_char_def newline_def Let_def)

lemma firstLine_append: "newline \<notin> set a \<Longrightarrow> firstLine (a @ b) = a @ firstLine b"
  by (induction a) auto

text \<open>Whether there is a match at the start of a line depends on that line alone.\<close>

definition connectLine :: "string \<Rightarrow> bool" where
  "connectLine ln \<longleftrightarrow>
     (\<exists>p k t. ln = ''MOSH CONNECT '' @ p @ '' '' @ k @ t \<and> port_ok p \<and> key_ok k \<and> list_all is_space t)"

lemma connectAt_line: "(\<exists>x. connectAt s = Some x) \<longleftrightarrow> connectLine (firstLine s)"
proof
  assume "\<exists>x. connectAt s = Some x"
  then obtain p k r t where s: "s = ''MOSH CONNECT '' @ p @ '' '' @ k @ t" "port_ok p" "key_ok k" "wsEnd t = Some r"
    by (metis connectAt_iff prod_cases3)
  have "newline \<notin> set (''MOSH CONNECT '' @ p @ '' '' @ k)"
    using no_newline s(2,3) by (auto simp: newline_def)
  from firstLine_append [OF this, of t]
  have "firstLine s = ''MOSH CONNECT '' @ p @ '' '' @ k @ firstLine t" by (simp add: s(1))
  moreover have "list_all is_space (firstLine t)" using s(4) wsEnd_line by blast
  ultimately show "connectLine (firstLine s)" using s(2,3) unfolding connectLine_def by blast
next
  assume "connectLine (firstLine s)"
  then obtain p k t where l: "firstLine s = ''MOSH CONNECT '' @ p @ '' '' @ k @ t" "port_ok p" "key_ok k" "list_all is_space t"
    by (auto simp: connectLine_def)
  let ?rest = "dropWhile (\<lambda>c. c \<noteq> newline) s"
  have s: "s = ''MOSH CONNECT '' @ p @ '' '' @ k @ (t @ ?rest)"
    using l(1) takeWhile_dropWhile_id [of "\<lambda>c. c \<noteq> newline" s] by (metis append.assoc)
  have "newline \<notin> set t"
  proof -
    have "set t \<subseteq> set (firstLine s)" using l(1) by auto
    then show ?thesis using set_takeWhileD by fastforce
  qed
  then have "firstLine (t @ ?rest) = t @ firstLine ?rest" by (rule firstLine_append)
  moreover have "firstLine ?rest = []" by (induction s) simp_all
  ultimately obtain r where "wsEnd (t @ ?rest) = Some r" using l(4) wsEnd_line [of "t @ ?rest"] by auto
  then show "\<exists>x. connectAt s = Some x" using s l(2,3) connectAt_iff by blast
qed

lemma redact_False [simp]: "redact False [] = []" "redact False (c # s) = c # redact (c = newline) s"
  by (simp_all add: redact.simps [of False])

lemma firstLine_redact: "firstLine (redact False s) = firstLine s"
proof (induction s)
  case (Cons c s)
  then show ?case by (cases "c = newline") simp_all
qed simp

lemma findConnect_False [simp]: "findConnect False [] = None" "findConnect False (c # s) = findConnect (c = newline) s"
  by (simp_all add: findConnect.simps [of False])

lemma findConnect_None:
  "findConnect bol (c # s) = None \<longleftrightarrow> (bol \<longrightarrow> connectAt (c # s) = None) \<and> findConnect (c = newline) s = None"
  by (subst findConnect.simps) (auto split: option.splits)

lemma findConnect_next:
  "(bol \<longrightarrow> connectAt (c # s) = None) \<Longrightarrow> findConnect bol (c # s) = findConnect (c = newline) s"
  by (subst findConnect.simps) (auto split: option.splits)

lemma findConnect_skip: "newline \<notin> set a \<Longrightarrow> findConnect False (a @ b) = findConnect False b"
  by (induction a) auto

lemma not_connect_redacted: "connectAt (''MOSH CONNECT '' @ p @ '' <key redacted>'' @ s) = None" if "port_ok p"
proof (rule ccontr)
  assume "connectAt (''MOSH CONNECT '' @ p @ '' <key redacted>'' @ s) \<noteq> None"
  then obtain q k r t where e: "p @ '' <key redacted>'' @ s = q @ '' '' @ k @ t" "port_ok q" "key_ok k"
    using connectAt_iff by auto
  have d: "takeWhile is_decimal (p @ '' <key redacted>'' @ s) = p" if "port_ok p" for p and s
    using that by (subst takeWhile_append2) (auto simp: port_ok_def list_all_iff is_decimal_def)
  have "takeWhile is_decimal (q @ '' '' @ k @ t) = q"
    using e(2) by (subst takeWhile_append2) (auto simp: port_ok_def list_all_iff is_decimal_def)
  then have "q = p" using d [OF that, of s] e(1) by simp
  then have "''<key redacted>'' @ s = k @ t" using e(1) by simp
  then have "hd k = CHR ''<''" using e(3) by (cases k) (auto simp: key_ok_def)
  then show False using e(3) by (cases k) (auto simp: key_ok_def is_key_char_def)
qed

lemma redact_clean: "findConnect bol (redact bol s) = None"
proof (induction bol s rule: redact.induct)
  case (1 bol s)
  show ?case
  proof (cases "if bol then connectAt s else None")
    case (Some x)
    obtain p k r where x: "x = (p, k, r)" by (metis prod_cases3)
    then have bol: "bol" and c: "connectAt s = Some (p, k, r)" using Some by (auto split: if_splits)
    then have p: "port_ok p" using connectAt_iff by blast
    let ?a = "''MOSH CONNECT '' @ p @ '' <key redacted>''"
    have r: "redact bol s = ?a @ redact False r" using Some x by (simp add: redact.simps [of bol s])
    have ih: "findConnect False (redact False r) = None" using "1.IH"(2) [OF Some x [symmetric] refl] .
    have nl: "newline \<notin> set (''OSH CONNECT '' @ p @ '' <key redacted>'')" using no_newline(1) [OF p] by (auto simp: newline_def)
    have "findConnect False (''OSH CONNECT '' @ p @ '' <key redacted>'' @ redact False r) = None"
      using findConnect_skip [OF nl, of "redact False r"] ih by simp
    moreover have "CHR ''M'' \<noteq> newline" by (simp add: newline_def)
    ultimately show ?thesis
      using not_connect_redacted [OF p, of "redact False r"] unfolding r by (simp add: findConnect_None)
  next
    case None
    show ?thesis
    proof (cases s)
      case Nil
      then show ?thesis using None by (simp add: redact.simps findConnect.simps connectAt_def)
    next
      case (Cons c cs)
      have r: "redact bol s = c # redact (c = newline) cs"
        by (subst redact.simps) (simp only: None [unfolded Cons] option.case list.case Cons)
      have ih: "findConnect (c = newline) (redact (c = newline) cs) = None"
        using "1.IH"(1) None Cons by simp
      have "firstLine (redact bol s) = firstLine s"
        unfolding r unfolding Cons using firstLine_redact [of cs] by (cases "c = newline") simp_all
      then have "bol \<longrightarrow> connectAt (redact bol s) = None"
        using None connectAt_line [of s] connectAt_line [of "redact bol s"] by (metis not_None_eq)
      then show ?thesis using ih unfolding r by (simp add: findConnect_None)
    qed
  qed
qed

text \<open>The first line that matches is found, whatever lines stand before it.\<close>

lemma findConnect_lines:
  "(a = [] \<or> last a = newline) \<Longrightarrow> findConnect bol a = None \<Longrightarrow>
    findConnect bol (a @ b) = findConnect (if a = [] then bol else True) b"
proof (induction a arbitrary: bol)
  case (Cons c a)
  have n: "newline \<in> set (c # a)" using Cons.prems(1) last_in_set [of "c # a"] by auto
  have fl: "firstLine ((c # a) @ b) = firstLine (c # a)" by (rule takeWhile_append1 [OF n]) simp
  have a: "bol \<longrightarrow> connectAt (c # a) = None" "findConnect (c = newline) a = None"
    using Cons.prems(2) findConnect_None by blast+
  then have "bol \<longrightarrow> connectAt (c # (a @ b)) = None"
    using connectAt_line [of "c # a"] connectAt_line [of "(c # a) @ b"] fl by (metis append_Cons not_None_eq)
  from findConnect_next [OF this] a(2)
  have "findConnect (c = newline) a = None" "findConnect bol ((c # a) @ b) = findConnect (c = newline) (a @ b)" by simp_all
  then show ?case using Cons.IH [of "c = newline"] Cons.prems(1) by (cases "a = []") auto
qed simp

section \<open>Addresses\<close>

fun decimal :: "nat \<Rightarrow> string" where
  "decimal n = (if n < 10 then [char_of (48 + n)] else decimal (n div 10) @ [char_of (48 + n mod 10)])"

declare decimal.simps [simp del]

definition Itoa :: "int \<Rightarrow> string" where
  "Itoa n = (if n < 0 then ''-'' @ decimal (nat (- n)) else decimal (nat n))"

definition Atoi :: "string \<Rightarrow> int" where
  "Atoi ds = foldl (\<lambda>n c. n * 10 + int (of_char c - 48)) 0 ds"

definition JoinHostPort :: "string \<Rightarrow> string \<Rightarrow> string" where
  "JoinHostPort host port =
     (if CHR '':'' \<in> set host then ''['' @ host @ '']:'' @ port else host @ '':'' @ port)"

text \<open>The host of \<^verbatim>\<open>net.SplitHostPort\<close>, where it returns no error.\<close>

definition SplitHostPort :: "string \<Rightarrow> string option" where
  "SplitHostPort hp =
     (if CHR '':'' \<notin> set hp then None
      else
        let port = rev (takeWhile (\<lambda>c. c \<noteq> CHR '':'') (rev hp)); i = length hp - length port - 1
        in if hd hp = CHR ''['' then
             (if CHR '']'' \<notin> set hp then None
              else
                let e = length (takeWhile (\<lambda>c. c \<noteq> CHR '']'') hp)
                in if e + 1 \<noteq> i then None
                   else if CHR ''['' \<in> set (drop 1 hp) \<or> CHR '']'' \<in> set (drop (e + 1) hp) then None
                   else Some (take (e - 1) (drop 1 hp)))
           else if CHR '':'' \<in> set (take i hp) \<or> CHR ''['' \<in> set hp \<or> CHR '']'' \<in> set hp then None
           else Some (take i hp))"

section \<open>TrimSpace\<close>

text \<open>The white space of \<^verbatim>\<open>strings.TrimSpace\<close>, each as its UTF-8 bytes.\<close>

definition spaces :: "string list" where
  "spaces =
     map (\<lambda>c. [c]) [CHR 0x09, CHR 0x0A, CHR 0x0B, CHR 0x0C, CHR 0x0D, CHR 0x20] @
     [[CHR 0xC2, CHR 0x85], [CHR 0xC2, CHR 0xA0], [CHR 0xE1, CHR 0x9A, CHR 0x80]] @
     map (\<lambda>n. [CHR 0xE2, CHR 0x80, char_of n]) ([0x80..<0x8B] @ [0xA8, 0xA9, 0xAF :: nat]) @
     [[CHR 0xE2, CHR 0x81, CHR 0x9F], [CHR 0xE3, CHR 0x80, CHR 0x80]]"

function trimLeft :: "string list \<Rightarrow> string \<Rightarrow> string" where
  "trimLeft ws s =
     (case find (\<lambda>w. w \<noteq> [] \<and> take (length w) s = w) ws of
        None \<Rightarrow> s
      | Some w \<Rightarrow> trimLeft ws (drop (length w) s))"
  by pat_completeness auto
termination
proof (relation "measure (\<lambda>(ws, s). length s)")
  fix ws s w
  assume "find (\<lambda>w. w \<noteq> [] \<and> take (length w) s = w) ws = Some w"
  then have "w \<noteq> []" "take (length w) s = w" by (auto simp: find_Some_iff)
  then show "((ws, drop (length w) s), (ws, s)) \<in> measure (\<lambda>(ws, s). length s)"
    by (cases s) auto
qed simp

declare trimLeft.simps [simp del]

definition TrimSpace :: "string \<Rightarrow> string" where
  "TrimSpace s = rev (trimLeft (map rev spaces) (rev (trimLeft spaces s)))"

section \<open>Run\<close>

record ('a, 'c) ClientConfig =
  cfgUser :: string
  cfgAuth :: "'a list"
  cfgCallback :: 'c
  cfgAlgorithms :: "string list"
  cfgTimeout :: duration

record ('a, 'c) ssh =
  sshDial :: "string \<Rightarrow> ('a, 'c) ClientConfig \<Rightarrow> error option"
  sshSession :: "error option"
  sshOutput :: "string \<Rightarrow> string \<times> error option"
  sshRemote :: string

record Result =
  ResultAddr :: string
  Port :: int
  ResultKey :: bytes
  ServerOutput :: string

text \<open>The errors, with the text of the output that they surface.\<close>

datatype bootError =
    BootNoHost
  | BootNoCallback
  | BootDial string error
  | BootSession error
  | BootServer error string
  | BootNoConnect string
  | BootPort string
  | BootKey error

definition Run ::
  "(string \<Rightarrow> string \<Rightarrow> string list) \<Rightarrow> (string \<Rightarrow> string) \<Rightarrow> ('a, 'c) ssh \<Rightarrow> ('a, 'c) Options \<Rightarrow>
     bootError + Result" where
  "Run algorithms getenv net opts =
     (if Host opts = [] then Inl BootNoHost
      else
        case HostKeyCallback opts of
          None \<Rightarrow> Inl BootNoCallback
        | Some callback \<Rightarrow>
            (let port = (if SSHPort opts = 0 then 22 else SSHPort opts);
                 timeout = (if TimeoutOpt opts = 0 then 10 * second else TimeoutOpt opts);
                 addr = JoinHostPort (Host opts) (Itoa port);
                 cfg = \<lparr>cfgUser = User opts, cfgAuth = Auth opts, cfgCallback = callback,
                        cfgAlgorithms = algorithms (KnownHostsPath opts) addr, cfgTimeout = timeout\<rparr>
             in case sshDial net addr cfg of
                  Some e \<Rightarrow> Inl (BootDial addr e)
                | None \<Rightarrow>
                    (case sshSession net of
                       Some e \<Rightarrow> Inl (BootSession e)
                     | None \<Rightarrow>
                         (let (out, err) = sshOutput net (serverCommand opts getenv)
                          in case err of
                               Some e \<Rightarrow> Inl (BootServer e (TrimSpace (RedactKeys out)))
                             | None \<Rightarrow>
                                 (case findConnect True out of
                                    None \<Rightarrow> Inl (BootNoConnect (TrimSpace (RedactKeys out)))
                                  | Some (m1, m2) \<Rightarrow>
                                      (let udpPort = Atoi m1
                                       in if udpPort < 1 \<or> 65535 < udpPort then Inl (BootPort m1)
                                          else case ParseBase64Key m2 of
                                                 Inl e \<Rightarrow> Inl (BootKey e)
                                               | Inr key \<Rightarrow>
                                                   (let host = (case SplitHostPort (sshRemote net) of
                                                                  None \<Rightarrow> Host opts | Some h \<Rightarrow> h)
                                                    in Inr \<lparr>ResultAddr = JoinHostPort host (Itoa udpPort), Port = udpPort,
                                                            ResultKey = key, ServerOutput = RedactKeys out\<rparr>)))))))"

section \<open>Lemmas: addresses and keys\<close>

lemma decimal_digits: "list_all is_decimal (decimal n)"
proof (induction n rule: decimal.induct)
  case (1 n)
  have "is_decimal (char_of (48 + m))" if "m < 10" for m :: nat
    using that by (simp add: is_decimal_def)
  then show ?case using 1 by (subst decimal.simps) simp
qed

lemma plain_host: "is_decimal c \<Longrightarrow> c \<noteq> CHR '':'' \<and> c \<noteq> CHR ''['' \<and> c \<noteq> CHR '']'' "
  by (auto simp: is_decimal_def)

lemma Split_Join:
  assumes "CHR ''['' \<notin> set h" "CHR '']'' \<notin> set h" "CHR '':'' \<notin> set p" "CHR ''['' \<notin> set p" "CHR '']'' \<notin> set p"
  shows "SplitHostPort (JoinHostPort h p) = Some h"
proof -
  have "takeWhile (\<lambda>c. c \<noteq> CHR '':'') (rev p @ CHR '':'' # xs) = rev p" for xs
    using assms(3) by (subst takeWhile_append2) auto
  then have port: "rev (takeWhile (\<lambda>c. c \<noteq> CHR '':'') (rev (a @ CHR '':'' # p))) = p" for a
    by simp
  show ?thesis
  proof (cases "CHR '':'' \<in> set h")
    case False
    have "hd (h @ '':'' @ p) \<noteq> CHR ''[''" using assms(1) by (cases h) auto
    then show ?thesis
      using False assms port [of h] by (simp add: JoinHostPort_def SplitHostPort_def Let_def)
  next
    case True
    have e: "takeWhile (\<lambda>c. c \<noteq> CHR '']'') (''['' @ h @ '']:'' @ p) = ''['' @ h"
      using assms(2) by (subst append_assoc [symmetric], subst takeWhile_append2) auto
    show ?thesis
      using True assms port [of "''['' @ h @ '']''"] e by (simp add: JoinHostPort_def SplitHostPort_def Let_def)
  qed
qed

lemma alphabet_key_chars: "\<forall>c\<in>set alphabet. is_key_char c"
  by (simp add: alphabet_def is_key_char_def)

lemma key_ok_String:
  assumes "length k = 16"
  shows "key_ok (String k)"
proof -
  have "is_key_char (digit v)" for v using alphabet_key_chars digit_in by blast
  then show ?thesis using assms by (rule_tac length_16_cases [OF assms]) (simp add: key_ok_def String_def)
qed

lemma findConnect_here:
  assumes "port_ok p" "key_ok k" "list_all is_space (firstLine t)"
  shows "findConnect True (''MOSH CONNECT '' @ p @ '' '' @ k @ t) = Some (p, k)"
proof -
  obtain r where "wsEnd t = Some r" using assms(3) wsEnd_line by blast
  then have "connectAt (''MOSH CONNECT '' @ p @ '' '' @ k @ t) = Some (p, k, r)"
    using assms(1,2) connectAt_iff by blast
  then show ?thesis by (subst findConnect.simps) simp
qed

lemma redact_same: "findConnect bol s = None \<Longrightarrow> redact bol s = s"
proof (induction s arbitrary: bol)
  case Nil
  then show ?case by (subst redact.simps) (simp add: connectAt_def)
next
  case (Cons c s)
  then show ?case by (subst redact.simps) (auto simp: findConnect_None)
qed

section \<open>Claims\<close>






lemma findConnect_pre:
  assumes "pre = [] \<or> last pre = newline" "findConnect True pre = None"
    and "port_ok p" "key_ok k" "list_all is_space (firstLine t)"
  shows "findConnect True (pre @ ''MOSH CONNECT '' @ p @ '' '' @ k @ t) = Some (p, k)"
  using findConnect_lines [OF assms(1,2)] findConnect_here [OF assms(3,4,5)] by simp

lemma Itoa_plain:
  "0 \<le> n \<Longrightarrow> CHR '':'' \<notin> set (Itoa n) \<and> CHR ''['' \<notin> set (Itoa n) \<and> CHR '']'' \<notin> set (Itoa n)"
  using decimal_digits [of "nat n"] plain_host by (auto simp: Itoa_def list_all_iff)


definition sampleOpts :: "(unit, unit) Options" where
  "sampleOpts =
     \<lparr>User = ''u'', Host = ''h'', SSHPort = 0, UDPPort = [], ServerCommand = [], RemoteCommand = [], Term = ''vt100'',
      Auth = [()], HostKeyCallback = Some (), KnownHostsPath = [], TimeoutOpt = 0\<rparr>"

definition sampleSsh :: "(unit, unit) ssh" where
  "sampleSsh =
     \<lparr>sshDial = (\<lambda>addr cfg. None), sshSession = None,
      sshOutput = (\<lambda>cmd. (''hi'' @ [newline] @ ''MOSH CONNECT '' @ ''60001'' @ '' '' @ String (replicate 16 7) @ [newline], None)),
      sshRemote = ''[2001:db8::1]:22''\<rparr>"


text \<open>An indented MOSH CONNECT line is not a match, so it is not redacted, and \<^verbatim>\<open>TrimSpace\<close> then removes the
  indentation: the error for an output without a match shows the line with its key.\<close>

lemma trim_uncovers_key:
  assumes "length k = 16"
  shows "findConnect True (TrimSpace (RedactKeys ('' MOSH CONNECT 60001 '' @ String k))) = Some (''60001'', String k)"
proof -
  let ?s = "''MOSH CONNECT 60001 '' @ String k"
  have ok: "key_ok (String k)" using key_ok_String [OF assms] .
  have "newline \<notin> set ?s" using no_newline(2) [OF ok] by (auto simp: newline_def)
  then have "findConnect False (?s @ []) = None" by (subst findConnect_skip) simp_all
  then have "findConnect False ?s = None" by (simp only: append_Nil2)
  moreover have "connectAt (CHR '' '' # ?s) = None" "CHR '' '' \<noteq> newline" by (simp_all add: connectAt_def newline_def)
  ultimately have "findConnect True (CHR '' '' # ?s) = None" unfolding findConnect_None by simp
  then have r: "RedactKeys ('' '' @ ?s) = '' '' @ ?s" unfolding RedactKeys_def by (simp add: redact_same)
  have l: "trimLeft spaces ('' '' @ ?s) = ?s"
    by (subst trimLeft.simps, subst trimLeft.simps) (simp add: spaces_def upt_rec)
  obtain c u where c: "rev ?s = c # u" "is_key_char c"
  proof -
    have "String k \<noteq> []" using ok by (auto simp: key_ok_def)
    moreover from this have "is_key_char (last (String k))"
      using ok last_in_set [of "String k"] by (auto simp: key_ok_def list_all_iff)
    ultimately show ?thesis using that [of "last (String k)" "rev (butlast ?s)"] by (cases "String k" rule: rev_cases) auto
  qed
  have "find (\<lambda>w. w \<noteq> [] \<and> take (length w) (c # u) = w) (map rev spaces) = None"
  proof -
    have "\<forall>w\<in>set (map rev spaces). w \<noteq> [] \<and> \<not> is_key_char (hd w)" by code_simp
    then show ?thesis using c(2) by (auto simp: find_None_iff neq_Nil_conv)
  qed
  then have "trimLeft (map rev spaces) (c # u) = c # u" by (subst trimLeft.simps) simp
  then have "TrimSpace (RedactKeys ('' '' @ ?s)) = ?s" unfolding r TrimSpace_def l using c(1) by (metis rev_rev_ident)
  moreover have "findConnect True ?s = Some (''60001'', String k)"
    using findConnect_here [of "''60001''" "String k" "[]"] ok by (simp add: port_ok_def is_decimal_def)
  ultimately show ?thesis by simp
qed

end
