(* ===== verification/Agent.thy ===== *)
theory Agent
  imports Filepath
begin

unbundle bit_operations_syntax

text \<open>
  \<^verbatim>\<open>internal/bootstrap\<close>: the ssh agents whose identities are offered (\<^verbatim>\<open>AgentAuth\<close> in \<^verbatim>\<open>bootstrap.go\<close>, \<^verbatim>\<open>dotvault.go\<close>,
  \<^verbatim>\<open>agent_other.go\<close>, \<^verbatim>\<open>agent_windows.go\<close> and the \<^verbatim>\<open>agentpeer\<close> files).

  The operating system is a script of answers, as in \<^verbatim>\<open>network\<close>: a call takes the next one and is logged.
  The files with build tags are selected by \<open>goos\<close>. \<^verbatim>\<open>net.Dial\<close> of network \<^verbatim>\<open>unix\<close> always yields a
  \<^verbatim>\<open>*net.UnixConn\<close>, so the branch for another type is left out. The agent protocol is a parameter: the
  signers that a connection yields, or none where that fails.
\<close>

section \<open>The operating system\<close>

record agentAnswer =
  aConn :: "nat option"                              \<comment> \<open>a dialed connection\<close>
  aStat :: "(32 word \<times> 32 word option) option"       \<comment> \<open>mode, and owner if the platform reports it\<close>
  aSyscallConn :: bool
  aUcred :: "32 word option"
  aXucred :: "(32 word \<times> 32 word \<times> int) option"     \<comment> \<open>version, uid and number of groups\<close>

datatype agentEvent = DialUnix string | DialPipe string | CloseAgent nat | Lstat string | PeerOf nat

record agentWorld =
  aScript :: "nat \<Rightarrow> agentAnswer"
  aStep :: nat
  aLog :: "agentEvent list"

definition aCall :: "agentEvent \<Rightarrow> agentWorld \<Rightarrow> agentAnswer \<times> agentWorld" where
  "aCall ev w = (aScript w (aStep w), w\<lparr>aStep := aStep w + 1, aLog := aLog w @ [ev]\<rparr>)"

section \<open>dotvault.go\<close>

definition DotvaultAuto :: string where "DotvaultAuto = ''auto''"
definition DotvaultOff :: string where "DotvaultOff = ''off''"

definition dotvaultAgentPipe :: string where
  "dotvaultAgentPipe = [CHR 0x5C, CHR 0x5C] @ ''.'' @ [CHR 0x5C] @ ''pipe'' @ [CHR 0x5C] @ ''dotvault-agent''"

definition dotvaultAgentSocket :: "string \<Rightarrow> (string \<Rightarrow> string) \<Rightarrow> string \<Rightarrow> string" where
  "dotvaultAgentSocket goos getenv home =
     (let rt = getenv ''XDG_RUNTIME_DIR''
      in if rt \<noteq> [] then filepath_Join [rt, ''dotvault'', ''agent.sock'']
         else if goos = ''darwin'' then
           (if home = [] then [] else filepath_Join [home, ''Library'', ''Caches'', ''dotvault'', ''agent.sock''])
         else if goos = ''windows'' then []
         else if home = [] then [] else filepath_Join [home, ''.cache'', ''dotvault'', ''agent.sock''])"

definition resolveDotvaultEndpoint :: "string \<Rightarrow> string \<Rightarrow> string" where
  "resolveDotvaultEndpoint setting autoDefault =
     (if setting = DotvaultOff then []
      else if setting = DotvaultAuto \<or> setting = [] then autoDefault
      else setting)"

definition homeDir :: "string \<Rightarrow> (string \<Rightarrow> string) \<Rightarrow> string" where
  "homeDir goos getenv = (case UserHomeDir goos getenv of None \<Rightarrow> [] | Some home \<Rightarrow> home)"

section \<open>Whom to trust\<close>

definition isCurrentUser :: "int \<Rightarrow> 32 word \<Rightarrow> bool" where
  "isCurrentUser euid uid = (uid = word_of_int euid)"

definition agentPeerUID_linux :: "agentAnswer \<Rightarrow> 32 word \<times> bool" where
  "agentPeerUID_linux a =
     (if \<not> aSyscallConn a then (0, False)
      else case aUcred a of None \<Rightarrow> (0, False) | Some uid \<Rightarrow> (uid, True))"

definition agentPeerUID_darwin :: "agentAnswer \<Rightarrow> 32 word \<times> bool" where
  "agentPeerUID_darwin a =
     (if \<not> aSyscallConn a then (0, False)
      else case aXucred a of
             None \<Rightarrow> (0, False)
           | Some (version, uid, ngroups) \<Rightarrow>
               if version = 0 \<and> uid = 0 \<and> ngroups = 0 then (0, False) else (uid, True))"

definition agentPeerUID :: "string \<Rightarrow> agentAnswer \<Rightarrow> 32 word \<times> bool" where
  "agentPeerUID goos a = (if goos = ''darwin'' then agentPeerUID_darwin a else agentPeerUID_linux a)"

text \<open>Whether the kernel can be asked about the peer (the build tags of \<^verbatim>\<open>agentpeer_peercred.go\<close>).\<close>

definition peercred :: "string \<Rightarrow> bool" where
  "peercred goos \<longleftrightarrow> goos = ''linux'' \<or> goos = ''darwin''"

definition ModeSocket :: "32 word" where
  "ModeSocket = 0x1000000"

definition ownSocket :: "int \<Rightarrow> agentAnswer \<Rightarrow> bool" where
  "ownSocket euid a =
     (case aStat a of
        None \<Rightarrow> False
      | Some (mode, owner) \<Rightarrow>
          if mode AND ModeSocket = 0 then False
          else case owner of None \<Rightarrow> False | Some uid \<Rightarrow> isCurrentUser euid uid)"

definition agentPathTrusted :: "string \<Rightarrow> int \<Rightarrow> string \<Rightarrow> agentWorld \<Rightarrow> bool \<times> agentWorld" where
  "agentPathTrusted goos euid path w =
     (if peercred goos then (True, w)
      else let (a, w) = aCall (Lstat path) w in (ownSocket euid a, w))"

definition agentPeerTrusted :: "string \<Rightarrow> int \<Rightarrow> nat \<Rightarrow> agentWorld \<Rightarrow> bool \<times> agentWorld" where
  "agentPeerTrusted goos euid conn w =
     (if peercred goos then
        let (a, w) = aCall (PeerOf conn) w; (uid, ok) = agentPeerUID goos a in (ok \<and> isCurrentUser euid uid, w)
      else (True, w))"

section \<open>Dialing\<close>

definition dialUnix :: "string \<Rightarrow> agentWorld \<Rightarrow> nat option \<times> agentWorld" where
  "dialUnix path w = (let (a, w) = aCall (DialUnix path) w in (aConn a, w))"

definition dialPipe :: "string \<Rightarrow> agentWorld \<Rightarrow> nat option \<times> agentWorld" where
  "dialPipe path w = (let (a, w) = aCall (DialPipe path) w in (aConn a, w))"

definition dialOwnAgent :: "string \<Rightarrow> int \<Rightarrow> string \<Rightarrow> agentWorld \<Rightarrow> nat option \<times> agentWorld" where
  "dialOwnAgent goos euid path w =
     (let (trusted, w) = agentPathTrusted goos euid path w
      in if \<not> trusted then (None, w)
         else
           let (conn, w) = dialUnix path w
           in case conn of
                None \<Rightarrow> (None, w)
              | Some conn \<Rightarrow>
                  (let (trusted, w) = agentPeerTrusted goos euid conn w
                   in if \<not> trusted then let (_, w) = aCall (CloseAgent conn) w in (None, w)
                      else (Some conn, w)))"

text \<open>\<^verbatim>\<open>conns = append(conns, conn)\<close> where there is one.\<close>

definition keep :: "nat list \<Rightarrow> nat option \<times> agentWorld \<Rightarrow> nat list \<times> agentWorld" where
  "keep conns r = (case r of (None, w) \<Rightarrow> (conns, w) | (Some c, w) \<Rightarrow> (conns @ [c], w))"

definition dialSock :: "(string \<Rightarrow> string) \<Rightarrow> agentWorld \<Rightarrow> nat list \<times> agentWorld" where
  "dialSock getenv w =
     (let sock = getenv ''SSH_AUTH_SOCK'' in if sock \<noteq> [] then keep [] (dialUnix sock w) else ([], w))"

definition dialAgents ::
  "string \<Rightarrow> (string \<Rightarrow> string) \<Rightarrow> int \<Rightarrow> string \<Rightarrow> agentWorld \<Rightarrow> nat list \<times> agentWorld" where
  "dialAgents goos getenv euid dotvault w =
     (let (conns, w) = dialSock getenv w;
          path = resolveDotvaultEndpoint dotvault (dotvaultAgentSocket goos getenv (homeDir goos getenv))
      in if path \<noteq> [] then keep conns (dialOwnAgent goos euid path w) else (conns, w))"

definition openSSHAgentPipe :: string where
  "openSSHAgentPipe = [CHR 0x5C, CHR 0x5C] @ ''.'' @ [CHR 0x5C] @ ''pipe'' @ [CHR 0x5C] @ ''openssh-ssh-agent''"

definition dialAgents_windows :: "(string \<Rightarrow> string) \<Rightarrow> string \<Rightarrow> agentWorld \<Rightarrow> nat list \<times> agentWorld" where
  "dialAgents_windows getenv dotvault w =
     (let (conns, w) = dialSock getenv w;
          pipe = resolveDotvaultEndpoint dotvault dotvaultAgentPipe;
          (conns, w) = (if pipe \<noteq> [] then keep conns (dialPipe pipe w) else (conns, w))
      in keep conns (dialPipe openSSHAgentPipe w))"

section \<open>AgentAuth\<close>

fun collectSigners :: "(nat \<Rightarrow> 's list option) \<Rightarrow> 's list \<Rightarrow> nat list \<Rightarrow> 's list" where
  "collectSigners signersOf signers [] = signers"
| "collectSigners signersOf signers (cl # clients) =
     (case signersOf cl of
        None \<Rightarrow> collectSigners signersOf signers clients
      | Some s \<Rightarrow> collectSigners signersOf (signers @ s) clients)"

text \<open>The callback, as a function of what the agents answer when it is called.\<close>

definition agentSigners ::
  "string \<Rightarrow> (string \<Rightarrow> string) \<Rightarrow> int \<Rightarrow> string \<Rightarrow> agentWorld \<Rightarrow> ((nat \<Rightarrow> 's list option) \<Rightarrow> 's list) option \<times> agentWorld" where
  "agentSigners goos getenv euid dotvault w =
     (let (conns, w) = (if goos = ''windows'' then dialAgents_windows getenv dotvault w
                        else dialAgents goos getenv euid dotvault w)
      in if length conns = 0 then (None, w) else (Some (\<lambda>signersOf. collectSigners signersOf [] conns), w))"

definition AgentAuth ::
  "string \<Rightarrow> (string \<Rightarrow> string) \<Rightarrow> int \<Rightarrow> string \<Rightarrow> agentWorld \<Rightarrow> ((nat \<Rightarrow> 's list option) \<Rightarrow> 's list) option \<times> agentWorld" where
  "AgentAuth goos getenv euid dotvault w =
     (let (callback, w) = agentSigners goos getenv euid dotvault w
      in case callback of None \<Rightarrow> (None, w) | Some f \<Rightarrow> (Some f, w))"

section \<open>Lemmas\<close>

lemma collectSigners_eq:
  "collectSigners f s cs = s @ concat (map (\<lambda>c. case f c of None \<Rightarrow> [] | Some x \<Rightarrow> x) cs)"
  by (induction f s cs rule: collectSigners.induct) (simp_all split: option.splits)

text \<open>A log in which entry \<open>n\<close> is the call that answer \<open>n\<close> of the script was given to.\<close>

definition fresh :: "agentWorld \<Rightarrow> bool" where
  "fresh w \<longleftrightarrow> aStep w = 0 \<and> aLog w = []"

lemmas agent_calls = aCall_def dialUnix_def dialPipe_def keep_def agentPathTrusted_def agentPeerTrusted_def Let_def

lemma dialSock_cases:
  assumes "fresh w" "dialSock getenv w = (conns, w')"
  obtains "getenv ''SSH_AUTH_SOCK'' = []" "conns = []" "w' = w"
  | "getenv ''SSH_AUTH_SOCK'' \<noteq> []" "conns = (case aConn (aScript w 0) of None \<Rightarrow> [] | Some c \<Rightarrow> [c])"
    "w' = w\<lparr>aStep := 1, aLog := [DialUnix (getenv ''SSH_AUTH_SOCK'')]\<rparr>"
  using assms by (auto simp: dialSock_def agent_calls fresh_def split: if_splits option.splits)

text \<open>Where the kernel reports the peer, what one attempt at the dotvault agent does.\<close>

lemma dialOwnAgent_peercred:
  assumes "peercred goos" "dialOwnAgent goos euid path w = (r, w')" "aStep w = n"
  shows "\<exists>evs. w' = w\<lparr>aStep := n + length evs, aLog := aLog w @ evs\<rparr> \<and>
    (case aConn (aScript w n) of
       None \<Rightarrow> r = None \<and> evs = [DialUnix path]
     | Some c \<Rightarrow>
         if agentPeerUID goos (aScript w (n + 1)) = (word_of_int euid, True)
         then r = Some c \<and> evs = [DialUnix path, PeerOf c]
         else r = None \<and> evs = [DialUnix path, PeerOf c, CloseAgent c])"
  using assms
  by (auto simp: dialOwnAgent_def agent_calls isCurrentUser_def split: option.splits prod.splits if_splits)

section \<open>Claims\<close>

text \<open>The call of the log at which a connection is dialed and the one at which its peer is looked up.\<close>

definition dialedBy :: "agentWorld \<Rightarrow> agentWorld \<Rightarrow> string \<Rightarrow> nat \<Rightarrow> bool" where
  "dialedBy w w' path c \<longleftrightarrow>
     (\<exists>n < length (aLog w'). aLog w' ! n = DialUnix path \<and> aConn (aScript w n) = Some c)"

definition vouchedFor :: "string \<Rightarrow> int \<Rightarrow> agentWorld \<Rightarrow> agentWorld \<Rightarrow> nat \<Rightarrow> bool" where
  "vouchedFor goos euid w w' c \<longleftrightarrow>
     (\<exists>n < length (aLog w'). aLog w' ! n = PeerOf c \<and> agentPeerUID goos (aScript w n) = (word_of_int euid, True))"

lemma dialedByI: "aLog w' ! n = DialUnix path \<Longrightarrow> aConn (aScript w n) = Some c \<Longrightarrow> n < length (aLog w') \<Longrightarrow> dialedBy w w' path c"
  by (auto simp: dialedBy_def)

lemma vouchedForI:
  "aLog w' ! n = PeerOf c \<Longrightarrow> agentPeerUID goos (aScript w n) = (word_of_int euid, True) \<Longrightarrow> n < length (aLog w') \<Longrightarrow>
    vouchedFor goos euid w w' c"
  by (auto simp: vouchedFor_def)

lemma dialSock_log:
  assumes "fresh w" "dialSock getenv w = (conns, w')"
  shows "aScript w' = aScript w \<and> aStep w' = length (aLog w') \<and>
    (\<forall>c\<in>set conns. aLog w' ! 0 = DialUnix (getenv ''SSH_AUTH_SOCK'') \<and> aConn (aScript w 0) = Some c \<and> aLog w' \<noteq> []) \<and>
    (\<forall>n<length (aLog w'). n = 0 \<and> aLog w' ! n = DialUnix (getenv ''SSH_AUTH_SOCK'') \<and>
      (\<forall>c. aConn (aScript w n) = Some c \<longrightarrow> c \<in> set conns))"
  by (rule dialSock_cases [OF assms]) (use assms(1) in \<open>auto simp: fresh_def split: option.splits\<close>)

lemma dialOwnAgent_log:
  assumes "peercred goos" "dialOwnAgent goos euid path w = (r, w')" "aStep w = n"
  shows "\<exists>evs. aLog w' = aLog w @ evs \<and>
    (evs = [DialUnix path] \<and> r = None \<and> aConn (aScript w n) = None \<or>
     (\<exists>c. aConn (aScript w n) = Some c \<and> r = Some c \<and> evs = [DialUnix path, PeerOf c] \<and>
       agentPeerUID goos (aScript w (n + 1)) = (word_of_int euid, True)) \<or>
     (\<exists>c. aConn (aScript w n) = Some c \<and> r = None \<and> evs = [DialUnix path, PeerOf c, CloseAgent c]))"
  using dialOwnAgent_peercred [OF assms] by (cases "aConn (aScript w n)") (auto split: if_splits)

text \<open>C19: only one's own agents. Where the kernel reports the peer of a socket (Linux and macOS), every
  connection whose identities will be offered was dialed at SSH_AUTH_SOCK, or was dialed at the
  dotvault endpoint and the kernel named the current user as the owner of the process behind that
  very connection: a failed lookup, another user's process and, on macOS, an answer that was
  never written are all refused. Every connection that is not kept is closed, and with dotvault
  off nothing but SSH_AUTH_SOCK is dialed.\<close>

theorem agent_identities_own:
  assumes "peercred goos" "fresh w" "dialAgents goos getenv euid dotvault w = (conns, w')"
    and "path = resolveDotvaultEndpoint dotvault (dotvaultAgentSocket goos getenv (homeDir goos getenv))"
  shows "(\<forall>c\<in>set conns. dialedBy w w' (getenv ''SSH_AUTH_SOCK'') c \<or> dialedBy w w' path c \<and> vouchedFor goos euid w w' c) \<and>
    (\<forall>p c. dialedBy w w' p c \<longrightarrow> c \<in> set conns \<or> CloseAgent c \<in> set (aLog w')) \<and>
    (dotvault = DotvaultOff \<longrightarrow> (\<forall>ev\<in>set (aLog w'). ev = DialUnix (getenv ''SSH_AUTH_SOCK'')))"
proof -
  obtain conns1 w1 where d: "dialSock getenv w = (conns1, w1)" by fastforce
  have off: "path = []" if "dotvault = DotvaultOff" using that assms(4) by (simp add: resolveDotvaultEndpoint_def)
  have s: "aScript w1 = aScript w" "aStep w1 = length (aLog w1)"
    "\<forall>c\<in>set conns1. aLog w1 ! 0 = DialUnix (getenv ''SSH_AUTH_SOCK'') \<and> aConn (aScript w 0) = Some c \<and> aLog w1 \<noteq> []"
    "\<forall>n<length (aLog w1). n = 0 \<and> aLog w1 ! n = DialUnix (getenv ''SSH_AUTH_SOCK'') \<and> (\<forall>c. aConn (aScript w n) = Some c \<longrightarrow> c \<in> set conns1)"
    using dialSock_log [OF assms(2) d] by blast+
  have old: "\<forall>ev\<in>set (aLog w1). ev = DialUnix (getenv ''SSH_AUTH_SOCK'')" using s(4) by (metis in_set_conv_nth)
  show ?thesis
  proof (cases "path = []")
    case True
    then have "conns = conns1" "w' = w1" using assms(3,4) d by (auto simp: dialAgents_def Let_def)
    then show ?thesis using s old by (auto simp: dialedBy_def)
  next
    case False
    let ?n = "length (aLog w1)"
    obtain r w2 where r: "dialOwnAgent goos euid path w1 = (r, w2)" by fastforce
    then have e: "conns = (case r of None \<Rightarrow> conns1 | Some c \<Rightarrow> conns1 @ [c])" "w' = w2"
      using assms(3,4) d False by (auto simp: dialAgents_def keep_def Let_def split: option.splits)
    obtain evs where evs: "aLog w' = aLog w1 @ evs" and
      new: "evs = [DialUnix path] \<and> r = None \<and> aConn (aScript w ?n) = None \<or>
      (\<exists>c. aConn (aScript w ?n) = Some c \<and> r = Some c \<and> evs = [DialUnix path, PeerOf c] \<and>
        agentPeerUID goos (aScript w (?n + 1)) = (word_of_int euid, True)) \<or>
      (\<exists>c. aConn (aScript w ?n) = Some c \<and> r = None \<and> evs = [DialUnix path, PeerOf c, CloseAgent c])"
      using dialOwnAgent_log [OF assms(1) r s(2)] unfolding e(2) s(1) by blast
    have kept: "dialedBy w w' (getenv ''SSH_AUTH_SOCK'') c" if "c \<in> set conns1" for c
      using s(3) that evs by (intro dialedByI [of _ 0]) (auto simp: nth_append)
    have own: "dialedBy w w' path c \<and> vouchedFor goos euid w w' c" if "r = Some c" for c
      using new that evs dialedByI [of w' ?n path w c] vouchedForI [of w' "?n + 1" c goos w euid]
      by (auto simp: nth_append)
    have closed: "c \<in> set conns \<or> CloseAgent c \<in> set (aLog w')" if dd: "dialedBy w w' p c" for p c
    proof -
      obtain n where n: "n < length (aLog w')" "aLog w' ! n = DialUnix p" "aConn (aScript w n) = Some c"
        using dd by (auto simp: dialedBy_def)
      have "n < ?n \<or> n = ?n" using n(1,2) new evs by (auto simp: nth_append nth_Cons' split: if_splits)
      then show ?thesis using n(3) s(4) new e(1) evs by (auto split: option.splits)
    qed
    show ?thesis using kept own closed off False e(1) by (auto split: option.splits)
  qed
qed

definition agentScript :: "nat \<Rightarrow> agentAnswer" where
  "agentScript n = \<lparr>aConn = Some (n + 3), aStat = None, aSyscallConn = True, aUcred = Some 1000, aXucred = None\<rparr>"

lemma agent_identities_own_witness:
  "fst (dialAgents ''linux'' (\<lambda>v. if v = ''SSH_AUTH_SOCK'' then ''/s'' else ''/r'') 1000 ''auto''
     \<lparr>aScript = agentScript, aStep = 0, aLog = []\<rparr>) = [3, 4] \<and>
   vouchedFor ''linux'' 1000 \<lparr>aScript = agentScript, aStep = 0, aLog = []\<rparr>
     (snd (dialAgents ''linux'' (\<lambda>v. if v = ''SSH_AUTH_SOCK'' then ''/s'' else ''/r'') 1000 ''auto''
       \<lparr>aScript = agentScript, aStep = 0, aLog = []\<rparr>)) 4"
proof -
  let ?g = "\<lambda>v. if v = ''SSH_AUTH_SOCK'' then ''/s'' else ''/r''"
  let ?w = "\<lparr>aScript = agentScript, aStep = 0, aLog = []\<rparr>"
  let ?r = "dialAgents ''linux'' ?g 1000 ''auto'' ?w"
  let ?p = "resolveDotvaultEndpoint ''auto'' (dotvaultAgentSocket ''linux'' ?g (homeDir ''linux'' ?g))"
  have p: "?p = ''/r/dotvault/agent.sock''"
    using filepath_Join_below [of "''/r''" "[''r'']" "[''dotvault'', ''agent.sock'']"]
    by (simp add: resolveDotvaultEndpoint_def dotvaultAgentSocket_def DotvaultOff_def DotvaultAuto_def plain_elem_def)
  have r: "fst ?r = [3, 4]" "aLog (snd ?r) = [DialUnix ''/s'', DialUnix ''/r/dotvault/agent.sock'', PeerOf 4]"
    unfolding dialAgents_def p Let_def
    by (simp_all add: dialSock_def dialOwnAgent_def agent_calls peercred_def agentPeerUID_def agentPeerUID_linux_def
        isCurrentUser_def agentScript_def)
  have "\<not> dialedBy ?w (snd ?r) ''/s'' 4" using r(2) by (auto simp: dialedBy_def agentScript_def less_Suc_eq nth_Cons')
  moreover have "dialAgents ''linux'' ?g 1000 ''auto'' ?w = (fst ?r, snd ?r)" by simp
  ultimately show ?thesis
    using agent_identities_own [of "''linux''" ?w ?g 1000 "''auto''" "fst ?r" "snd ?r" ?p] r(1)
    by (simp add: peercred_def fresh_def)
qed

end
