(* ===== verification/Termenv.thy ===== *)
theory Termenv
  imports Gosh_Prelude
begin

unbundle bit_operations_syntax

text \<open>
  \<^verbatim>\<open>internal/termenv\<close> and the watchers of the window size, \<^verbatim>\<open>internal/client/resize_unix.go\<close> and
  \<^verbatim>\<open>resize_windows.go\<close>.

  The terminal is the mode of its input, whose type only the library \<^verbatim>\<open>x/term\<close> knows, and, on Windows, the
  mode word of its console output. The library and the two console calls are parameters: \<open>termLib\<close>. A
  watcher is a transition system of the goroutine, the runtime that delivers signals or ticks, and
  the reader of the channel; both channels have room for one element.
\<close>

section \<open>termenv.go and vt_windows.go\<close>

record 'm console =
  ttyMode :: 'm
  vtMode :: "32 word"

record ('m, 't) termLib =
  termMakeRaw :: "'m \<Rightarrow> error + 't \<times> 'm"
  termRestore :: "'t \<Rightarrow> 'm \<Rightarrow> error option \<times> 'm"
  isConsole :: bool                                  \<comment> \<open>\<^verbatim>\<open>GetConsoleMode\<close> succeeds\<close>
  setConsoleMode :: "32 word \<Rightarrow> error option"

text \<open>\<^verbatim>\<open>restoreVT\<close> is the mode it restores; the error of that call is ignored.\<close>

record 't TermState =
  fd :: int
  termState :: 't
  restoreVT :: "32 word option"

definition setMode :: "('m, 't) termLib \<Rightarrow> 32 word \<Rightarrow> 'm console \<Rightarrow> error option \<times> 'm console" where
  "setMode lib mode c = (case setConsoleMode lib mode of Some e \<Rightarrow> (Some e, c) | None \<Rightarrow> (None, c\<lparr>vtMode := mode\<rparr>))"

definition enableVT_other :: "'m console \<Rightarrow> (error + 32 word option) \<times> 'm console" where
  "enableVT_other c = (Inr None, c)"

definition ENABLE_VIRTUAL_TERMINAL_PROCESSING :: "32 word" where
  "ENABLE_VIRTUAL_TERMINAL_PROCESSING = 0x4"

definition DISABLE_NEWLINE_AUTO_RETURN :: "32 word" where
  "DISABLE_NEWLINE_AUTO_RETURN = 0x8"

definition enableVT_windows :: "('m, 't) termLib \<Rightarrow> 'm console \<Rightarrow> (error + 32 word option) \<times> 'm console" where
  "enableVT_windows lib c =
     (if \<not> isConsole lib then (Inr None, c)
      else
        let orig = vtMode c;
            mode = orig OR ENABLE_VIRTUAL_TERMINAL_PROCESSING OR DISABLE_NEWLINE_AUTO_RETURN;
            (err, c) = setMode lib mode c
        in case err of
             None \<Rightarrow> (Inr (Some orig), c)
           | Some _ \<Rightarrow>
               (let mode = mode AND NOT DISABLE_NEWLINE_AUTO_RETURN; (err, c) = setMode lib mode c
                in case err of Some e \<Rightarrow> (Inl e, c) | None \<Rightarrow> (Inr (Some orig), c)))"

definition enableVT :: "bool \<Rightarrow> ('m, 't) termLib \<Rightarrow> 'm console \<Rightarrow> (error + 32 word option) \<times> 'm console" where
  "enableVT windows lib c = (if windows then enableVT_windows lib c else enableVT_other c)"

definition runRestoreVT :: "('m, 't) termLib \<Rightarrow> 32 word option \<Rightarrow> 'm console \<Rightarrow> 'm console" where
  "runRestoreVT lib r c = (case r of None \<Rightarrow> c | Some orig \<Rightarrow> snd (setMode lib orig c))"

definition MakeRaw :: "bool \<Rightarrow> ('m, 't) termLib \<Rightarrow> int \<Rightarrow> 'm console \<Rightarrow> (error + 't TermState) \<times> 'm console" where
  "MakeRaw windows lib stdin c =
     (let (r, c) = enableVT windows lib c
      in case r of
           Inl e \<Rightarrow> (Inl e, c)
         | Inr restore \<Rightarrow>
             (case termMakeRaw lib (ttyMode c) of
                Inl e \<Rightarrow> (Inl e, runRestoreVT lib restore c)
              | Inr (st, mode) \<Rightarrow> (Inr \<lparr>fd = stdin, termState = st, restoreVT = restore\<rparr>, c\<lparr>ttyMode := mode\<rparr>)))"

text \<open>\<^verbatim>\<open>None\<close> is the nil receiver.\<close>

definition Restore :: "('m, 't) termLib \<Rightarrow> 't TermState option \<Rightarrow> 'm console \<Rightarrow> error option \<times> 'm console" where
  "Restore lib s c =
     (case s of
        None \<Rightarrow> (None, c)
      | Some st \<Rightarrow>
          (let (err, mode) = termRestore lib (termState st) (ttyMode c); c = c\<lparr>ttyMode := mode\<rparr>
           in (err, runRestoreVT lib (restoreVT st) c)))"

text \<open>The argument is what \<^verbatim>\<open>term.GetSize\<close> returns, \<open>None\<close> for an error.\<close>

definition Size :: "(int \<times> int) option \<Rightarrow> int \<times> int" where
  "Size r = (case r of None \<Rightarrow> (80, 24) | Some (w, h) \<Rightarrow> if w \<le> 0 \<or> h \<le> 0 then (80, 24) else (w, h))"

definition TrySize :: "(int \<times> int) option \<Rightarrow> int \<times> int \<times> bool" where
  "TrySize r =
     (case r of None \<Rightarrow> (0, 0, False) | Some (w, h) \<Rightarrow> if w \<le> 0 \<or> h \<le> 0 then (0, 0, False) else (w, h, True))"

section \<open>The watchers\<close>

record watcher =
  watching :: bool
  sigCh :: bool      \<comment> \<open>a signal is in \<^verbatim>\<open>sig\<close>, or a tick in \<^verbatim>\<open>ticker.C\<close>\<close>
  outCh :: bool      \<comment> \<open>an element is in \<^verbatim>\<open>out\<close>\<close>
  lastSize :: "int \<times> int"

definition startWatch :: "(int \<times> int) option \<Rightarrow> watcher" where
  "startWatch r = \<lparr>watching = True, sigCh = False, outCh = False, lastSize = Size r\<rparr>"

text \<open>What one iteration of the goroutine does when it receives from \<^verbatim>\<open>sig\<close>. Sending to \<^verbatim>\<open>out\<close> does not
  block: where it is full the element is dropped.\<close>

definition onSignal :: "watcher \<Rightarrow> watcher" where
  "onSignal x = x\<lparr>sigCh := False, outCh := True\<rparr>"

definition onTick :: "(int \<times> int) option \<Rightarrow> watcher \<Rightarrow> watcher" where
  "onTick r x =
     (let x = x\<lparr>sigCh := False\<rparr>; (w, h, ok) = TrySize r
      in if \<not> ok then x
         else if w \<noteq> fst (lastSize x) \<or> h \<noteq> snd (lastSize x) then x\<lparr>lastSize := (w, h), outCh := True\<rparr>
         else x)"

text \<open>A system has besides the size of the window and whether it changed since the reader last looked. The
  reader looks after it took an element. The size changes as the user likes; on Unix each change
  comes with a signal.\<close>

record winsys =
  wch :: watcher
  winSize :: "int \<times> int"
  unseen :: bool

inductive unix_step :: "winsys \<Rightarrow> winsys \<Rightarrow> bool" where
  resize: "unix_step x (x\<lparr>winSize := z, unseen := True, wch := (wch x)\<lparr>sigCh := True\<rparr>\<rparr>)"
| forward: "watching (wch x) \<Longrightarrow> sigCh (wch x) \<Longrightarrow> unix_step x (x\<lparr>wch := onSignal (wch x)\<rparr>)"
| take: "outCh (wch x) \<Longrightarrow> unix_step x (x\<lparr>wch := (wch x)\<lparr>outCh := False\<rparr>, unseen := False\<rparr>)"
| cancel: "unix_step x (x\<lparr>wch := (wch x)\<lparr>watching := False\<rparr>\<rparr>)"

text \<open>On Windows the size is what counts; \<open>shown\<close> is the size the reader saw last.\<close>

inductive windows_step :: "winsys \<times> (int \<times> int) \<Rightarrow> winsys \<times> (int \<times> int) \<Rightarrow> bool" where
  resize: "0 < fst z \<Longrightarrow> 0 < snd z \<Longrightarrow> windows_step (x, shown) (x\<lparr>winSize := z\<rparr>, shown)"
| tick: "windows_step (x, shown) (x\<lparr>wch := (wch x)\<lparr>sigCh := True\<rparr>\<rparr>, shown)"
| poll: "watching (wch x) \<Longrightarrow> sigCh (wch x) \<Longrightarrow> r = None \<or> r = Some (winSize x) \<Longrightarrow>
    windows_step (x, shown) (x\<lparr>wch := onTick r (wch x)\<rparr>, shown)"
| take: "outCh (wch x) \<Longrightarrow> windows_step (x, shown) (x\<lparr>wch := (wch x)\<lparr>outCh := False\<rparr>\<rparr>, winSize x)"
| cancel: "windows_step (x, shown) (x\<lparr>wch := (wch x)\<lparr>watching := False\<rparr>\<rparr>, shown)"

section \<open>Lemmas\<close>

lemma setMode_tty [simp]: "ttyMode (snd (setMode lib m c)) = ttyMode c"
  by (simp add: setMode_def split: option.splits)

lemma runRestoreVT_tty [simp]: "ttyMode (runRestoreVT lib r c) = ttyMode c"
  by (simp add: runRestoreVT_def split: option.splits)

lemma runRestoreVT_Some: "setConsoleMode lib m = None \<Longrightarrow> runRestoreVT lib (Some m) c = c\<lparr>vtMode := m\<rparr>"
  by (simp add: runRestoreVT_def setMode_def)

text \<open>What \<^verbatim>\<open>enableVT\<close> leaves behind: nothing to undo, or a console whose mode it remembers.\<close>

lemma enableVT_cases:
  assumes "enableVT windows lib c = (r, c1)"
  shows "(\<exists>e. r = Inl e \<and> c1 = c) \<or> r = Inr None \<and> c1 = c \<and> \<not> (windows \<and> isConsole lib) \<or>
    (\<exists>mode. r = Inr (Some (vtMode c)) \<and> c1 = c\<lparr>vtMode := mode\<rparr>)"
proof (cases "windows \<and> isConsole lib")
  case True
  let ?m = "vtMode c OR ENABLE_VIRTUAL_TERMINAL_PROCESSING OR DISABLE_NEWLINE_AUTO_RETURN"
  have w: "enableVT windows lib c = enableVT_windows lib c" "isConsole lib" using True by (simp_all add: enableVT_def)
  show ?thesis
  proof (cases "setConsoleMode lib ?m")
    case None
    then show ?thesis using assms w by (auto simp: enableVT_windows_def setMode_def Let_def)
  next
    case (Some e)
    then show ?thesis using assms w
      by (cases "setConsoleMode lib (?m AND NOT DISABLE_NEWLINE_AUTO_RETURN)")
        (auto simp: enableVT_windows_def setMode_def Let_def)
  qed
next
  case False
  then have "enableVT windows lib c = (Inr None, c)" by (simp add: enableVT_def enableVT_other_def enableVT_windows_def)
  then show ?thesis using assms False by simp
qed

lemma vtMode_same [simp]: "c\<lparr>vtMode := vtMode c\<rparr> = c" "c\<lparr>ttyMode := ttyMode c\<rparr> = c"
  by simp_all

lemma TrySize_ok: "0 < fst z \<Longrightarrow> 0 < snd z \<Longrightarrow> TrySize (Some z) = (fst z, snd z, True)"
  by (auto simp: TrySize_def split: prod.splits)

section \<open>Claims\<close>

text \<open>The terminal comes back. When \<open>MakeRaw\<close> fails it leaves the terminal as it found it. When it
  succeeds, \<open>Restore\<close> brings back the mode of the input and, where the console output was changed,
  its mode, whatever happened to both in between. This holds for a terminal library whose restore
  undoes its raw mode and a console that accepts the mode it had.\<close>

theorem terminal_restored:
  assumes restores: "\<And>m st m' m''. termMakeRaw lib m = Inr (st, m') \<Longrightarrow> termRestore lib st m'' = (None, m)"
    and accepts: "setConsoleMode lib (vtMode c) = None"
    and "MakeRaw windows lib stdin c = (r, c1)"
  shows "(\<forall>e. r = Inl e \<longrightarrow> c1 = c) \<and>
    (\<forall>st c2. r = Inr st \<longrightarrow> (windows \<and> isConsole lib \<or> vtMode c2 = vtMode c1) \<longrightarrow> Restore lib (Some st) c2 = (None, c))"
proof -
  obtain v c0 where v: "enableVT windows lib c = (v, c0)" by fastforce
  have c2: "c2 = c\<lparr>ttyMode := t\<rparr>" if "vtMode c2 = vtMode c" "ttyMode c2 = t" for c2 t
    using that by (cases c; cases c2) simp
  consider (fail) e where "v = Inl e" "c0 = c" | (plain) "v = Inr None" "c0 = c" "\<not> (windows \<and> isConsole lib)"
    | (console) mode where "v = Inr (Some (vtMode c))" "c0 = c\<lparr>vtMode := mode\<rparr>"
    using enableVT_cases [OF v] by blast
  then show ?thesis
  proof cases
    case (fail e)
    then show ?thesis using assms(3) v by (auto simp: MakeRaw_def)
  next
    case plain
    show ?thesis
    proof (cases "termMakeRaw lib (ttyMode c)")
      case (Inl e)
      then show ?thesis using assms(3) v plain by (auto simp: MakeRaw_def runRestoreVT_def)
    next
      case (Inr x)
      obtain st m where "x = (st, m)" by fastforce
      then show ?thesis
        using assms(3) v plain Inr restores [of "ttyMode c" st m] by (auto simp: MakeRaw_def Restore_def runRestoreVT_def)
    qed
  next
    case (console mode)
    show ?thesis
    proof (cases "termMakeRaw lib (ttyMode c)")
      case (Inl e)
      then show ?thesis using assms(3) v console runRestoreVT_Some [OF accepts] by (auto simp: MakeRaw_def)
    next
      case (Inr x)
      obtain st m where "x = (st, m)" by fastforce
      then show ?thesis
        using assms(3) v console Inr restores [of "ttyMode c" st m] runRestoreVT_Some [OF accepts]
        by (auto simp: MakeRaw_def Restore_def)
    qed
  qed
qed

definition plainTerm :: "(nat, nat) termLib" where
  "plainTerm = \<lparr>termMakeRaw = (\<lambda>m. Inr (m, 0)), termRestore = (\<lambda>st m. (None, st)), isConsole = True,
     setConsoleMode = (\<lambda>m. if m AND 8 = 0 then None else Some (ErrOS 87))\<rparr>"

lemma terminal_restored_witness:
  "\<exists>st c1. MakeRaw True plainTerm 0 \<lparr>ttyMode = 5, vtMode = 3\<rparr> = (Inr st, c1) \<and> vtMode c1 = 7 \<and>
     Restore plainTerm (Some st) c1 = (None, \<lparr>ttyMode = 5, vtMode = 3\<rparr>)"
proof -
  obtain st c1 where m: "MakeRaw True plainTerm 0 \<lparr>ttyMode = 5, vtMode = 3\<rparr> = (Inr st, c1)" "vtMode c1 = 7"
    by (simp add: MakeRaw_def enableVT_def enableVT_windows_def setMode_def plainTerm_def Let_def
        ENABLE_VIRTUAL_TERMINAL_PROCESSING_def DISABLE_NEWLINE_AUTO_RETURN_def)
  then show ?thesis
    using terminal_restored [OF _ _ m(1)] by (auto simp: plainTerm_def)
qed

text \<open>C39: no window change is lost on Unix. However changes, deliveries and looks interleave, and
  although both channels drop what does not fit, a change that the client has not looked at has
  left a signal or an element, and as long as the watcher runs the client gets to look at it.\<close>

theorem resize_not_lost:
  assumes "unix_step\<^sup>*\<^sup>* \<lparr>wch = startWatch r, winSize = z, unseen = False\<rparr> x" "unseen x"
  shows "(sigCh (wch x) \<or> outCh (wch x)) \<and>
    (watching (wch x) \<longrightarrow> (\<exists>x'. unix_step\<^sup>*\<^sup>* x x' \<and> \<not> unseen x' \<and> winSize x' = winSize x))"
proof -
  have "unseen x \<longrightarrow> sigCh (wch x) \<or> outCh (wch x)"
    using assms(1) by (induction rule: rtranclp_induct) (auto simp: onSignal_def elim: unix_step.cases)
  then have p: "sigCh (wch x) \<or> outCh (wch x)" using assms(2) by simp
  have look: "\<exists>x'. unix_step\<^sup>*\<^sup>* y x' \<and> \<not> unseen x' \<and> winSize x' = winSize y" if "outCh (wch y)" for y
    using unix_step.take [OF that] by (intro exI conjI) (erule r_into_rtranclp, simp_all)
  have "\<exists>x'. unix_step\<^sup>*\<^sup>* x x' \<and> \<not> unseen x' \<and> winSize x' = winSize x" if "watching (wch x)" "\<not> outCh (wch x)"
  proof -
    let ?y = "x\<lparr>wch := onSignal (wch x)\<rparr>"
    have "unix_step x ?y" using that p by (intro unix_step.forward) auto
    moreover have "outCh (wch ?y)" by (simp add: onSignal_def)
    ultimately show ?thesis using look [of ?y] by (auto intro: converse_rtranclp_into_rtranclp)
  qed
  then show ?thesis using p look by blast
qed

lemma resize_not_lost_witness:
  "\<exists>x. unix_step\<^sup>*\<^sup>* \<lparr>wch = startWatch None, winSize = (80, 24), unseen = False\<rparr> x \<and> winSize x = (100, 30) \<and> \<not> unseen x"
proof -
  let ?s = "\<lparr>wch = startWatch None, winSize = (80, 24), unseen = False\<rparr>"
  let ?x = "?s\<lparr>winSize := (100, 30), unseen := True, wch := (wch ?s)\<lparr>sigCh := True\<rparr>\<rparr>"
  have "unix_step\<^sup>*\<^sup>* ?s ?x" by (intro r_into_rtranclp unix_step.resize)
  from resize_not_lost [OF this] this show ?thesis
    by (auto simp: startWatch_def intro: rtranclp_trans)
qed

text \<open>On Windows a change can be lost. Here the client looks while the size is another than the watcher
  last read, and the size then goes back before the watcher reads again: the watcher sees no
  change, no element waits, and the client keeps the size it saw.\<close>

lemma windows_resize_lost:
  "\<exists>x. windows_step\<^sup>*\<^sup>* (\<lparr>wch = startWatch (Some (80, 24)), winSize = (80, 24), unseen = False\<rparr>, (80, 24)) (x, (90, 24)) \<and>
     winSize x = (100, 24) \<and> lastSize (wch x) = winSize x \<and> \<not> outCh (wch x) \<and> watching (wch x)"
proof -
  have st: "windows_step\<^sup>*\<^sup>* a c" if "windows_step a b" "windows_step\<^sup>*\<^sup>* b c" for a b c
    using that by (rule converse_rtranclp_into_rtranclp)
  let ?w = "\<lambda>s o' l. \<lparr>watching = True, sigCh = s, outCh = o', lastSize = l\<rparr>"
  let ?x = "\<lambda>w z. \<lparr>wch = w, winSize = z, unseen = False\<rparr>"
  have s: "\<lparr>wch = startWatch (Some (80, 24)), winSize = (80, 24), unseen = False\<rparr> = ?x (?w False False (80, 24)) (80, 24)"
    by (simp add: startWatch_def Size_def)
  have 1: "windows_step (?x (?w False False (80, 24)) (80, 24), (80, 24)) (?x (?w False False (80, 24)) (100, 24), (80, 24))"
    using windows_step.resize [of "(100, 24)" "?x (?w False False (80, 24)) (80, 24)" "(80, 24)"] by simp
  have 2: "windows_step (?x (?w False False (80, 24)) (100, 24), (80, 24)) (?x (?w True False (80, 24)) (100, 24), (80, 24))"
    using windows_step.tick [of "?x (?w False False (80, 24)) (100, 24)"] by simp
  have 3: "windows_step (?x (?w True False (80, 24)) (100, 24), (80, 24)) (?x (?w False True (100, 24)) (100, 24), (80, 24))"
    using windows_step.poll [of "?x (?w True False (80, 24)) (100, 24)" "Some (100, 24)"] by (simp add: onTick_def TrySize_def)
  have 4: "windows_step (?x (?w False True (100, 24)) (100, 24), (80, 24)) (?x (?w False True (100, 24)) (90, 24), (80, 24))"
    using windows_step.resize [of "(90, 24)" "?x (?w False True (100, 24)) (100, 24)"] by simp
  have 5: "windows_step (?x (?w False True (100, 24)) (90, 24), (80, 24)) (?x (?w False False (100, 24)) (90, 24), (90, 24))"
    using windows_step.take [of "?x (?w False True (100, 24)) (90, 24)"] by simp
  have 6: "windows_step (?x (?w False False (100, 24)) (90, 24), (90, 24)) (?x (?w False False (100, 24)) (100, 24), (90, 24))"
    using windows_step.resize [of "(100, 24)" "?x (?w False False (100, 24)) (90, 24)"] by simp
  have "windows_step\<^sup>*\<^sup>* (?x (?w False False (80, 24)) (80, 24), (80, 24)) (?x (?w False False (100, 24)) (100, 24), (90, 24))"
    by (rule st [OF 1 st [OF 2 st [OF 3 st [OF 4 st [OF 5 st [OF 6 rtranclp.rtrancl_refl]]]]]])
  then show ?thesis unfolding s by (intro exI [of _ "?x (?w False False (100, 24)) (100, 24)"]) simp
qed

end
