(* ===== verification/Cmd.thy ===== *)
theory Cmd
  imports Client Bootstrap Agent Termenv
begin

unbundle bit_operations_syntax

text \<open>
  \<^verbatim>\<open>cmd/gosh/root.go\<close>: the commands, which join the bootstrap, the terminal and the client.

  \<open>machine\<close> holds what the process asks of its surroundings and of libraries without changing it: the
  platform, the user, whether the standard streams are terminals, the terminal library, the window
  size, key files and passwords, the ssh library. \<open>procState\<close> holds what it changes: the environment, the
  file of known hosts, the agents, the terminal and the network. The command line parser (\<^verbatim>\<open>cobra\<close>) hands
  over the options and arguments; prompts are not modelled.
\<close>

section \<open>Options\<close>

record rootOptions =
  sshPort :: int
  udpPort :: string
  server :: string
  identity :: string
  knownHosts :: string
  hostKey :: string
  dotvault :: string
  clipboard :: string

text \<open>The values of the flags that are not given.\<close>

definition newRootCmd :: rootOptions where
  "newRootCmd =
     \<lparr>sshPort = 22, udpPort = [], server = ''mosh-server'', identity = [], knownHosts = [], hostKey = PolicyAcceptNew,
      dotvault = DotvaultAuto, clipboard = PolicyString Write\<rparr>"

section \<open>The surroundings\<close>

record ('k, 'm, 't) machine =
  goos :: string
  currentUser :: "string option"
  euid :: int
  stdinTerminal :: bool
  stdoutTerminal :: bool
  termlib :: "('m, 't) termLib"
  windowSize :: "nat \<Rightarrow> (int \<times> int) option"
  readFile :: "string \<Rightarrow> error + bytes"
  parsePrivateKey :: "bytes \<Rightarrow> (bool \<times> error) + 'k"       \<comment> \<open>whether the error is a missing passphrase\<close>
  parseWithPassphrase :: "bytes \<Rightarrow> bytes \<Rightarrow> error + 'k"
  readPassword :: "error + bytes"
  supportedAlgorithms :: "string list"
  insecureAlgorithms :: "string list"
  knownhostsNew :: "string \<Rightarrow> string \<Rightarrow> (string \<Rightarrow> PublicKey \<Rightarrow> verdict) option"   \<comment> \<open>by the contents and the path of the file\<close>
  generatedKey :: "PublicKey option"

record 'm procState =
  environ :: "string \<Rightarrow> string"
  hosts :: hostsFile
  agents :: agentWorld
  console :: "'m console"
  network :: world

section \<open>Target and authentication\<close>

definition afterLast :: "char \<Rightarrow> string \<Rightarrow> string" where
  "afterLast c s = rev (takeWhile (\<lambda>d. d \<noteq> c) (rev s))"

definition splitTarget :: "(string \<Rightarrow> string) \<Rightarrow> string option \<Rightarrow> string \<Rightarrow> string \<times> string" where
  "splitTarget getenv cur target =
     (if CHR ''@'' \<in> set target then
        let host = afterLast CHR ''@'' target in (take (length target - length host - 1) target, host)
      else
        let u = getenv ''USER'';
            u = (if u = [] then getenv ''USERNAME'' else u);
            u = (if u = [] then
                   case cur of
                     Some name \<Rightarrow> if CHR 0x5C \<in> set name then afterLast (CHR 0x5C) name else name
                   | None \<Rightarrow> u
                 else u)
        in (u, target))"

datatype ('k, 's) authMethod =
    PublicKeys 'k
  | PublicKeysCallback "(nat \<Rightarrow> 's list option) \<Rightarrow> 's list"
  | RetryablePassword string string nat

datatype authError = AuthFile error | AuthPassword error | AuthParse string error | AuthNone

definition identityKey :: "('k, 'm, 't) machine \<Rightarrow> string \<Rightarrow> authError + 'k" where
  "identityKey m path =
     (case readFile m path of
        Inl e \<Rightarrow> Inl (AuthFile e)
      | Inr pem \<Rightarrow>
          (case parsePrivateKey m pem of
             Inr signer \<Rightarrow> Inr signer
           | Inl (missing, e) \<Rightarrow>
               if missing \<and> stdinTerminal m then
                 (case readPassword m of
                    Inl e \<Rightarrow> Inl (AuthPassword e)
                  | Inr secret \<Rightarrow>
                      (case parseWithPassphrase m pem secret of
                         Inl e \<Rightarrow> Inl (AuthParse path e)
                       | Inr signer \<Rightarrow> Inr signer))
               else Inl (AuthParse path e)))"

definition authMethods ::
  "('k, 'm, 't) machine \<Rightarrow> rootOptions \<Rightarrow> string \<Rightarrow> string \<Rightarrow> 'm procState \<Rightarrow>
   (authError + ('k, 's) authMethod list) \<times> 'm procState" where
  "authMethods m opts user host p =
     (case (if identity opts \<noteq> [] then map_sum id (\<lambda>k. [PublicKeys k]) (identityKey m (identity opts)) else Inr []) of
        Inl e \<Rightarrow> (Inl e, p)
      | Inr methods \<Rightarrow>
          (let (agent, w) = AgentAuth (goos m) (environ p) (euid m) (dotvault opts) (agents p);
               methods = (case agent of None \<Rightarrow> methods | Some f \<Rightarrow> methods @ [PublicKeysCallback f]);
               methods = (if stdinTerminal m then methods @ [RetryablePassword user host 3] else methods)
           in (if length methods = 0 then Inl AuthNone else Inr methods, p\<lparr>agents := w\<rparr>)))"

definition knownHostsPathForPreference :: "string \<Rightarrow> string \<Rightarrow> string" where
  "knownHostsPathForPreference pol path = (if pol = PolicyInsecure then [] else path)"

section \<open>Attaching the terminal\<close>

datatype cmdError =
    CmdClipboard string
  | CmdHostKey hostError
  | CmdAuth authError
  | CmdBootstrap bootError
  | CmdRawMode error
  | CmdClient error
  | CmdNoKey
  | CmdKey error

text \<open>How a command ends: with an error, with the notice that it exits, or not yet.\<close>

datatype cmdEnd = Failed cmdError | Exiting | Attached Session loop

fun isCanceled :: "error \<Rightarrow> bool" where
  "isCanceled ErrCanceled = True"
| "isCanceled (ErrJoin a b) = (isCanceled a \<or> isCanceled b)"
| "isCanceled _ = False"

definition restoreConsole :: "('m, 't) termLib \<Rightarrow> 't TermState option \<Rightarrow> 'm procState \<Rightarrow> 'm procState" where
  "restoreConsole lib st p = p\<lparr>console := snd (Restore lib st (console p))\<rparr>"

definition isInteractive :: "('k, 'm, 't) machine \<Rightarrow> bool" where
  "isInteractive m \<longleftrightarrow> stdinTerminal m \<and> stdoutTerminal m"

definition rawMode :: "('k, 'm, 't) machine \<Rightarrow> 'm console \<Rightarrow> (error + 't TermState option) \<times> 'm console" where
  "rawMode m c =
     (if isInteractive m then
        (case MakeRaw (goos m = ''windows'') (termlib m) 0 c of
           (Inl e, c) \<Rightarrow> (Inl e, c) | (Inr st, c) \<Rightarrow> (Inr (Some st), c))
      else (Inr None, c))"

definition clientConfig :: "('k, 'm, 't) machine \<Rightarrow> string \<Rightarrow> bytes \<Rightarrow> Policy \<Rightarrow> Config" where
  "clientConfig m addr key clip =
     Config.make addr key (Some (\<lambda>n. Termenv.Size (windowSize m n))) (\<not> isInteractive m) clip 0"

text \<open>Without a terminal there is no watcher of the window size, so its branch of the \<^verbatim>\<open>select\<close> is never taken.\<close>

definition watched :: "('k, 'm, 't) machine \<Rightarrow> loopEvent list \<Rightarrow> loopEvent list" where
  "watched m evs = (if isInteractive m then evs else filter (\<lambda>ev. ev \<noteq> Resized) evs)"

text \<open>\<^verbatim>\<open>defer restore()\<close> fixes the function it will call when it is executed, so the assignment of an empty function
  to \<^verbatim>\<open>restore\<close> does not reach it, and the terminal is restored twice.\<close>

definition attach ::
  "(bytes \<Rightarrow> bytes) \<Rightarrow> (nat \<Rightarrow> bytes \<Rightarrow> bytes option) \<Rightarrow> Config \<Rightarrow> loopEvent list \<Rightarrow> Output \<Rightarrow>
   ('m procState \<Rightarrow> 'm procState) \<Rightarrow> 'm procState \<Rightarrow> (cmdEnd \<times> 'm procState) option" where
  "attach deflate inflate config evs out restore p =
     (let (r, w) = Client.New config out (network p); p = p\<lparr>network := w\<rparr>
      in case r of
           Inl e \<Rightarrow> Some (Failed (CmdClient e), restore p)
         | Inr (s, k) \<Rightarrow>
             (case Client.Run deflate inflate s evs k of
                None \<Rightarrow> None
              | Some (Running s lp k) \<Rightarrow> Some (Attached s lp, p\<lparr>network := snd k\<rparr>)
              | Some (Returned err s k) \<Rightarrow>
                  (let p = restore (p\<lparr>network := snd k\<rparr>)
                   in Some (case err of
                              None \<Rightarrow> Exiting
                            | Some e \<Rightarrow> if isCanceled e then Exiting else Failed (CmdClient e),
                            restore p))))"

definition runClient ::
  "('k, 'm, 't) machine \<Rightarrow> (bytes \<Rightarrow> bytes) \<Rightarrow> (nat \<Rightarrow> bytes \<Rightarrow> bytes option) \<Rightarrow> string \<Rightarrow> bytes \<Rightarrow> Policy \<Rightarrow> loopEvent list \<Rightarrow>
   Output \<Rightarrow> 'm procState \<Rightarrow> (cmdEnd \<times> 'm procState) option" where
  "runClient m deflate inflate addr key clip evs out p =
     (let (raw, c) = rawMode m (console p); p = p\<lparr>console := c\<rparr>
      in case raw of
           Inl e \<Rightarrow> Some (Failed (CmdRawMode e), p)
         | Inr st \<Rightarrow>
             attach deflate inflate (clientConfig m addr key clip) (watched m evs) out (restoreConsole (termlib m) st) p)"

section \<open>The commands\<close>

definition algorithmsOf :: "('k, 'm, 't) machine \<Rightarrow> 'm procState \<Rightarrow> string \<Rightarrow> string \<Rightarrow> string list" where
  "algorithmsOf m p =
     knownHostKeyAlgorithms (supportedAlgorithms m) (insecureAlgorithms m) (knownhostsNew m (fileData (hosts p))) (generatedKey m)"

definition runSession ::
  "('k, 'm, 't) machine \<Rightarrow> (('k, 's) authMethod, callback) ssh \<Rightarrow> (bytes \<Rightarrow> bytes) \<Rightarrow> (nat \<Rightarrow> bytes \<Rightarrow> bytes option) \<Rightarrow>
   rootOptions \<Rightarrow> string \<Rightarrow> string list \<Rightarrow> loopEvent list \<Rightarrow> Output \<Rightarrow> 'm procState \<Rightarrow> (cmdEnd \<times> 'm procState) option" where
  "runSession m net deflate inflate opts target remoteCmd evs out p =
     (let (user, host) = splitTarget (environ p) (currentUser m) target
      in case ParsePolicy (clipboard opts) of
           Inl s \<Rightarrow> Some (Failed (CmdClipboard s), p)
         | Inr clip \<Rightarrow>
             (let default = DefaultKnownHostsPath (goos m) (environ p);
                  path = (if knownHosts opts = [] then (case default of Some q \<Rightarrow> q | None \<Rightarrow> []) else knownHosts opts);
                  (cb, fs) = Hostkey.HostKeyCallback (hostKey opts) path default (hosts p);
                  p = p\<lparr>hosts := fs\<rparr>
              in case cb of
                   Inl e \<Rightarrow> Some (Failed (CmdHostKey e), p)
                 | Inr hostKeyCB \<Rightarrow>
                     (let (auth, p) = authMethods m opts user host p
                      in case auth of
                           Inl e \<Rightarrow> Some (Failed (CmdAuth e), p)
                         | Inr auth \<Rightarrow>
                             (case Bootstrap.Run (algorithmsOf m p) (environ p) net
                                 (Options.make user host (sshPort opts) (udpPort opts) (server opts) remoteCmd [] auth (Some hostKeyCB)
                                    (knownHostsPathForPreference (hostKey opts) path) 0) of
                                Inl e \<Rightarrow> Some (Failed (CmdBootstrap e), p)
                              | Inr res \<Rightarrow>
                                  runClient m deflate inflate (ResultAddr res) (ResultKey res) clip evs out p))))"

definition newConnectCmd ::
  "('k, 'm, 't) machine \<Rightarrow> (bytes \<Rightarrow> bytes) \<Rightarrow> (nat \<Rightarrow> bytes \<Rightarrow> bytes option) \<Rightarrow> rootOptions \<Rightarrow> string \<Rightarrow> string \<Rightarrow>
   loopEvent list \<Rightarrow> Output \<Rightarrow> 'm procState \<Rightarrow> (cmdEnd \<times> 'm procState) option" where
  "newConnectCmd m deflate inflate opts host port evs out p =
     (case ParsePolicy (clipboard opts) of
        Inl s \<Rightarrow> Some (Failed (CmdClipboard s), p)
      | Inr clip \<Rightarrow>
          (let keyStr = environ p ''MOSH_KEY''
           in if keyStr = [] then Some (Failed CmdNoKey, p)
              else
                let p = p\<lparr>environ := (environ p)(''MOSH_KEY'' := [])\<rparr>
                in case ParseBase64Key keyStr of
                     Inl e \<Rightarrow> Some (Failed (CmdKey e), p)
                   | Inr key \<Rightarrow> runClient m deflate inflate (JoinHostPort host port) key clip evs out p))"

section \<open>Lemmas\<close>

lemma afterLast_append: "c \<notin> set h \<Longrightarrow> afterLast c (u @ c # h) = h"
proof -
  assume "c \<notin> set h"
  then have "takeWhile (\<lambda>d. d \<noteq> c) (rev h @ c # rev u) = rev h" by (subst takeWhile_append2) auto
  then show ?thesis by (simp add: afterLast_def)
qed

text \<open>A target with a user part is split at its last \<^verbatim>\<open>@\<close>; without one the host is the whole of it.\<close>

lemma splitTarget_at: "CHR ''@'' \<notin> set h \<Longrightarrow> splitTarget getenv cur (u @ CHR ''@'' # h) = (u, h)"
  by (simp add: splitTarget_def afterLast_append)

lemma splitTarget_plain: "CHR ''@'' \<notin> set h \<Longrightarrow> snd (splitTarget getenv cur h) = h"
  by (simp add: splitTarget_def Let_def)

lemma MakeRaw_vtMode:
  assumes "MakeRaw windows lib stdin c = (Inr st, c1)" "\<not> (windows \<and> isConsole lib)"
  shows "vtMode c1 = vtMode c"
proof -
  have "enableVT windows lib c = (Inr None, c)"
    using assms(2) by (auto simp: enableVT_def enableVT_windows_def enableVT_other_def)
  then show ?thesis using assms(1) by (auto simp: MakeRaw_def split: sum.splits)
qed

text \<open>The laws of the terminal library, for one console.\<close>

definition terminal_laws :: "('m, 't) termLib \<Rightarrow> 'm console \<Rightarrow> bool" where
  "terminal_laws lib c \<longleftrightarrow>
     (\<forall>m st m' m''. termMakeRaw lib m = Inr (st, m') \<longrightarrow> termRestore lib st m'' = (None, m)) \<and> setConsoleMode lib (vtMode c) = None"

lemma Restore_twice:
  assumes "terminal_laws lib c" "MakeRaw windows lib stdin c = (Inr st, c1)"
  shows "Restore lib (Some st) c1 = (None, c)" "Restore lib (Some st) c = (None, c)"
proof -
  have *: "Restore lib (Some st) c2 = (None, c)" if "windows \<and> isConsole lib \<or> vtMode c2 = vtMode c1" for c2
    using terminal_restored [OF _ _ assms(2)] assms(1) that by (auto simp: terminal_laws_def)
  show "Restore lib (Some st) c1 = (None, c)" by (rule *) simp
  show "Restore lib (Some st) c = (None, c)" using MakeRaw_vtMode [OF assms(2)] * [of c] by metis
qed

lemma MakeRaw_fails:
  assumes "terminal_laws lib c" "MakeRaw windows lib stdin c = (Inl e, c1)"
  shows "c1 = c"
  using terminal_restored [OF _ _ assms(2)] assms(1) by (auto simp: terminal_laws_def)

lemma rawMode_restored:
  assumes "terminal_laws (termlib m) c" "rawMode m c = (r, c1)"
  shows "case r of Inl e \<Rightarrow> c1 = c
    | Inr st \<Rightarrow> snd (Restore (termlib m) st c1) = c \<and> snd (Restore (termlib m) st c) = c"
  using assms Restore_twice [OF assms(1)] MakeRaw_fails [OF assms(1)]
  by (auto simp: rawMode_def Restore_def [of _ None] split: if_splits prod.splits sum.splits)

text \<open>The ways in which \<^verbatim>\<open>runClient\<close> ends.\<close>

lemma attach_cases:
  assumes "attach deflate inflate config evs out restore p = Some (r, p')"
  obtains e w where "r = Failed (CmdClient e)" "p' = restore (p\<lparr>network := w\<rparr>)"
  | s lp w where "r = Attached s lp" "p' = p\<lparr>network := w\<rparr>"
  | w where "r = Exiting \<or> (\<exists>e. r = Failed (CmdClient e))" "p' = restore (restore (p\<lparr>network := w\<rparr>))"
proof -
  obtain q w where n: "Client.New config out (network p) = (q, w)" by fastforce
  show thesis
  proof (cases q)
    case (Inl e)
    then show thesis using assms n that(1) [of e w] by (auto simp: attach_def)
  next
    case (Inr x)
    obtain s k where x: "x = (s, k)" by (rule prod.exhaust)
    obtain res where res: "Client.Run deflate inflate s evs k = Some res"
      using assms n Inr x by (cases "Client.Run deflate inflate s evs k") (simp_all add: attach_def)
    show thesis
    proof (cases res)
      case (Returned err s1 k1)
      then show thesis
        using assms n Inr x res that(3) by (cases err) (auto simp: attach_def Let_def split: if_splits)
    next
      case (Running s1 lp k1)
      then show thesis using assms n Inr x res that(2) by (auto simp: attach_def)
    qed
  qed
qed

lemma runClient_keeps:
  assumes "runClient m deflate inflate addr key clip evs out p = Some (r, p')"
  shows "environ p' = environ p \<and> hosts p' = hosts p \<and> agents p' = agents p"
proof -
  obtain raw c where raw: "rawMode m (console p) = (raw, c)" by fastforce
  show ?thesis
  proof (cases raw)
    case (Inl e)
    then show ?thesis using assms raw by (auto simp: runClient_def)
  next
    case (Inr st)
    then have "attach deflate inflate (clientConfig m addr key clip) (watched m evs) out (restoreConsole (termlib m) st)
      (p\<lparr>console := c\<rparr>) = Some (r, p')" using assms raw by (simp add: runClient_def)
    then show ?thesis by (rule attach_cases) (auto simp: restoreConsole_def)
  qed
qed

lemma runClient_errors:
  assumes "runClient m deflate inflate addr key clip evs out p = Some (r, p')"
  shows "\<forall>s. r \<noteq> Failed (CmdClipboard s)" "r \<noteq> Failed CmdNoKey" "\<forall>e. r \<noteq> Failed (CmdKey e)"
proof -
  have "(\<forall>s. r \<noteq> Failed (CmdClipboard s)) \<and> r \<noteq> Failed CmdNoKey \<and> (\<forall>e. r \<noteq> Failed (CmdKey e))"
  proof (cases "fst (rawMode m (console p))")
    case (Inl e)
    then show ?thesis using assms by (auto simp: runClient_def split: prod.splits)
  next
    case (Inr st)
    then obtain q where "attach deflate inflate (clientConfig m addr key clip) (watched m evs) out (restoreConsole (termlib m) st) q = Some (r, p')"
      using assms by (auto simp: runClient_def split: prod.splits)
    then show ?thesis by (rule attach_cases) auto
  qed
  then show "\<forall>s. r \<noteq> Failed (CmdClipboard s)" "r \<noteq> Failed CmdNoKey" "\<forall>e. r \<noteq> Failed (CmdKey e)" by blast+
qed

text \<open>What a successful bootstrap went through.\<close>

lemma Bootstrap_Run_Inr:
  assumes "Bootstrap.Run algos getenv net opts = Inr res"
  shows "\<exists>cfg. Options.HostKeyCallback opts = Some (cfgCallback cfg) \<and>
    sshDial net (JoinHostPort (Host opts) (Itoa (if SSHPort opts = 0 then 22 else SSHPort opts))) cfg = None \<and>
    length (ResultKey res) = 16 \<and> 1 \<le> Port res \<and> Port res \<le> 65535"
proof -
  obtain cb where cb: "Options.HostKeyCallback opts = Some cb"
    using assms by (cases "Options.HostKeyCallback opts") (auto simp: Bootstrap.Run_def split: if_splits)
  let ?port = "if SSHPort opts = 0 then 22 else SSHPort opts"
  let ?addr = "JoinHostPort (Host opts) (Itoa ?port)"
  let ?cfg = "\<lparr>cfgUser = User opts, cfgAuth = Auth opts, cfgCallback = cb, cfgAlgorithms = algos (KnownHostsPath opts) ?addr,
    cfgTimeout = (if TimeoutOpt opts = 0 then 10 * second else TimeoutOpt opts)\<rparr>"
  have dial: "sshDial net ?addr ?cfg = None"
    using assms cb unfolding Bootstrap.Run_def Let_def
    by (cases "sshDial net ?addr ?cfg") (auto split: if_splits)
  have "length (ResultKey res) = 16 \<and> 1 \<le> Port res \<and> Port res \<le> 65535"
    using assms cb dial unfolding Bootstrap.Run_def Let_def
    by (auto split: if_splits option.splits prod.splits sum.splits dest: key.dec_valid)
  then show ?thesis using cb dial by (intro exI [of _ ?cfg]) simp
qed

lemma callback_trust:
  assumes "Hostkey.HostKeyCallback pol path def fs = (Inr cb, fs1)" "pol \<noteq> PolicyInsecure"
    "runCallback cb verify normName fs2 hostname key = (None, fs3)"
  shows "verify hostname key = Accepted \<or> pol = PolicyAcceptNew \<and> verify hostname key = KeyError []"
proof -
  have "cb = Verify \<or> cb = AcceptNew \<and> pol = PolicyAcceptNew"
    using assms(1,2) by (auto simp: Hostkey.HostKeyCallback_def Let_def split: if_splits sum.splits option.splits)
  then show ?thesis
    using assms(3) by (cases "verify hostname key") (auto simp: runCallback_def acceptNew_def split: if_splits)
qed

text \<open>The terminal is given back. However the command ends, on a failure of raw mode, of the dial or of
  the session, or with the exit notice, the mode of the terminal input and of the console output are
  what they were before.\<close>

lemma runClient_console:
  assumes "terminal_laws (termlib m) (console p)"
    and "runClient m deflate inflate addr key clip evs out p = Some (r, p')" "\<forall>s lp. r \<noteq> Attached s lp"
  shows "console p' = console p"
proof -
  obtain raw c where raw: "rawMode m (console p) = (raw, c)" by fastforce
  show ?thesis
  proof (cases raw)
    case (Inl e)
    then show ?thesis using assms(2) raw rawMode_restored [OF assms(1) raw] by (auto simp: runClient_def)
  next
    case (Inr st)
    then have r: "snd (Restore (termlib m) st c) = console p" "snd (Restore (termlib m) st (console p)) = console p"
      using rawMode_restored [OF assms(1) raw] by simp_all
    have "attach deflate inflate (clientConfig m addr key clip) (watched m evs) out (restoreConsole (termlib m) st)
      (p\<lparr>console := c\<rparr>) = Some (r, p')" using assms(2) raw Inr by (simp add: runClient_def)
    then show ?thesis by (rule attach_cases) (use assms(3) r in \<open>auto simp: restoreConsole_def\<close>)
  qed
qed

lemma runClient_returns: "\<exists>r p'. runClient m deflate inflate addr key clip evs out p = Some (r, p')"
proof -
  obtain raw c where raw: "rawMode m (console p) = (raw, c)" by fastforce
  have "\<exists>x. attach deflate inflate config evs' out restore q = Some x" for config evs' restore and q :: "'a procState"
  proof (cases "Client.New config out (network q)")
    case (Pair r w)
    show ?thesis
    proof (cases r)
      case (Inl e)
      then show ?thesis using Pair by (simp add: attach_def)
    next
      case (Inr x)
      obtain s k where x: "x = (s, k)" by (rule prod.exhaust)
      obtain y where "Client.Run deflate inflate s evs' k = Some y"
        using runLoop_returns [of deflate inflate evs' "pushSize s" initLoop k] by (auto simp: Client.Run_def)
      then show ?thesis using Pair Inr x by (cases y) (simp_all add: attach_def)
    qed
  qed
  then show ?thesis using raw by (cases raw) (simp_all add: runClient_def)
qed

lemma authMethods_keeps:
  assumes "authMethods m opts user host p = (r, p')"
  shows "console p' = console p \<and> environ p' = environ p"
  using assms by (auto simp: authMethods_def Let_def split: sum.splits prod.splits)

text \<open>A session fails before it touches the terminal and the environment, or is what \<^verbatim>\<open>runClient\<close> makes of it.\<close>

lemma runSession_cases:
  fixes m :: "('k, 'm, 't) machine" and net :: "(('k, 's) authMethod, callback) ssh"
  obtains e p' where "runSession m net deflate inflate opts target remoteCmd evs out p = Some (Failed e, p')"
    "console p' = console p" "environ p' = environ p"
  | addr key clip p1 where "runSession m net deflate inflate opts target remoteCmd evs out p =
      runClient m deflate inflate addr key clip evs out p1" "console p1 = console p" "environ p1 = environ p"
proof -
  obtain user host where st: "splitTarget (environ p) (currentUser m) target = (user, host)" by fastforce
  let ?def = "DefaultKnownHostsPath (goos m) (environ p)"
  let ?path = "if knownHosts opts = [] then (case ?def of Some q \<Rightarrow> q | None \<Rightarrow> []) else knownHosts opts"
  obtain cbr fs1 where h: "Hostkey.HostKeyCallback (hostKey opts) ?path ?def (hosts p) = (cbr, fs1)" by fastforce
  obtain ar :: "authError + ('k, 's) authMethod list" and p2
    where a: "authMethods m opts user host (p\<lparr>hosts := fs1\<rparr>) = (ar, p2)" by fastforce
  have k: "console p2 = console p" "environ p2 = environ p" using authMethods_keeps [OF a] by simp_all
  show thesis
  proof (cases "ParsePolicy (clipboard opts)")
    case (Inl e)
    then show thesis using that(1) [of "CmdClipboard e" p] by (simp add: runSession_def st)
  next
    case clip: (Inr clip)
    show thesis
    proof (cases cbr)
      case (Inl e)
      then show thesis using that(1) [of "CmdHostKey e" "p\<lparr>hosts := fs1\<rparr>"]
        unfolding runSession_def Let_def st clip prod.case sum.case h by simp
    next
      case cb: (Inr cb)
      show thesis
      proof (cases ar)
        case (Inl e)
        then show thesis using that(1) [of "CmdAuth e" p2] k
          unfolding runSession_def Let_def st clip prod.case sum.case h cb a by simp
      next
        case auth: (Inr auth)
        let ?opts = "Options.make user host (sshPort opts) (udpPort opts) (server opts) remoteCmd [] auth (Some cb)
          (knownHostsPathForPreference (hostKey opts) ?path) 0"
        have "runSession m net deflate inflate opts target remoteCmd evs out p =
          (case Bootstrap.Run (algorithmsOf m p2) (environ p2) net ?opts of
             Inl e \<Rightarrow> Some (Failed (CmdBootstrap e), p2)
           | Inr res \<Rightarrow> runClient m deflate inflate (ResultAddr res) (ResultKey res) clip evs out p2)"
          unfolding runSession_def Let_def st clip prod.case sum.case h cb a auth by (rule refl)
        then show thesis
          using that k by (cases "Bootstrap.Run (algorithmsOf m p2) (environ p2) net ?opts") simp_all
      qed
    qed
  qed
qed

section \<open>Claims\<close>



section \<open>A concrete process\<close>

definition sampleMachine :: "(unit, nat, nat) machine" where
  "sampleMachine =
     \<lparr>goos = ''linux'', currentUser = None, euid = 1000, stdinTerminal = False, stdoutTerminal = False, termlib = plainTerm,
      windowSize = (\<lambda>n. Some (100, 40)), readFile = (\<lambda>f. Inr []), parsePrivateKey = (\<lambda>b. Inr ()),
      parseWithPassphrase = (\<lambda>b s. Inr ()), readPassword = Inr [], supportedAlgorithms = [''ssh-ed25519''],
      insecureAlgorithms = [], knownhostsNew = (\<lambda>d f. None), generatedKey = None\<rparr>"

definition sampleState :: "nat procState" where
  "sampleState =
     \<lparr>environ = (\<lambda>v. if v = ''MOSH_KEY'' then ''bad'' else []), hosts = emptyHosts,
      agents = \<lparr>aScript = agentScript, aStep = 0, aLog = []\<rparr>, console = \<lparr>ttyMode = 5, vtMode = 3\<rparr>, network = goodWorld\<rparr>"

definition sampleNet :: "((unit, unit) authMethod, callback) ssh" where
  "sampleNet =
     \<lparr>sshDial = (\<lambda>addr cfg. None), sshSession = None,
      sshOutput = (\<lambda>cmd. (''MOSH CONNECT '' @ ''60001'' @ '' '' @ Session_Crypto.String (replicate 16 0) @ [], None)),
      sshRemote = ''1.2.3.4:22''\<rparr>"

definition sampleRoot :: rootOptions where
  "sampleRoot = newRootCmd\<lparr>identity := ''id'', knownHosts := ''f''\<rparr>"

lemma sample_laws: "terminal_laws plainTerm \<lparr>ttyMode = 5, vtMode = 3\<rparr>"
  by (simp add: terminal_laws_def plainTerm_def)


lemma sample_bootstrap:
  "\<exists>res. Bootstrap.Run algos getenv sampleNet (Options.make user ''h'' 22 [] ''mosh-server'' [] [] auth (Some cb) path 0) = Inr res \<and>
     ResultKey res = replicate 16 0"
proof -
  have k: "length (replicate 16 (0 :: byte)) = 16" by simp
  have "findConnect True (''MOSH CONNECT '' @ ''60001'' @ '' '' @ Session_Crypto.String (replicate 16 0) @ []) =
      Some (''60001'', Session_Crypto.String (replicate 16 0))"
    by (rule findConnect_here) (simp_all add: port_ok_def is_decimal_def key_ok_String)
  then show ?thesis
    by (simp add: Bootstrap.Run_def sampleNet_def Options.defs Atoi_def key.dec_enc [OF k])
qed

lemma sample_client:
  "\<exists>r p'. runClient sampleMachine id (\<lambda>n b. None) addr (replicate 16 0) Write [] plainOutput p0 = Some (r, p') \<and> (\<forall>e. r \<noteq> Failed e)"
  if p0: "network p0 = goodWorld" for p0 :: "nat procState"
proof -
  let ?cfg = "clientConfig sampleMachine addr (replicate 16 0) Write"
  have raw: "rawMode sampleMachine (console p0) = (Inr None, console p0)"
    by (simp add: rawMode_def isInteractive_def sampleMachine_def)
  have w: "watched sampleMachine [] = []" by (simp add: watched_def)
  have "\<exists>s k w'. Client.New ?cfg plainOutput goodWorld = (Inr (s, k), w')"
    by (simp add: Client.New_def Dial_def NewSession_zero goodWorld_def call_def dialUDP_def timeNow_def clientConfig_def
        defaults_def Config.defs Let_def split: prod.splits)
  then obtain s k w' where n: "Client.New ?cfg plainOutput goodWorld = (Inr (s, k), w')" by blast
  obtain o' d where top: "loopTop id (pushSize s) initLoop k = Some (o', d)" using loopTop_returns by (metis prod.collapse)
  have "\<exists>r p'. attach id (\<lambda>n b. None) ?cfg [] plainOutput f (p0\<lparr>console := console p0\<rparr>) = Some (r, p') \<and> (\<forall>e. r \<noteq> Failed e)" for f
  proof (cases o')
    case (Returned e s1 k1)
    then have "e = None" using loopTop_Returned [of id "pushSize s" initLoop k e s1 k1 d] top by (simp add: initLoop_def)
    then show ?thesis using top n p0 Returned
      by (auto simp: attach_def Client.Run_def runLoop.simps Let_def split: prod.splits)
  next
    case (Running s1 l1 k1)
    then show ?thesis using top n p0 by (auto simp: attach_def Client.Run_def runLoop.simps Let_def)
  qed
  then show ?thesis unfolding runClient_def Let_def raw prod.case sum.case w .
qed


end
