(* ===== verification/Process.thy ===== *)
theory Process
  imports Cmd
begin

text \<open>
  \<^verbatim>\<open>cmd/gosh/main.go\<close> and \<^verbatim>\<open>newVersionCmd\<close> of \<^verbatim>\<open>cmd/gosh/root.go\<close>: the process from its arguments to its exit status.

  The command line parser (\<^verbatim>\<open>cobra\<close>) is the parameter \<open>parse\<close>: it returns an error or the command with the options
  and the arguments that the command's validator (\<^verbatim>\<open>MinimumNArgs(1)\<close>, \<^verbatim>\<open>ExactArgs(2)\<close>, \<^verbatim>\<open>NoArgs\<close>) lets through. The texts of
  errors are the parameter \<open>errorText\<close>. \<^verbatim>\<open>%q\<close> quotes a string as \<^verbatim>\<open>strconv.Quote\<close> does; which characters outside ASCII
  are printable is a table of the \<^verbatim>\<open>unicode\<close> package, the parameter \<open>isPrint\<close>.
\<close>

section \<open>Quoting\<close>

definition RuneError :: nat where
  "RuneError = 0xFFFD"

text \<open>\<^verbatim>\<open>utf8.DecodeRuneInString\<close>: the character at the start of a string and its width in bytes; a byte that
  starts no character is \<open>RuneError\<close> of width 1.\<close>

definition DecodeRuneInString :: "string \<Rightarrow> nat \<times> nat" where
  "DecodeRuneInString s =
     (let b = (\<lambda>i. if i < length s then of_char (s ! i) else (0 :: nat));
          tail = (\<lambda>i. 0x80 \<le> b i \<and> b i \<le> 0xBF)
      in if b 0 < 0x80 then (b 0, 1)
         else if 0xC2 \<le> b 0 \<and> b 0 \<le> 0xDF \<and> tail 1 then ((b 0 - 0xC0) * 64 + (b 1 - 0x80), 2)
         else if 0xE0 \<le> b 0 \<and> b 0 \<le> 0xEF \<and> tail 1 \<and> tail 2 \<and> (b 0 = 0xE0 \<longrightarrow> 0xA0 \<le> b 1) \<and> (b 0 = 0xED \<longrightarrow> b 1 \<le> 0x9F)
           then ((b 0 - 0xE0) * 4096 + (b 1 - 0x80) * 64 + (b 2 - 0x80), 3)
         else if 0xF0 \<le> b 0 \<and> b 0 \<le> 0xF4 \<and> tail 1 \<and> tail 2 \<and> tail 3 \<and> (b 0 = 0xF0 \<longrightarrow> 0x90 \<le> b 1) \<and>
             (b 0 = 0xF4 \<longrightarrow> b 1 \<le> 0x8F)
           then ((b 0 - 0xF0) * 262144 + (b 1 - 0x80) * 4096 + (b 2 - 0x80) * 64 + (b 3 - 0x80), 4)
         else (RuneError, 1))"

definition hexDigit :: "nat \<Rightarrow> char" where
  "hexDigit n = ''0123456789abcdef'' ! (n mod 16)"

definition hexDigits :: "nat \<Rightarrow> nat \<Rightarrow> string" where
  "hexDigits k n = map (\<lambda>i. hexDigit (n div 16 ^ i)) (rev [0..<k])"

text \<open>One character; \<open>raw\<close> are the bytes it was decoded from, which are its encoding.\<close>

definition appendEscapedRune :: "(nat \<Rightarrow> bool) \<Rightarrow> nat \<Rightarrow> string \<Rightarrow> string" where
  "appendEscapedRune isPrint r raw =
     (if r = 0x22 \<or> r = 0x5C then CHR 0x5C # raw
      else if (if r < 0x80 then 0x20 \<le> r \<and> r < 0x7F else isPrint r) then raw
      else if r = 7 then [CHR 0x5C, CHR ''a'']
      else if r = 8 then [CHR 0x5C, CHR ''b'']
      else if r = 12 then [CHR 0x5C, CHR ''f'']
      else if r = 10 then [CHR 0x5C, CHR ''n'']
      else if r = 13 then [CHR 0x5C, CHR ''r'']
      else if r = 9 then [CHR 0x5C, CHR ''t'']
      else if r = 11 then [CHR 0x5C, CHR ''v'']
      else if r < 0x20 \<or> r = 0x7F then [CHR 0x5C, CHR ''x''] @ hexDigits 2 r
      else if r < 0x10000 then [CHR 0x5C, CHR ''u''] @ hexDigits 4 r
      else [CHR 0x5C, CHR ''U''] @ hexDigits 8 r)"

fun quotedWith :: "(nat \<Rightarrow> bool) \<Rightarrow> string \<Rightarrow> string" where
  "quotedWith isPrint [] = []"
| "quotedWith isPrint (c # cs) =
     (let (r, width) = DecodeRuneInString (c # cs)
      in (if width = 1 \<and> r = RuneError then [CHR 0x5C, CHR ''x''] @ hexDigits 2 (of_char c)
          else appendEscapedRune isPrint r (take width (c # cs))) @
         quotedWith isPrint (drop (width - 1) cs))"

definition Quote :: "(nat \<Rightarrow> bool) \<Rightarrow> string \<Rightarrow> string" where
  "Quote isPrint s = [CHR 0x22] @ quotedWith isPrint s @ [CHR 0x22]"

section \<open>The version command\<close>

record build =
  version :: string
  runtimeVersion :: string
  GOOS :: string
  GOARCH :: string

definition eol :: string where
  "eol = [CHR 0x0A]"

definition jsonField :: "(nat \<Rightarrow> bool) \<Rightarrow> string \<Rightarrow> string \<Rightarrow> string" where
  "jsonField isPrint name v = [CHR 0x22] @ name @ [CHR 0x22, CHR '':''] @ Quote isPrint v"

definition newVersionCmd :: "(nat \<Rightarrow> bool) \<Rightarrow> build \<Rightarrow> bool \<Rightarrow> string" where
  "newVersionCmd isPrint b jsonOut =
     (if jsonOut then
        ''{'' @ jsonField isPrint ''version'' (version b) @ '','' @
        [CHR 0x22] @ ''service'' @ [CHR 0x22, CHR '':'', CHR 0x22] @ ''gosh'' @ [CHR 0x22] @ '','' @
        jsonField isPrint ''go_version'' (runtimeVersion b) @ '','' @
        jsonField isPrint ''os'' (GOOS b) @ '','' @ jsonField isPrint ''arch'' (GOARCH b) @ ''}'' @ eol
      else ''gosh '' @ version b @ eol)"

section \<open>The process\<close>

datatype invocation =
    RunSession rootOptions string "string list"
  | RunConnect rootOptions string string
  | RunVersion bool

text \<open>A process that has exited, with its status and what its command and \<^verbatim>\<open>main\<close> last wrote to the standard
  output and the standard error; or one that is still attached.\<close>

datatype process = Exited nat string string | Waiting Session loop

fun finish :: "(cmdError \<Rightarrow> string) \<Rightarrow> cmdEnd \<Rightarrow> process" where
  "finish errorText (Failed e) = Exited 1 [] (''gosh: '' @ errorText e @ eol)"
| "finish errorText Exiting = Exited 0 [] (eol @ ''[gosh is exiting.]'' @ eol)"
| "finish errorText (Attached s lp) = Waiting s lp"

definition main ::
  "(string list \<Rightarrow> string + invocation) \<Rightarrow> (cmdError \<Rightarrow> string) \<Rightarrow> (nat \<Rightarrow> bool) \<Rightarrow> build \<Rightarrow> ('k, 'm, 't) machine \<Rightarrow>
   (('k, 's) authMethod, callback) ssh \<Rightarrow> (bytes \<Rightarrow> bytes) \<Rightarrow> (nat \<Rightarrow> bytes \<Rightarrow> bytes option) \<Rightarrow> string list \<Rightarrow> loopEvent list \<Rightarrow>
   Output \<Rightarrow> 'm procState \<Rightarrow> (process \<times> 'm procState) option" where
  "main parse errorText isPrint b m net deflate inflate args evs out p =
     (case parse args of
        Inl err \<Rightarrow> Some (Exited 1 [] (''gosh: '' @ err @ eol), p)
      | Inr (RunVersion jsonOut) \<Rightarrow> Some (Exited 0 (newVersionCmd isPrint b jsonOut) [], p)
      | Inr (RunSession opts target remoteCmd) \<Rightarrow>
          map_option (apfst (finish errorText)) (runSession m net deflate inflate opts target remoteCmd evs out p)
      | Inr (RunConnect opts host port) \<Rightarrow>
          map_option (apfst (finish errorText)) (newConnectCmd m deflate inflate opts host port evs out p))"

section \<open>Lemmas: quoting\<close>

lemma decode_ascii: "of_char c < (0x80 :: nat) \<Longrightarrow> DecodeRuneInString (c # cs) = (of_char c, 1)"
  by (simp add: DecodeRuneInString_def Let_def)

definition printable :: "char \<Rightarrow> bool" where
  "printable c \<longleftrightarrow> 0x20 \<le> (of_char c :: nat) \<and> (of_char c :: nat) < 0x7F"

definition needsEscape :: "char \<Rightarrow> bool" where
  "needsEscape c \<longleftrightarrow> c = CHR 0x22 \<or> c = CHR 0x5C"

lemma of_char_eq_iff: "of_char c = (of_char d :: nat) \<longleftrightarrow> c = d"
  by (metis char_of_char)

lemma needsEscape_code: "needsEscape c \<longleftrightarrow> of_char c = (0x22 :: nat) \<or> of_char c = (0x5C :: nat)"
  using of_char_eq_iff [of c "CHR 0x22"] of_char_eq_iff [of c "CHR 0x5C"] by (simp add: needsEscape_def)

lemma quotedWith_printable:
  "list_all printable s \<Longrightarrow> quotedWith isPrint s = concat (map (\<lambda>c. if needsEscape c then [CHR 0x5C, c] else [c]) s)"
proof (induction s)
  case (Cons c cs)
  then have c: "0x20 \<le> (of_char c :: nat)" "(of_char c :: nat) < 0x7F" by (simp_all add: printable_def)
  then have "DecodeRuneInString (c # cs) = (of_char c, 1)" by (intro decode_ascii) simp
  then show ?case using Cons c by (auto simp: appendEscapedRune_def RuneError_def needsEscape_code)
qed simp

text \<open>A reader of JSON objects whose values are strings, as the reference for the output of \<^verbatim>\<open>--json\<close>: it knows the
  escapes of RFC 8259 that stand for themselves and the one-letter ones.\<close>

fun jsonString :: "string \<Rightarrow> (string \<times> string) option" where
  "jsonString [] = None"
| "jsonString (c # cs) =
     (if c = CHR 0x22 then Some ([], cs)
      else if c = CHR 0x5C then
        (case cs of
           [] \<Rightarrow> None
         | d # ds \<Rightarrow>
             (case map_of (zip [CHR 0x22, CHR 0x5C, CHR ''/'', CHR ''b'', CHR ''f'', CHR ''n'', CHR ''r'', CHR ''t'']
                             [CHR 0x22, CHR 0x5C, CHR ''/'', CHR 0x08, CHR 0x0C, CHR 0x0A, CHR 0x0D, CHR 0x09]) d of
                None \<Rightarrow> None
              | Some e \<Rightarrow> map_option (apfst (Cons e)) (jsonString ds)))
      else if of_char c < (0x20 :: nat) then None
      else map_option (apfst (Cons c)) (jsonString cs))"

definition expect :: "string \<Rightarrow> string \<Rightarrow> string option" where
  "expect w s = (if take (length w) s = w then Some (drop (length w) s) else None)"

definition jsonMember :: "string \<Rightarrow> ((string \<times> string) \<times> string) option" where
  "jsonMember s =
     Option.bind (expect [CHR 0x22] s) (\<lambda>s. Option.bind (jsonString s) (\<lambda>(name, s).
       Option.bind (expect [CHR '':'', CHR 0x22] s) (\<lambda>s. map_option (\<lambda>(v, s). ((name, v), s)) (jsonString s))))"

fun jsonMembers :: "nat \<Rightarrow> string \<Rightarrow> (string \<times> string) list option" where
  "jsonMembers 0 s = None"
| "jsonMembers (Suc n) s =
     Option.bind (jsonMember s) (\<lambda>(m, s).
       if s = ''}'' @ eol then Some [m]
       else Option.bind (expect '','' s) (\<lambda>s. map_option (Cons m) (jsonMembers n s)))"

definition jsonObject :: "string \<Rightarrow> (string \<times> string) list option" where
  "jsonObject s = Option.bind (expect ''{'' s) (\<lambda>t. jsonMembers (length s) t)"

lemma jsonString_quoted:
  "list_all printable v \<Longrightarrow>
   jsonString (concat (map (\<lambda>c. if needsEscape c then [CHR 0x5C, c] else [c]) v) @ CHR 0x22 # rest) = Some (v, rest)"
  by (induction v) (auto simp: needsEscape_def printable_def)

lemma jsonString_plain:
  "list_all (\<lambda>c. printable c \<and> \<not> needsEscape c) v \<Longrightarrow> jsonString (v @ CHR 0x22 # rest) = Some (v, rest)"
  by (induction v) (auto simp: needsEscape_def printable_def)

lemma jsonMember_field:
  assumes "list_all (\<lambda>c. printable c \<and> \<not> needsEscape c) name" "list_all printable v"
  shows "jsonMember (jsonField isPrint name v @ rest) = Some ((name, v), rest)"
  using assms by (simp add: jsonMember_def jsonField_def expect_def Quote_def quotedWith_printable jsonString_plain jsonString_quoted)

lemma jsonMembers_more:
  assumes "list_all (\<lambda>c. printable c \<and> \<not> needsEscape c) name" "list_all printable v"
  shows "jsonMembers (Suc n) (jsonField isPrint name v @ '','' @ rest) = map_option (Cons (name, v)) (jsonMembers n rest)"
  using jsonMember_field [OF assms, of isPrint "'','' @ rest"] by (simp add: expect_def)

lemma jsonMembers_last:
  assumes "list_all (\<lambda>c. printable c \<and> \<not> needsEscape c) name" "list_all printable v"
  shows "jsonMembers (Suc n) (jsonField isPrint name v @ ''}'' @ eol) = Some [(name, v)]"
  using jsonMember_field [OF assms, of isPrint "''}'' @ eol"] by simp

lemma version_json:
  assumes "list_all printable (version b)" "list_all printable (runtimeVersion b)" "list_all printable (GOOS b)"
    "list_all printable (GOARCH b)"
  shows "jsonObject (newVersionCmd isPrint b True) =
     Some [(''version'', version b), (''service'', ''gosh''), (''go_version'', runtimeVersion b), (''os'', GOOS b), (''arch'', GOARCH b)]"
proof -
  have q: "[CHR 0x22] @ ''service'' @ [CHR 0x22, CHR '':'', CHR 0x22] @ ''gosh'' @ [CHR 0x22] = jsonField isPrint ''service'' ''gosh''"
    unfolding jsonField_def Quote_def by (subst quotedWith_printable) (simp_all add: printable_def needsEscape_def)
  let ?line = "jsonField isPrint ''version'' (version b) @ '','' @ jsonField isPrint ''service'' ''gosh'' @ '','' @
    jsonField isPrint ''go_version'' (runtimeVersion b) @ '','' @ jsonField isPrint ''os'' (GOOS b) @ '','' @
    jsonField isPrint ''arch'' (GOARCH b) @ ''}'' @ eol"
  have line: "newVersionCmd isPrint b True = ''{'' @ ?line"
    unfolding newVersionCmd_def q [symmetric] by simp
  have five: "\<exists>n. length (''{'' @ ?line) = Suc (Suc (Suc (Suc (Suc n))))"
    by (simp add: jsonField_def)
  then obtain n where n: "length (''{'' @ ?line) = Suc (Suc (Suc (Suc (Suc n))))" by blast
  have "jsonObject (''{'' @ ?line) = jsonMembers (Suc (Suc (Suc (Suc (Suc n))))) ?line"
    unfolding jsonObject_def n by (simp add: expect_def)
  also have "\<dots> = Some [(''version'', version b), (''service'', ''gosh''), (''go_version'', runtimeVersion b), (''os'', GOOS b),
      (''arch'', GOARCH b)]"
    using assms by (simp add: jsonMembers_more jsonMembers_last printable_def needsEscape_def del: append.simps jsonMembers.simps)
  finally show ?thesis unfolding line .
qed

text \<open>The escapes of \<^verbatim>\<open>%q\<close> are those of Go: a string with a control character such as BEL is written in a form that is no JSON.\<close>

lemma version_json_control:
  "jsonObject (newVersionCmd isPrint \<lparr>version = [CHR 0x07], runtimeVersion = [], GOOS = [], GOARCH = []\<rparr> True) = None"
  by (simp add: newVersionCmd_def jsonField_def Quote_def decode_ascii RuneError_def appendEscapedRune_def jsonObject_def expect_def
      jsonMember_def newline_def)

section \<open>Claims\<close>

lemma runSession_ends:
  fixes m :: "('k, 'm, 't) machine" and net :: "(('k, 's) authMethod, callback) ssh"
  assumes "terminal_laws (termlib m) (console p)"
  shows "\<exists>r p'. runSession m net deflate inflate opts target remoteCmd evs out p = Some (r, p') \<and> environ p' = environ p \<and>
    ((\<forall>s lp. r \<noteq> Attached s lp) \<longrightarrow> console p' = console p)"
proof (rule runSession_cases [of m net deflate inflate opts target remoteCmd evs out p])
  fix addr key clip p1
  assume *: "runSession m net deflate inflate opts target remoteCmd evs out p = runClient m deflate inflate addr key clip evs out p1"
    "console p1 = console p" "environ p1 = environ p"
  obtain r p' where r: "runClient m deflate inflate addr key clip evs out p1 = Some (r, p')" using runClient_returns by blast
  show ?thesis using * assms r runClient_keeps [OF r] runClient_console [OF _ r] by simp
qed simp

lemma newConnectCmd_ends:
  assumes "terminal_laws (termlib m) (console p)"
  shows "\<exists>r p'. newConnectCmd m deflate inflate opts host port evs out p = Some (r, p') \<and>
    (r = Exiting \<longrightarrow> environ p' = (environ p)(''MOSH_KEY'' := [])) \<and> ((\<forall>s lp. r \<noteq> Attached s lp) \<longrightarrow> console p' = console p)"
proof -
  let ?p = "p\<lparr>environ := (environ p)(''MOSH_KEY'' := [])\<rparr>"
  have *: "\<exists>r p'. runClient m deflate inflate addr key clip evs out ?p = Some (r, p') \<and> environ p' = environ ?p \<and>
    ((\<forall>s lp. r \<noteq> Attached s lp) \<longrightarrow> console p' = console p)" for addr key clip
  proof -
    obtain r p' where r: "runClient m deflate inflate addr key clip evs out ?p = Some (r, p')" using runClient_returns by blast
    show ?thesis using assms r runClient_keeps [OF r] runClient_console [OF _ r] by simp
  qed
  show ?thesis
  proof (cases "(\<exists>e. ParsePolicy (clipboard opts) = Inl e) \<or> environ p ''MOSH_KEY'' = [] \<or> (\<exists>e. ParseBase64Key (environ p ''MOSH_KEY'') = Inl e)")
    case True
    then show ?thesis by (auto simp: newConnectCmd_def Let_def split: sum.splits)
  next
    case False
    then obtain clip key where "ParsePolicy (clipboard opts) = Inr clip" "ParseBase64Key (environ p ''MOSH_KEY'') = Inr key"
      by (metis sum.exhaust)
    then have "newConnectCmd m deflate inflate opts host port evs out p =
      runClient m deflate inflate (JoinHostPort host port) key clip evs out ?p"
      using False by (simp add: newConnectCmd_def)
    then show ?thesis using * [of "JoinHostPort host port" key clip] by auto
  qed
qed



end
