(* ===== verification/Recovery.thy ===== *)
theory Recovery
  imports Sync
begin

unbundle bit_operations_syntax

text \<open>
  Recovery: one retransmission brings the server up to date, whatever was lost before.

  \<open>Sync\<close> lets the server forget states at will, which is enough for safety. Here the server keeps what
  the protocol obliges it to keep: it drops a state only when an instruction it received declares a
  greater number as the least one the client still refers to (\<^verbatim>\<open>ThrowawayNum\<close>), and it applies an
  instruction whose base it holds. Its acknowledgments, of states it holds, may arrive late, in any
  order and any number of times. The client's side is what makes this contract sufficient: it never
  names as its base a state that it has allowed the server to drop. Shutdown is left out.
\<close>

section \<open>The server\<close>

definition mosh_server ::
  "((u64 \<Rightarrow> UserEvent list option) \<Rightarrow> Instruction \<Rightarrow> (u64 \<Rightarrow> UserEvent list option)) \<Rightarrow> bool" where
  "mosh_server recv \<longleftrightarrow>
     mosh_receiver recv \<and>
     (\<forall>h inst n X. h n = Some X \<longrightarrow> ThrowawayNum inst \<le> n \<longrightarrow> recv h inst n = Some X) \<and>
     (\<forall>h inst Y evs. h (OldNum inst) = Some Y \<longrightarrow> UnmarshalUserMessage (Diff inst) = Inr evs \<longrightarrow> h (NewNum inst) = None \<longrightarrow>
        ThrowawayNum inst \<le> NewNum inst \<longrightarrow> recv h inst (NewNum inst) = Some (Y @ expand evs))"

text \<open>The steps of a session, with the set of the acknowledgments the server has sent.\<close>

inductive session_step ::
  "'c senderConn \<Rightarrow> (bytes \<Rightarrow> bytes) \<Rightarrow>
   ((u64 \<Rightarrow> UserEvent list option) \<Rightarrow> Instruction \<Rightarrow> (u64 \<Rightarrow> UserEvent list option)) \<Rightarrow> sys \<times> u64 set \<Rightarrow> sys \<times> u64 set \<Rightarrow> bool"
  for k deflate recv where
  keys: "length (typed y) + length b < 2 ^ 56 \<Longrightarrow>
    session_step k deflate recv (y, A)
      (y\<lparr>client := (client y)\<lparr>currentState := PushKeys (State (client y)) b\<rparr>, typed := typed y @ keyEvents b\<rparr>, A)"
| resize: "length (typed y) + 1 < 2 ^ 56 \<Longrightarrow> go_int width \<Longrightarrow> go_int height \<Longrightarrow>
    session_step k deflate recv (y, A)
      (y\<lparr>client := (client y)\<lparr>currentState := PushResize (State (client y)) width height\<rparr>,
         typed := typed y @ [resizeEvent width height]\<rparr>, A)"
| tick: "Tick k deflate (client y) w = Some (s', err, w') \<Longrightarrow> stateNum (last (sentStates (client y))) < ShutdownNum - 1 \<Longrightarrow>
    session_step k deflate recv (y, A) (y\<lparr>client := s'\<rparr>, A)"
| wait: "session_step k deflate recv (y, A) (y\<lparr>client := fst (WaitTime k (client y) now w)\<rparr>, A)"
| acknum: "session_step k deflate recv (y, A) (y\<lparr>client := SetAckNum (client y) n\<rparr>, A)"
| dataack: "session_step k deflate recv (y, A) (y\<lparr>client := SetDataAck (client y)\<rparr>, A)"
| deliver: "inst \<in> set (emitted (client y)) \<Longrightarrow> session_step k deflate recv (y, A) (y\<lparr>held := recv (held y) inst\<rparr>, A)"
| acknowledge: "held y n \<noteq> None \<Longrightarrow> session_step k deflate recv (y, A) (y, insert n A)"
| acked: "n \<in> A \<Longrightarrow> session_step k deflate recv (y, A) (y\<lparr>client := ProcessAcknowledgmentThrough (client y) n\<rparr>, A)"

section \<open>The invariant\<close>

definition frontNum :: "sender \<Rightarrow> u64" where
  "frontNum s = fst (hd (entries s))"

definition queue_ok :: "sender \<Rightarrow> bool" where
  "queue_ok s \<longleftrightarrow>
     sender_inv s \<and> \<not> shutdownInProgress s \<and> sorted_wrt (<) (map fst (entries s)) \<and>
     (\<forall>inst\<in>set (emitted s). ThrowawayNum inst \<le> frontNum s)"

definition recovery_inv :: "sys \<times> u64 set \<Rightarrow> bool" where
  "recovery_inv x \<longleftrightarrow>
     (case x of (y, A) \<Rightarrow>
        sync_inv y \<and> queue_ok (client y) \<and> held y (frontNum (client y)) \<noteq> None \<and>
        (\<forall>n\<in>A. frontNum (client y) \<le> n \<longrightarrow> held y n \<noteq> None))"

lemma front_nth: "sender_inv s \<Longrightarrow> frontNum s = fst (entries s ! 0)"
  by (cases "entries s") (auto simp: frontNum_def sender_inv_def)

lemma front_least:
  assumes "queue_ok s" "(n, u) \<in> set (entries s)"
  shows "frontNum s \<le> n"
proof -
  obtain e es where e: "entries s = e # es" using assms by (cases "entries s") auto
  then show ?thesis using assms by (fastforce simp: queue_ok_def frontNum_def)
qed

text \<open>The 33rd state pushes out one in the middle of the queue, never the front.\<close>

lemma hd_addEntry: "es \<noteq> [] \<Longrightarrow> length es \<le> 32 \<Longrightarrow> hd (addEntry es e) = hd es"
  by (cases es) (auto simp: addEntry_def Let_def take_Cons')

lemma sorted_le_last:
  fixes xs :: "u64 list"
  shows "sorted_wrt (<) xs \<Longrightarrow> x \<in> set xs \<Longrightarrow> x \<le> last xs"
  by (induction xs rule: rev_induct) (auto simp: sorted_wrt_append)

lemma sorted_nums_addEntry:
  assumes "sorted_wrt (<) (map fst es)" "es \<noteq> []" "fst (last es) < n"
  shows "sorted_wrt (<) (map fst (addEntry es (n :: u64, v)))"
proof -
  obtain ds where ds: "addEntry es (n, v) = ds @ [(n, v)]" "subseq ds es" using addEntry_subseq by blast
  have "subseq (map fst ds) (map fst es)" using ds(2) by (simp add: subseq_map)
  then have s: "sorted_wrt (<) (map fst ds)" using sorted_wrt_subseq assms(1) by blast
  have le: "m \<le> fst (last es)" if "m \<in> set (map fst es)" for m
    using sorted_le_last [OF assms(1) that] assms(2) by (simp add: last_map)
  have "set ds \<subseteq> set es" using ds(2) by (metis notin_set_nthsI set_nths_subset subseq_conv_nths)
  then have "m < n" if "m \<in> fst ` set ds" for m using le [of m] that assms(3) by force
  then show ?thesis using s by (auto simp: ds(1) sorted_wrt_append)
qed

lemma queue_ok_timers: "queue_ok s \<Longrightarrow> queue_ok (calculateTimers k s now w)"
proof -
  assume q: "queue_ok s"
  let ?s = "calculateTimers k s now w"
  have ne: "entries s \<noteq> []" using q by (simp add: queue_ok_def sender_inv_def)
  have e: "entries ?s = map (\<lambda>(n, u). (n, Subtract u (cutting s))) (entries s)" by (rule entries_calculateTimers)
  have "map fst (entries ?s) = map fst (entries s)" "frontNum ?s = frontNum s"
    using ne by (auto simp: e frontNum_def hd_map split: prod.splits)
  then show ?thesis
    using q sender_inv_calculateTimers [of s k now w] by (simp add: queue_ok_def calculateTimers_fields)
qed

lemma front_timers: "sender_inv s \<Longrightarrow> frontNum (calculateTimers k s now w) = frontNum s"
  by (cases "entries s") (auto simp: frontNum_def entries_calculateTimers sender_inv_def)

text \<open>A tick keeps the front, and what it sends asks the server to keep the front.\<close>

lemma queue_ok_sent:
  assumes "queue_ok s1" "tick_sent s1 s' inst" "sender_inv s'" "shutdownInProgress s' = shutdownInProgress s1"
    "fst (last (entries s1)) < ShutdownNum - 1"
  shows "queue_ok s' \<and> frontNum s' = frontNum s1"
proof -
  have q: "sender_inv s1" "\<not> shutdownInProgress s1" "sorted_wrt (<) (map fst (entries s1))"
    using assms(1) by (auto simp: queue_ok_def)
  have ne: "entries s1 \<noteq> []" "length (entries s1) \<le> 32" using q(1) by (auto simp: sender_inv_def)
  have "sorted_wrt (<) (map fst (entries s')) \<and> frontNum s' = frontNum s1"
  proof (cases "entries s' = entries s1")
    case True
    then show ?thesis using q(3) by (simp add: frontNum_def)
  next
    case False
    then have "entries s' = addEntry (entries s1) (NewNum inst, currentState s1)" "NewNum inst = fst (last (entries s1)) + 1"
      using assms(2) q(2) by (auto simp: tick_sent_def)
    then show ?thesis
      using sorted_nums_addEntry [OF q(3) ne(1)] next_number [OF assms(5)] hd_addEntry [OF ne] by (simp add: frontNum_def)
  qed
  then show ?thesis
    using assms front_nth [OF q(1)] by (auto simp: queue_ok_def tick_sent_def)
qed

lemma queue_ok_tick:
  assumes "Tick k deflate s w = Some (s', err, w')" "queue_ok s" "stateNum (last (sentStates s)) < ShutdownNum - 1"
  shows "queue_ok s' \<and> frontNum s' = frontNum s"
proof -
  have inv: "sender_inv s" using assms(2) by (simp add: queue_ok_def)
  obtain now w1 where "tick_result (calculateTimers k s now w1) s' err" using Tick_spec [OF assms(1) inv] by metis
  moreover define s1 where "s1 = calculateTimers k s now w1"
  ultimately have r: "shutdownInProgress s' = shutdownInProgress s1" "sender_inv s'"
    "tick_quiet s1 s' \<or> (\<exists>inst. tick_sent s1 s' inst)" by (auto simp: tick_result_def)
  have q: "queue_ok s1" "frontNum s1 = frontNum s"
    using queue_ok_timers [OF assms(2)] front_timers [OF inv] by (simp_all add: s1_def)
  have ne: "sentStates s \<noteq> []" "sentStates s1 \<noteq> []" using inv q(1) by (auto simp: sender_inv_def queue_ok_def)
  have l: "fst (last (entries s1)) < ShutdownNum - 1"
    using assms(3) calculateTimers_last [OF ne(1), of k now w1] last_entries [OF ne(2)] by (simp add: s1_def)
  show ?thesis
  proof (cases "tick_quiet s1 s'")
    case True
    then show ?thesis using q r by (simp add: queue_ok_def tick_quiet_def frontNum_def)
  next
    case False
    then show ?thesis using r(3) queue_ok_sent [OF q(1) _ r(2,1) l] q(2) by auto
  qed
qed

lemma queue_ok_ack:
  assumes "queue_ok s"
  shows "queue_ok (ProcessAcknowledgmentThrough s n)"
    "ProcessAcknowledgmentThrough s n = s \<or> frontNum (ProcessAcknowledgmentThrough s n) = n \<and> frontNum s \<le> n"
proof -
  let ?s = "ProcessAcknowledgmentThrough s n"
  have "queue_ok ?s \<and> (?s = s \<or> frontNum ?s = n \<and> frontNum s \<le> n)"
  proof (cases "ackedSuffix n (sentStates s)")
    case None
    then show ?thesis using assms by (simp add: ProcessAcknowledgmentThrough_def)
  next
    case (Some kept)
    then have s': "?s = s\<lparr>sentStates := kept, assumedReceiverStateIdx := 0\<rparr>"
      by (simp add: ProcessAcknowledgmentThrough_def)
    obtain ds where ds: "sentStates s = ds @ kept" "kept \<noteq> []" "stateNum (hd kept) = n"
      using ackedSuffix_suffix [OF Some] by (metis suffixE)
    have e: "entries s = map (\<lambda>st. (stateNum st, stream st)) ds @ entries ?s" by (simp add: entries_def ds(1) s')
    have f: "frontNum ?s = n" using ds(2,3) by (simp add: frontNum_def entries_def s' hd_map)
    have "(n, stream (hd kept)) \<in> set (entries s)" using ds by (auto simp: entries_def)
    then have "frontNum s \<le> n" using front_least [OF assms] by blast
    moreover have "sorted_wrt (<) (map fst (entries ?s))" using assms e by (simp add: queue_ok_def sorted_wrt_append)
    moreover have "sender_inv ?s" using assms sender_inv_ack by (simp add: queue_ok_def)
    moreover have "emitted ?s = emitted s" "shutdownInProgress ?s = shutdownInProgress s" by (simp_all add: s')
    ultimately have "queue_ok ?s" using assms f by (auto simp: queue_ok_def)
    then show ?thesis using f \<open>frontNum s \<le> n\<close> by simp
  qed
  then show "queue_ok ?s" "?s = s \<or> frontNum ?s = n \<and> frontNum s \<le> n" by blast+
qed

lemma queue_ok_quiet:
  assumes "queue_ok s" "entries s' = entries s" "emitted s' = emitted s" "shutdownInProgress s' = shutdownInProgress s"
    "sender_inv s'"
  shows "queue_ok s' \<and> frontNum s' = frontNum s"
  using assms by (simp add: queue_ok_def frontNum_def)

lemma session_sys:
  assumes "session_step k deflate recv (y, A) (y', A')"
  shows "y' = y \<or> (sys_step k deflate recv)\<^sup>*\<^sup>* y y'"
  using assms
proof cases
  case (keys b)
  then show ?thesis using sys_step.keys [of y b k deflate recv] by (auto intro: r_into_rtranclp)
next
  case (resize width height)
  then show ?thesis using sys_step.resize [of y width height k deflate recv] by (auto intro: r_into_rtranclp)
next
  case (tick w s' err w')
  then have "sender_step k deflate (client y) s'" by (auto intro: sender_step.tick)
  then show ?thesis using sys_step.sender [of k deflate y s' recv] tick by (auto intro: r_into_rtranclp)
next
  case (wait now w)
  then show ?thesis
    using sys_step.sender [OF sender_step.wait [of k deflate "client y" now w], of recv] by (auto intro: r_into_rtranclp)
next
  case (acknum n)
  then show ?thesis
    using sys_step.sender [OF sender_step.acknum [of k deflate "client y" n], of recv] by (auto intro: r_into_rtranclp)
next
  case dataack
  then show ?thesis
    using sys_step.sender [OF sender_step.dataack [of k deflate "client y"], of recv] by (auto intro: r_into_rtranclp)
next
  case (deliver inst)
  then show ?thesis using sys_step.deliver [of inst y k deflate recv] by (auto intro: r_into_rtranclp)
next
  case (acked n)
  then show ?thesis
    using sys_step.sender [OF sender_step.acked [of k deflate "client y" n], of recv] by (auto intro: r_into_rtranclp)
qed simp

text \<open>The server keeps every state from the front on.\<close>

lemma recv_keeps:
  assumes "mosh_server recv" "queue_ok s" "inst \<in> set (emitted s)" "frontNum s \<le> n" "h n \<noteq> None"
  shows "recv h inst n \<noteq> None"
proof -
  have "ThrowawayNum inst \<le> n" using assms(2,3,4) by (force simp: queue_ok_def)
  then show ?thesis using assms(1,5) unfolding mosh_server_def by blast
qed

lemma recovery_same:
  assumes "recovery_inv (y, A)" "sync_inv y'" "held y' = held y" "queue_ok (client y') \<and> frontNum (client y') = frontNum (client y)"
  shows "recovery_inv (y', A)"
  using assms by (simp add: recovery_inv_def)

lemma recovery_step:
  assumes "session_step k deflate recv x x'" "mosh_server recv" "recovery_inv x"
  shows "recovery_inv x'"
proof -
  obtain y A y' A' where x: "x = (y, A)" "x' = (y', A')" by fastforce
  have q: "queue_ok (client y)" and inv: "sender_inv (client y)"
    using assms(3) by (auto simp: x recovery_inv_def queue_ok_def)
  have "mosh_receiver recv" "sync_inv y" using assms(2,3) by (auto simp: mosh_server_def x recovery_inv_def)
  then have sync: "sync_inv y'" using session_sys [OF assms(1) [unfolded x]] sync_inv_run by blast
  note same = recovery_same [OF assms(3) [unfolded x] sync]
  have "recovery_inv (y', A')"
    using assms(1) unfolding x
  proof cases
    case (keys b)
    then have "held y' = held y" "queue_ok (client y') \<and> frontNum (client y') = frontNum (client y)"
      using sender_inv_push [OF inv stream_prefix_Push(1), of b] q by (simp_all add: queue_ok_def frontNum_def State_def)
    then show ?thesis using same keys(2) by simp
  next
    case (resize width height)
    then have "held y' = held y" "queue_ok (client y') \<and> frontNum (client y') = frontNum (client y)"
      using sender_inv_push [OF inv stream_prefix_Push(2), of width height] q by (simp_all add: queue_ok_def frontNum_def State_def)
    then show ?thesis using same resize(2) by simp
  next
    case (tick w s' err w')
    then have "held y' = held y" "queue_ok (client y') \<and> frontNum (client y') = frontNum (client y)"
      using queue_ok_tick [OF tick(3) q tick(4)] by simp_all
    then show ?thesis using same tick(2) by simp
  next
    case (wait now w)
    then have "held y' = held y" "queue_ok (client y') \<and> frontNum (client y') = frontNum (client y)"
      using queue_ok_timers [OF q, of k now w] front_timers [OF inv, of k now w] by (simp_all add: WaitTime_def Let_def)
    then show ?thesis using same wait(2) by simp
  next
    case (acknum n)
    then have "held y' = held y" "queue_ok (client y') \<and> frontNum (client y') = frontNum (client y)"
      using inv q by (auto simp: sender_inv_misc) (auto simp: SetAckNum_def entries_def sender_inv_def queue_ok_def frontNum_def)
    then show ?thesis using same acknum(2) by simp
  next
    case dataack
    then have "held y' = held y" "queue_ok (client y') \<and> frontNum (client y') = frontNum (client y)"
      using inv q by (auto simp: sender_inv_misc) (auto simp: SetDataAck_def entries_def sender_inv_def queue_ok_def frontNum_def)
    then show ?thesis using same dataack(2) by simp
  next
    case (deliver inst)
    then show ?thesis
      using assms(3) recv_keeps [OF assms(2) q deliver(3)] sync by (auto simp: x recovery_inv_def)
  next
    case (acknowledge n)
    then show ?thesis using assms(3) by (auto simp: x recovery_inv_def)
  next
    case (acked n)
    let ?s = "ProcessAcknowledgmentThrough (client y) n"
    have "held y (frontNum ?s) \<noteq> None \<and> frontNum (client y) \<le> frontNum ?s"
      using queue_ok_ack(2) [OF q, of n] assms(3) acked(3) by (auto simp: x recovery_inv_def)
    then show ?thesis
      using assms(3) acked sync queue_ok_ack(1) [OF q, of n] order_trans by (fastforce simp: x recovery_inv_def)
  qed
  then show ?thesis by (simp add: x)
qed

lemma recovery_init: "recovery_inv (initSys k w, {})"
proof -
  have s: "entries (fst (newSender k w)) = [(0, emptyStream)]" "\<not> shutdownInProgress (fst (newSender k w))"
    "emitted (fst (newSender k w)) = []"
    by (simp_all add: newSender_def entries_def Let_def split: prod.splits)
  then show ?thesis
    using sync_inv_init [of k w] sender_inv_misc
    by (auto simp: recovery_inv_def queue_ok_def frontNum_def initSys_def)
qed

lemma recovery_run:
  "(session_step k deflate recv)\<^sup>*\<^sup>* x x' \<Longrightarrow> mosh_server recv \<Longrightarrow> recovery_inv x \<Longrightarrow> recovery_inv x'"
  by (induction rule: rtranclp_induct) (auto intro: recovery_step)

lemma acked_last:
  "sts \<noteq> [] \<Longrightarrow> sorted_wrt (<) (map stateNum sts) \<Longrightarrow> ackedSuffix (stateNum (last sts)) sts = Some [last sts]"
proof (induction sts)
  case (Cons st sts)
  show ?case
  proof (cases "sts = []")
    case False
    then have "stateNum st < stateNum (last sts)" using Cons.prems(2) last_in_set by auto
    then have "stateNum st \<noteq> stateNum (last sts)" by simp
    then show ?thesis using Cons False by simp
  qed simp
qed simp

text \<open>What the server makes of an instruction that leads from the front to the current state.\<close>

lemma recv_completes:
  assumes "mosh_server recv" "core s H gone M" "held_ok h M H" "queue_ok s" "h (frontNum s) \<noteq> None"
    and "OldNum inst = frontNum s" "Diff inst = DiffFrom (currentState s) (stream (sentStates s ! 0))"
    and "ThrowawayNum inst = frontNum s" "frontNum s \<le> NewNum inst" "NewNum inst \<noteq> ShutdownNum"
    and "h (NewNum inst) = None \<or> M (NewNum inst) = Some H"
  shows "recv h inst (NewNum inst) = Some H"
proof -
  let ?u = "stream (sentStates s ! 0)"
  have inv: "sender_inv s" and H: "H = gone @ events (currentState s)" "list_all normal_event H" "length H < 2 ^ 56"
    and m: "minted_ok s H gone M" by (rule coreD [OF assms(2)])+
  have ne: "sentStates s \<noteq> []" using inv by (simp add: sender_inv_def)
  then have "(frontNum s, ?u) = entries s ! 0" using front_nth [OF inv] nth_entries [of 0 s] by simp
  then have e: "(frontNum s, ?u) \<in> set (entries s)" using ne nth_mem [of 0 "entries s"] by simp
  then have "frontNum s \<noteq> ShutdownNum" using m assms(4) by (auto simp: minted_ok_def queue_ok_def)
  then have Y: "h (frontNum s) = Some (gone @ events ?u)"
    using m e assms(3,5) unfolding minted_ok_def held_ok_def by fastforce
  show ?thesis
  proof (cases "h (NewNum inst)")
    case None
    have "wf_stream (currentState s)" using H by (simp add: wf_stream_def)
    then obtain evs where "UnmarshalUserMessage (Diff inst) = Inr evs" "events (currentState s) = events ?u @ expand evs"
      using diff_completes [OF _ entries_prefix_current [OF inv e]] assms(7) by metis
    moreover have "recv h inst (NewNum inst) = Some ((gone @ events ?u) @ expand evs)"
      if "UnmarshalUserMessage (Diff inst) = Inr evs" for evs
      using assms(1) Y None that assms(6,8,9) unfolding mosh_server_def by metis
    ultimately show ?thesis using H(1) by simp
  next
    case (Some X)
    then have "M (NewNum inst) = Some X" using assms(3,10) by (auto simp: held_ok_def)
    then have "X = H" using assms(11) Some by simp
    then show ?thesis using assms(1,8,9) Some unfolding mosh_server_def by metis
  qed
qed

text \<open>What a retransmission sends, with the queue it leaves.\<close>

lemma retransmission:
  assumes "Tick k deflate s w = Some (s', None, w')" "queue_ok s" "stateNum (last (sentStates s)) < ShutdownNum - 1"
    and "connNow k w = (now, w1)" "currentState s \<noteq> stream (sentStates s ! 0)" "connTimeout k w1 \<le> second"
    and "sorted (map sentAt (sentStates s))" "sentAt (last (sentStates s)) + (second + ackDelay) \<le> now"
    and "currentState s \<noteq> stream (last (sentStates s)) \<longrightarrow> haveMindelay s \<and> mindelayClock s + sendMindelay \<le> now"
  obtains inst where "emitted s' = emitted s @ [inst]" "OldNum inst = frontNum s" "ThrowawayNum inst = frontNum s"
    "Diff inst = DiffFrom (currentState s) (stream (sentStates s ! 0))"
    "last (entries s') = (NewNum inst, currentState s')"
    "NewNum inst = stateNum (last (sentStates s)) \<and> currentState s = stream (last (sentStates s)) \<or>
     NewNum inst = stateNum (last (sentStates s)) + 1"
proof -
  have inv: "sender_inv s" and sh: "\<not> shutdownInProgress s" using assms(2) by (auto simp: queue_ok_def)
  have ne: "sentStates s \<noteq> []" using inv by (simp add: sender_inv_def)
  obtain inst where i: "emitted s' = emitted s @ [inst]" "OldNum inst = stateNum (sentStates s ! 0)"
    "Diff inst = DiffFrom (currentState s) (stream (sentStates s ! 0))"
    using unacked_sent [OF assms(1) inv assms(4,5,6,7,8,9)] by auto
  define s1 where "s1 = calculateTimers k s now w1"
  have "tick_result s1 s' None" using Tick_spec [OF assms(1) inv] assms(4) by (metis prod.inject s1_def)
  moreover have "emitted s1 = emitted s" by (simp add: s1_def calculateTimers_fields)
  ultimately have t: "tick_sent s1 s' inst" and cur: "currentState s' = currentState s1"
    using i(1) by (auto simp: tick_result_def tick_quiet_def tick_sent_def)
  have q: "queue_ok s1" using queue_ok_timers [OF assms(2)] by (simp add: s1_def)
  have f: "frontNum s = stateNum (sentStates s ! 0)" using front_nth [OF inv] nth_entries [of 0 s] ne by simp
  have thr: "ThrowawayNum inst = frontNum s"
    using t front_nth [of s1] q front_timers [OF inv, of k now w1] by (simp add: tick_sent_def queue_ok_def s1_def)
  have ne1: "sentStates s1 \<noteq> []" using q by (auto simp: queue_ok_def sender_inv_def)
  then have l: "last (entries s1) = (stateNum (last (sentStates s)), stream (last (sentStates s1)))"
    using last_entries calculateTimers_last [OF ne, of k now w1] by (simp add: s1_def)
  have sh1: "\<not> shutdownInProgress s1" using sh by (simp add: s1_def calculateTimers_fields)
  have "last (entries s') = (NewNum inst, currentState s') \<and>
    (NewNum inst = stateNum (last (sentStates s)) \<and> currentState s = stream (last (sentStates s)) \<or>
     NewNum inst = stateNum (last (sentStates s)) + 1)"
    using t sh1 l cur calculateTimers_new_iff [OF inv, of k now w1]
    unfolding tick_sent_def s1_def [symmetric] by auto
  then show thesis using that i f thr by simp
qed

section \<open>One retransmission\<close>

text \<open>Whatever was lost, reordered, repeated or acknowledged late before: when the current state is not known
  to be received, 1.1 s after the last transmission a tick that reports no error sends one instruction, and a
  server that receives it holds the whole of the user's history under its number; and when the
  acknowledgment of that number comes back, the client has nothing left to send.\<close>

lemma retransmission_recovers:
  assumes "mosh_server recv" "recovery_inv (y, A)" "sender_conn k"
    and "Tick k deflate (client y) w = Some (s', None, w')" "connNow k w = (now, w1)"
    and "times_ok (client y) now" "stateNum (last (sentStates (client y))) < ShutdownNum - 1"
    and "currentState (client y) \<noteq> stream (sentStates (client y) ! 0)"
    and "sentAt (last (sentStates (client y))) + (second + ackDelay) \<le> now"
    and "currentState (client y) \<noteq> stream (last (sentStates (client y))) \<longrightarrow>
      haveMindelay (client y) \<and> mindelayClock (client y) + sendMindelay \<le> now"
  shows "\<exists>inst. emitted s' = emitted (client y) @ [inst] \<and> recv (held y) inst (NewNum inst) = Some (typed y) \<and>
    stream (sentStates (ProcessAcknowledgmentThrough s' (NewNum inst)) ! 0) = currentState s'"
proof -
  let ?s = "client y"
  note r = assms(2)
  then have q: "queue_ok ?s" and hd: "held y (frontNum ?s) \<noteq> None" by (auto simp: recovery_inv_def)
  obtain gone M where c: "core ?s (typed y) gone M" "held_ok (held y) M (typed y)"
    using r by (auto simp: recovery_inv_def sync_inv_def)
  have inv: "sender_inv ?s" and sh: "\<not> shutdownInProgress ?s" using q by (auto simp: queue_ok_def)
  have ne: "sentStates ?s \<noteq> []" using inv by (simp add: sender_inv_def)
  have m: "minted_ok ?s (typed y) gone M" and H: "typed y = gone @ events (currentState ?s)" by (rule coreD [OF c(1)])+
  let ?n = "stateNum (last (sentStates ?s))"
  have "connTimeout k w1 \<le> second" "sorted (map sentAt (sentStates ?s))"
    using sender_conn.conn_timeout [OF assms(3)] assms(6) by (auto simp: times_ok_def)
  then obtain inst where i: "emitted s' = emitted ?s @ [inst]" "OldNum inst = frontNum ?s" "ThrowawayNum inst = frontNum ?s"
    "Diff inst = DiffFrom (currentState ?s) (stream (sentStates ?s ! 0))" "last (entries s') = (NewNum inst, currentState s')"
    "NewNum inst = ?n \<and> currentState ?s = stream (last (sentStates ?s)) \<or> NewNum inst = ?n + 1"
    using retransmission [OF assms(4) q assms(7,5,8) _ _ assms(9,10)] by blast
  have l: "(?n, stream (last (sentStates ?s))) \<in> set (entries ?s)"
    using last_entries [OF ne] last_in_set [of "entries ?s"] ne by simp
  have n1: "?n < ?n + 1 \<and> ?n + 1 \<noteq> ShutdownNum" by (rule next_number [OF assms(7)])
  have n: "?n \<noteq> ShutdownNum" using m l sh by (auto simp: minted_ok_def)
  have "M (?n + 1) = None"
  proof (rule ccontr)
    assume "M (?n + 1) \<noteq> None"
    then have "?n + 1 \<le> ?n" using m sh last_entries [OF ne] unfolding minted_ok_def by force
    then show False using n1 by (meson leD)
  qed
  then have "held y (?n + 1) = None" using c(2) n1 unfolding held_ok_def by (metis not_None_eq)
  moreover have "M ?n = Some (gone @ events (stream (last (sentStates ?s))))"
    using m l n by (simp add: minted_ok_def)
  ultimately have new: "held y (NewNum inst) = None \<or> M (NewNum inst) = Some (typed y)" using i(6) H by auto
  have "frontNum ?s \<le> ?n" using front_least [OF q l] .
  then have "frontNum ?s \<le> NewNum inst" "NewNum inst \<noteq> ShutdownNum" using i(6) n n1 by auto
  then have recv: "recv (held y) inst (NewNum inst) = Some (typed y)"
    by (rule recv_completes [OF assms(1) c q hd i(2,4,3) _ _ new])
  have q': "queue_ok s'" using queue_ok_tick [OF assms(4) q assms(7)] by blast
  then have ne': "sentStates s' \<noteq> []" "sorted_wrt (<) (map stateNum (sentStates s'))"
    by (auto simp: queue_ok_def sender_inv_def entries_def comp_def)
  then have "stateNum (last (sentStates s')) = NewNum inst" "stream (last (sentStates s')) = currentState s'"
    using i(5) last_entries [OF ne'(1)] by auto
  then have "stream (sentStates (ProcessAcknowledgmentThrough s' (NewNum inst)) ! 0) = currentState s'"
    using acked_last [OF ne'] by (simp add: ProcessAcknowledgmentThrough_def)
  then show ?thesis using i(1) recv by blast
qed

lemma plainReceiver_server: "mosh_server plainReceiver"
  using plainReceiver_ok by (auto simp: mosh_server_def plainReceiver_def split: option.splits sum.splits)

end
