(* ===== verification/Emission.thy ===== *)
theory Emission
  imports Sync
begin

unbundle bit_operations_syntax

text \<open>
  What the sender puts on the wire. Every tick sends one instruction, as fragments, or none; \<open>recording\<close> is a
  connection that also remembers the payloads it accepted, and changes nothing else; \<open>typed_instruction\<close> is
  what every instruction of every run satisfies.
\<close>

section \<open>A connection that remembers what it sent\<close>

definition recording :: "'c senderConn \<Rightarrow> ('c \<times> bytes set) senderConn" where
  "recording k =
     \<lparr>connSend = (\<lambda>p (w, P). let (e, w) = connSend k p w in (e, (w, if e = None then insert p P else P))),
      connSRTT = (\<lambda>(w, P). connSRTT k w), connTimeout = (\<lambda>(w, P). connTimeout k w), connMTU = (\<lambda>(w, P). connMTU k w),
      connSetLastRoundtripSuccess = (\<lambda>t (w, P). (connSetLastRoundtripSuccess k t w, P)),
      connNow = (\<lambda>(w, P). let (t, w) = connNow k w in (t, (w, P))),
      connRand = (\<lambda>n (w, P). let (b, w) = connRand k n w in (b, (w, P)))\<rparr>"

lemma recording_simps [simp]:
  "connSend (recording k) p (w, P) = (let (e, w) = connSend k p w in (e, (w, if e = None then insert p P else P)))"
  "connSRTT (recording k) (w, P) = connSRTT k w" "connTimeout (recording k) (w, P) = connTimeout k w"
  "connMTU (recording k) (w, P) = connMTU k w"
  "connNow (recording k) (w, P) = (let (t, w) = connNow k w in (t, (w, P)))"
  "connRand (recording k) n (w, P) = (let (b, w) = connRand k n w in (b, (w, P)))"
  by (simp_all add: recording_def)

lemma recording_sendInterval [simp]: "sendInterval (recording k) (w, P) = sendInterval k w"
  by (simp add: sendInterval_def)

lemma recording_assumeStates [simp]: "assumeStates (recording k) (w, P) now i sts idx = assumeStates k w now i sts idx"
  by (induction k w now i sts idx rule: assumeStates.induct) simp_all

lemma recording_timers [simp]: "calculateTimers (recording k) s now (w, P) = calculateTimers k s now w"
  unfolding calculateTimers_def updateAssumedReceiverState_def scheduleSend_def recording_sendInterval recording_assumeStates recording_simps
  by (rule refl)

definition forgetful :: "(sender \<times> error option \<times> 'c \<times> bytes set) option \<Rightarrow> (sender \<times> error option \<times> 'c) option" where
  "forgetful = map_option (\<lambda>(s, e, w, P). (s, e, w))"

lemma forgetful_simps [simp]: "forgetful None = None" "forgetful (Some (s, e, w, P)) = Some (s, e, w)"
  by (simp_all add: forgetful_def)

text \<open>A burst: the fragments that went out are the first ones, and not all when it returns an error.\<close>

lemma recording_sendFragments:
  assumes "sendFragments (recording k) dl fs (w, P) = (e, (w', P'))"
  shows "sendFragments k dl fs w = (e, w') \<and>
    (\<exists>m \<le> length fs. P' = P \<union> marshal ` set (take m fs) \<and> (e \<noteq> None \<longrightarrow> m < length fs))"
  using assms
proof (induction fs arbitrary: w P)
  case (Cons f fs)
  obtain t w1 where t: "connNow k w = (t, w1)" by fastforce
  obtain e1 w2 where s: "connSend k (marshal f) w1 = (e1, w2)" by fastforce
  show ?case
  proof (cases "dl < t \<or> e1 \<noteq> None")
    case True
    then have "P' = P \<and> sendFragments k dl (f # fs) w = (e, w')" using Cons.prems t s by (auto split: if_splits)
    then show ?thesis by (intro conjI exI [of _ 0]) simp_all
  next
    case False
    then have "sendFragments (recording k) dl fs (w2, insert (marshal f) P) = (e, (w', P'))" using Cons.prems t s by simp
    then obtain m where "sendFragments k dl fs w2 = (e, w')" "m \<le> length fs" "P' = insert (marshal f) P \<union> marshal ` set (take m fs)"
      "e \<noteq> None \<longrightarrow> m < length fs" using Cons.IH by blast
    then show ?thesis using False t s by (intro conjI exI [of _ "Suc m"]) auto
  qed
qed simp

lemma recording_makeChaff: "makeChaff (recording k) (w, P) = (let (b, w) = makeChaff k w in (b, (w, P)))"
  by (simp add: makeChaff_def Let_def split: prod.splits)


text \<open>The whole burst of an instruction, in its parts.\<close>

lemma sendInFragments_parts:
  assumes "makeChaff k w = (chaff, w1)" "connNow k w1 = (t, w2)" "inst = mkInstruction s diff n chaff"
    "makeFragments deflate (fragr s) (Marshal inst) (connMTU k w2) = (fr, Some fs)"
    "sendFragments k (t + maxSendBurst) fs w2 = (e, w')"
    "s1 = (if n = ShutdownNum then s\<lparr>shutdownTries := shutdownTries s + 1\<rparr> else s)\<lparr>fragr := fr\<rparr>"
  shows "sendInFragments k deflate s diff n w =
    Some (if e = None then s1\<lparr>pendingDataAck := False, emitted := emitted s1 @ [inst]\<rparr> else s1, e, w')"
proof -
  define s0 where "s0 = (if n = ShutdownNum then s\<lparr>shutdownTries := shutdownTries s + 1\<rparr> else s)"
  have "fragr s0 = fragr s" by (simp add: s0_def)
  then have f: "makeFragments deflate (fragr s0) (Marshal inst) (connMTU k w2) = (fr, Some fs)" using assms(4) by simp
  have s1: "s1 = s0\<lparr>fragr := fr\<rparr>" unfolding assms(6) s0_def ..
  show ?thesis
    unfolding sendInFragments_def assms(1) Let_def prod.case assms(2) assms(3) [symmetric] s0_def [symmetric] f option.case assms(5) s1
    by (cases e) simp_all
qed

lemma sendInFragments_out:
  fixes k :: "'c senderConn"
  assumes "sendInFragments k deflate s diff n w = Some (s', err, w')" "sender_conn k"
  obtains chaff w1 t w2 mtu fs where "makeChaff k w = (chaff, w1)" "connNow k w1 = (t, w2)" "length chaff \<le> 16" "10 < mtu"
    "mtu = connMTU k w2"
    "makeFragments deflate (fragr s) (Marshal (mkInstruction s diff n chaff)) mtu = (fragr s', Some fs)"
    "sendFragments k (t + maxSendBurst) fs w2 = (err, w')"
    "emitted s' = emitted s @ (if err = None then [mkInstruction s diff n chaff] else [])"
proof -
  obtain b w0 where b: "connRand k 1 w = (b, w0)" by fastforce
  obtain chaff w1 where c: "connRand k (unat (b ! 0) mod 17) w0 = (chaff, w1)" by fastforce
  have mk: "makeChaff k w = (chaff, w1)" using b c by (simp add: makeChaff_def)
  have "length chaff = unat (b ! 0) mod 17" using sender_conn.conn_rand [OF assms(2), of "unat (b ! 0) mod 17" w0] c by simp
  then have len: "length chaff \<le> 16" by simp
  obtain t w2 where t: "connNow k w1 = (t, w2)" by fastforce
  obtain fr fo where f: "makeFragments deflate (fragr s) (Marshal (mkInstruction s diff n chaff)) (connMTU k w2) = (fr, fo)" by fastforce
  obtain fs where fs: "fo = Some fs" using makeFragments_spec [OF sender_conn.conn_mtu [OF assms(2)] f] by blast
  obtain e v where e: "sendFragments k (t + maxSendBurst) fs w2 = (e, v)" by fastforce
  define s1 where "s1 = (if n = ShutdownNum then s\<lparr>shutdownTries := shutdownTries s + 1\<rparr> else s)\<lparr>fragr := fr\<rparr>"
  have s1: "fragr s1 = fr" "emitted s1 = emitted s" by (simp_all add: s1_def)
  have "s' = (if e = None then s1\<lparr>pendingDataAck := False, emitted := emitted s1 @ [mkInstruction s diff n chaff]\<rparr> else s1)"
    "err = e" "w' = v"
    using assms(1) [unfolded sendInFragments_parts [OF mk t refl f [unfolded fs] e s1_def]] by (cases e; simp)+
  then show thesis using that [OF mk t len sender_conn.conn_mtu [OF assms(2)] refl] f fs e s1 by simp
qed

lemma recording_conn: "sender_conn k \<Longrightarrow> sender_conn (recording k)"
  unfolding sender_conn_def by (auto simp: recording_def split: prod.splits) (metis fst_conv)+

lemma recording_sendInFragments:
  assumes "sender_conn k"
  shows "forgetful (sendInFragments (recording k) deflate s diff n (w, P)) = sendInFragments k deflate s diff n w"
proof -
  obtain chaff w1 where mk: "makeChaff k w = (chaff, w1)" by fastforce
  then have mk': "makeChaff (recording k) (w, P) = (chaff, (w1, P))" by (simp add: recording_makeChaff)
  obtain t w2 where t: "connNow k w1 = (t, w2)" by fastforce
  then have t': "connNow (recording k) (w1, P) = (t, (w2, P))" by simp
  obtain fr fo where f: "makeFragments deflate (fragr s) (Marshal (mkInstruction s diff n chaff)) (connMTU k w2) = (fr, fo)" by fastforce
  obtain fs where fs: "fo = Some fs" using makeFragments_spec [OF sender_conn.conn_mtu [OF assms] f] by blast
  have f': "makeFragments deflate (fragr s) (Marshal (mkInstruction s diff n chaff)) (connMTU (recording k) (w2, P)) = (fr, Some fs)"
    using f fs by simp
  obtain e v Q where b: "sendFragments (recording k) (t + maxSendBurst) fs (w2, P) = (e, (v, Q))" by (metis prod_cases3)
  then have b': "sendFragments k (t + maxSendBurst) fs w2 = (e, v)" using recording_sendFragments [OF b] by blast
  show ?thesis
    unfolding sendInFragments_parts [OF mk t refl f [unfolded fs] b' refl] sendInFragments_parts [OF mk' t' refl f' b refl]
    by simp
qed

text \<open>The operations above it send once, or not at all.\<close>

definition sent_once ::
  "'c senderConn \<Rightarrow> (bytes \<Rightarrow> bytes) \<Rightarrow> sender \<Rightarrow> 'c \<Rightarrow> sender \<Rightarrow> error option \<Rightarrow> 'c \<Rightarrow> bytes \<Rightarrow> bool" where
  "sent_once k deflate s w s' err w' diff \<longleftrightarrow>
     (\<exists>t n s2. sendInFragments k deflate t diff n w = Some (s2, err, w') \<and> fragr t = fragr s \<and> emitted t = emitted s \<and>
        fragr s' = fragr s2 \<and> emitted s' = emitted s2)"

lemma fragr_addSentState [simp]: "fragr (addSentState s now n st) = fragr s"
  "emitted (addSentState s now n st) = emitted s"
  by (simp_all add: addSentState_def Let_def)

lemma sendEmptyAck_once:
  assumes "sendEmptyAck k deflate s now w = Some (s', err, w')"
  shows "sent_once k deflate s w s' err w' []"
proof -
  define n where "n = (if shutdownInProgress s then ShutdownNum else stateNum (last (sentStates s)) + 1)"
  obtain s2 where 2: "sendInFragments k deflate s [] n w = Some (s2, err, w')" "fragr s' = fragr s2" "emitted s' = emitted s2"
    using assms unfolding sendEmptyAck_def Let_def n_def [symmetric] by (auto split: option.splits prod.splits)
  show ?thesis unfolding sent_once_def by (intro exI conjI) (fact 2 refl)+
qed

lemma sendToReceiver_once:
  assumes "sendToReceiver k deflate s now diff w = Some (s', err, w')"
  shows "sent_once k deflate s w s' err w' diff"
proof -
  define n where "n = (if shutdownInProgress s then ShutdownNum
    else if Equal (currentState s) (stream (last (sentStates s))) then stateNum (last (sentStates s)) else stateNum (last (sentStates s)) + 1)"
  define t where "t = (if n = stateNum (last (sentStates s))
    then s\<lparr>sentStates := butlast (sentStates s) @ [(last (sentStates s))\<lparr>sentAt := now\<rparr>]\<rparr> else s)"
  have t: "fragr t = fragr s" "emitted t = emitted s" by (simp_all add: t_def)
  obtain s2 where 2: "sendInFragments k deflate t diff n w = Some (s2, err, w')" "fragr s' = fragr s2" "emitted s' = emitted s2"
    using assms unfolding sendToReceiver_def Let_def n_def [symmetric] t_def [symmetric]
    by (auto split: option.splits prod.splits if_splits)
  show ?thesis unfolding sent_once_def by (intro exI conjI) (fact 2 t)+
qed

lemma sent_once_cong:
  "fragr s' = fragr s2 \<Longrightarrow> emitted s' = emitted s2 \<Longrightarrow> sent_once k deflate s w s' err w' diff = sent_once k deflate s w s2 err w' diff"
  by (simp add: sent_once_def)

lemma tickDue_once:
  assumes "tickDue k deflate s now w = Some (s', err, w')"
  shows "fragr s' = fragr s \<and> emitted s' = emitted s \<and> w' = w \<and> err = None \<or>
    (\<exists>diff e. diff = DiffFrom (currentState s) e \<and> sent_once k deflate s w s' err w' diff)"
proof (cases "DiffFrom (currentState s) (stream (sentStates s ! assumedReceiverStateIdx s)) = []")
  case False
  obtain s2 where s2: "sendToReceiver k deflate s now
      (DiffFrom (currentState s) (stream (sentStates s ! assumedReceiverStateIdx s))) w = Some (s2, err, w')"
    "s' = (if err = None then s2\<lparr>haveMindelay := False\<rparr> else s2)"
    using then_mindelay [of _ s' err w'] assms unfolding tickDue_def Let_def if_not_P [OF False] by blast
  have "fragr s' = fragr s2" "emitted s' = emitted s2" using s2(2) by auto
  then show ?thesis using sendToReceiver_once [OF s2(1)] sent_once_cong [of s' s2] by metis
next
  case True
  note T = assms [unfolded tickDue_def Let_def if_P [OF True]]
  show ?thesis
  proof (cases "\<not> now < nextAckTime s")
    case ack: True
    obtain s3 where s3: "(case sendEmptyAck k deflate s now w of
        Some (s, None, w) \<Rightarrow> Some (s\<lparr>haveMindelay := False\<rparr>, None, w) | r \<Rightarrow> r) = Some (s3, err, w')"
      "s' = s3 \<or> s' = s3\<lparr>haveSendTime := False, haveMindelay := False\<rparr>"
      using then_done [OF T [unfolded if_P [OF ack]]] by blast
    obtain s2 where s2: "sendEmptyAck k deflate s now w = Some (s2, err, w')"
      "s3 = (if err = None then s2\<lparr>haveMindelay := False\<rparr> else s2)"
      using then_mindelay [OF s3(1)] by blast
    have "fragr s' = fragr s2" "emitted s' = emitted s2" using s2(2) s3(2) by auto
    then show ?thesis using sendEmptyAck_once [OF s2(1)] sent_once_cong [of s' s2] True by metis
  next
    case False
    then show ?thesis using then_done [OF T [unfolded if_not_P [OF False]]] by auto
  qed
qed

lemma Tick_once:
  assumes "Tick k deflate s w = Some (s', err, w')" "connNow k w = (now, w1)"
  shows "fragr s' = fragr s \<and> emitted s' = emitted s \<and> w' = w1 \<and> err = None \<or>
    (\<exists>diff e. diff = DiffFrom (currentState (calculateTimers k s now w1)) e \<and> sent_once k deflate s w1 s' err w' diff)"
proof -
  have "fragr (calculateTimers k s now w1) = fragr s" "emitted (calculateTimers k s now w1) = emitted s"
    by (rule calculateTimers_fields)+
  then show ?thesis
    using assms tickDue_once [of k deflate "calculateTimers k s now w1" now w1 s' err w']
    by (auto simp: Tick_def Let_def sent_once_def split: if_splits)
qed

text \<open>Remembering changes nothing of what is done.\<close>

lemma forgetful_cases:
  assumes "forgetful r' = r"
  obtains "r' = None" "r = None" | s e w P where "r' = Some (s, e, w, P)" "r = Some (s, e, w)"
  using assms by (cases r') (auto simp: forgetful_def)

lemma recording_sendEmptyAck:
  assumes "sender_conn k"
  shows "forgetful (sendEmptyAck (recording k) deflate s now (w, P)) = sendEmptyAck k deflate s now w"
proof -
  let ?n = "if shutdownInProgress s then ShutdownNum else stateNum (last (sentStates s)) + 1"
  note * = recording_sendInFragments [OF assms, of deflate s "[]" ?n w P]
  show ?thesis
  proof (rule forgetful_cases [OF *])
    fix t e v Q
    assume "sendInFragments (recording k) deflate s [] ?n (w, P) = Some (t, e, v, Q)" "sendInFragments k deflate s [] ?n w = Some (t, e, v)"
    then show ?thesis unfolding sendEmptyAck_def Let_def by (cases e) simp_all
  qed (simp add: sendEmptyAck_def Let_def)
qed

lemma recording_sendToReceiver:
  assumes "sender_conn k"
  shows "forgetful (sendToReceiver (recording k) deflate s now diff (w, P)) = sendToReceiver k deflate s now diff w"
proof -
  define n where "n = (if shutdownInProgress s then ShutdownNum
    else if Equal (currentState s) (stream (last (sentStates s))) then stateNum (last (sentStates s)) else stateNum (last (sentStates s)) + 1)"
  define t where "t = (if n = stateNum (last (sentStates s))
    then s\<lparr>sentStates := butlast (sentStates s) @ [(last (sentStates s))\<lparr>sentAt := now\<rparr>]\<rparr> else s)"
  note * = recording_sendInFragments [OF assms, of deflate t diff n w P]
  show ?thesis
  proof (rule forgetful_cases [OF *])
    fix u e v Q
    assume "sendInFragments (recording k) deflate t diff n (w, P) = Some (u, e, v, Q)" "sendInFragments k deflate t diff n w = Some (u, e, v)"
    then show ?thesis unfolding sendToReceiver_def Let_def n_def [symmetric] t_def [symmetric] by (cases e) simp_all
  qed (simp add: sendToReceiver_def Let_def n_def [symmetric] t_def [symmetric])
qed

lemma recording_tickDue:
  assumes "sender_conn k"
  shows "forgetful (tickDue (recording k) deflate s now (w, P)) = tickDue k deflate s now w"
proof (cases "DiffFrom (currentState s) (stream (sentStates s ! assumedReceiverStateIdx s)) = []")
  case True
  show ?thesis
  proof (rule forgetful_cases [OF recording_sendEmptyAck [OF assms, of deflate s now w P]])
    assume *: "sendEmptyAck (recording k) deflate s now (w, P) = None" "sendEmptyAck k deflate s now w = None"
    show ?thesis unfolding tickDue_def Let_def if_P [OF True] * by simp
  next
    fix t e v Q
    assume *: "sendEmptyAck (recording k) deflate s now (w, P) = Some (t, e, v, Q)" "sendEmptyAck k deflate s now w = Some (t, e, v)"
    show ?thesis unfolding tickDue_def Let_def if_P [OF True] * by (cases e) simp_all
  qed
next
  case False
  let ?d = "DiffFrom (currentState s) (stream (sentStates s ! assumedReceiverStateIdx s))"
  show ?thesis
  proof (rule forgetful_cases [OF recording_sendToReceiver [OF assms, of deflate s now ?d w P]])
    assume *: "sendToReceiver (recording k) deflate s now ?d (w, P) = None" "sendToReceiver k deflate s now ?d w = None"
    show ?thesis unfolding tickDue_def Let_def if_not_P [OF False] * by simp
  next
    fix t e v Q
    assume *: "sendToReceiver (recording k) deflate s now ?d (w, P) = Some (t, e, v, Q)" "sendToReceiver k deflate s now ?d w = Some (t, e, v)"
    show ?thesis unfolding tickDue_def Let_def if_not_P [OF False] * by (cases e) simp_all
  qed
qed

lemma recording_Tick:
  assumes "sender_conn k"
  shows "forgetful (Tick (recording k) deflate s (w, P)) = Tick k deflate s w"
proof -
  obtain now w1 where t: "connNow k w = (now, w1)" by fastforce
  have *: "forgetful (if b then Some (c, None, w1, P) else tickDue (recording k) deflate c now (w1, P)) =
      (if b then Some (c, None, w1) else tickDue k deflate c now w1)" for b c
    using recording_tickDue [OF assms] by simp
  show ?thesis unfolding Tick_def recording_simps t Let_def prod.case recording_timers by (rule *)
qed

section \<open>The type of an instruction\<close>

text \<open>What every instruction on the wire satisfies.\<close>

definition typed_instruction :: "Instruction \<Rightarrow> bool" where
  "typed_instruction inst \<longleftrightarrow>
     wf_instruction inst \<and> ProtocolVersion inst = protocolVersion \<and> length (Chaff inst) \<le> 16 \<and>
     (\<exists>evs. UnmarshalUserMessage (Diff inst) = Inr evs)"

lemma DiffFrom_typed:
  assumes "wf_stream u"
  shows "length (DiffFrom u e) < 2 ^ 64 \<and> (\<exists>evs. UnmarshalUserMessage (DiffFrom u e) = Inr evs)"
proof (cases "length (events e) < length (events u)")
  case True
  have "list_all normal_event (drop (length (events e)) (events u))" "length (drop (length (events e)) (events u)) < 2 ^ 56"
    using assms by (auto simp: wf_stream_def list_all_iff dest: in_set_dropD)
  then have "length (DiffFrom u e) < 2 ^ 64"
    using True DiffFrom_size [of "drop (length (events e)) (events u)"] by (simp add: DiffFrom_def)
  then show ?thesis using DiffFrom_decodes [OF assms True] by blast
qed (simp add: DiffFrom_def)

lemma mkInstruction_typed:
  assumes "length diff < 2 ^ 64" "UnmarshalUserMessage diff = Inr evs" "length chaff \<le> 16"
  shows "typed_instruction (mkInstruction s diff n chaff)"
  using assms by (auto simp: typed_instruction_def wf_instruction_def mkInstruction_def)

lemma sent_once_typed:
  assumes "sent_once k deflate s w s' err w' (DiffFrom u e)" "wf_stream u" "sender_conn k"
    and "\<forall>inst \<in> set (emitted s). typed_instruction inst"
  shows "\<forall>inst \<in> set (emitted s'). typed_instruction inst"
proof -
  obtain t n s2 where 2: "sendInFragments k deflate t (DiffFrom u e) n w = Some (s2, err, w')" "emitted t = emitted s" "emitted s' = emitted s2"
    using assms(1) by (auto simp: sent_once_def)
  obtain chaff where "length chaff \<le> 16"
    "emitted s2 = emitted t @ (if err = None then [mkInstruction t (DiffFrom u e) n chaff] else [])"
    by (rule sendInFragments_out [OF 2(1) assms(3)])
  moreover obtain evs where "length (DiffFrom u e) < 2 ^ 64" "UnmarshalUserMessage (DiffFrom u e) = Inr evs"
    using DiffFrom_typed [OF assms(2)] by blast
  ultimately show ?thesis using assms(4) 2 mkInstruction_typed by auto
qed

lemma timers_wf:
  assumes "core s H gone M"
  shows "wf_stream (currentState (calculateTimers k s now w))"
  using coreD(2,3,4) [OF core_timers [OF assms, of k now w]] by (auto simp: wf_stream_def list_all_iff)

lemma Tick_typed:
  assumes "Tick k deflate s w = Some (s', err, w')" "core s H gone M" "sender_conn k"
    and "\<forall>inst \<in> set (emitted s). typed_instruction inst"
  shows "\<forall>inst \<in> set (emitted s'). typed_instruction inst"
proof -
  obtain now w1 where t: "connNow k w = (now, w1)" by fastforce
  from Tick_once [OF assms(1) t] show ?thesis
  proof (elim disjE exE conjE)
    fix diff e
    assume "diff = DiffFrom (currentState (calculateTimers k s now w1)) e" "sent_once k deflate s w1 s' err w' diff"
    then have "sent_once k deflate s w1 s' err w' (DiffFrom (currentState (calculateTimers k s now w1)) e)" by simp
    from sent_once_typed [OF this timers_wf [OF assms(2)] assms(3,4)] show ?thesis .
  qed (use assms(4) in simp)
qed

text \<open>In every run of \<open>Sync\<close>.\<close>

lemma emitted_timers_misc [simp]:
  "emitted (fst (WaitTime k s now w)) = emitted s" "fragr (fst (WaitTime k s now w)) = fragr s"
  "emitted (ProcessAcknowledgmentThrough s n) = emitted s" "fragr (ProcessAcknowledgmentThrough s n) = fragr s"
  "emitted (SetAckNum s n) = emitted s" "fragr (SetAckNum s n) = fragr s"
  "emitted (SetDataAck s) = emitted s" "fragr (SetDataAck s) = fragr s"
  "emitted (fst (StartShutdown k s w)) = emitted s" "fragr (fst (StartShutdown k s w)) = fragr s"
  by (simp_all add: WaitTime_def Let_def calculateTimers_fields ProcessAcknowledgmentThrough_def SetAckNum_def SetDataAck_def
      StartShutdown_def split: option.splits prod.splits)

lemma sender_step_typed:
  assumes "sender_step k deflate s s'" "core s H gone M" "sender_conn k" "\<forall>inst \<in> set (emitted s). typed_instruction inst"
  shows "\<forall>inst \<in> set (emitted s'). typed_instruction inst"
  using assms(1) by cases (use assms(4) Tick_typed [OF _ assms(2,3,4)] in auto)

lemma sys_step_typed:
  assumes "sys_step k deflate recv y y'" "sync_inv y" "sender_conn k" "\<forall>inst \<in> set (emitted (client y)). typed_instruction inst"
  shows "\<forall>inst \<in> set (emitted (client y')). typed_instruction inst"
  using assms(1)
proof cases
  case (sender s')
  obtain gone M where "core (client y) (typed y) gone M" using assms(2) by (auto simp: sync_inv_def)
  then show ?thesis using sender_step_typed [OF sender(2) _ assms(3,4)] sender(1) by simp
qed (use assms(4) in simp_all)

lemma sys_run_typed:
  assumes "(sys_step k deflate recv)\<^sup>*\<^sup>* (initSys k w) y" "mosh_receiver recv" "sender_conn k"
  shows "\<forall>inst \<in> set (emitted (client y)). typed_instruction inst"
  using assms(1)
proof (induction rule: rtranclp_induct)
  case base
  show ?case by (simp add: initSys_def newSender_def split: prod.splits)
next
  case (step y z)
  show ?case using sys_step_typed [OF step(2) sync_inv_run [OF step(1) assms(2) sync_inv_init] assms(3) step(3)] .
qed

lemma typed_decodes: "wf_instruction inst \<Longrightarrow> UnmarshalInstruction (Marshal inst) = Inr inst"
  by (rule instruction.dec_enc)

text \<open>C6: The type of what is sent. Every instruction of every run has the protocol version of mosh, at most 16 bytes
  of chaff, a difference that decodes to user events, fields within the bounds of the format, and is what
  the wire format reads back from its bytes.\<close>

theorem instructions_typed:
  assumes "sender_conn k" "mosh_receiver recv" "(sys_step k deflate recv)\<^sup>*\<^sup>* (initSys k w) y" "inst \<in> set (emitted (client y))"
  shows "typed_instruction inst \<and> UnmarshalInstruction (Marshal inst) = Inr inst"
  using sys_run_typed [OF assms(3,2,1)] assms(4) typed_decodes by (auto simp: typed_instruction_def)

lemma instructions_typed_witness:
  "\<exists>y inst. (sys_step steadyConn (\<lambda>b. b) plainReceiver)\<^sup>*\<^sup>* (initSys steadyConn 0) y \<and> inst \<in> set (emitted (client y)) \<and>
     typed_instruction inst"
proof -
  obtain y where y: "(sys_step steadyConn (\<lambda>b. b) plainReceiver)\<^sup>*\<^sup>* (initSys steadyConn 0) y" "emitted (client y) \<noteq> []"
    using example_run by blast
  then have "hd (emitted (client y)) \<in> set (emitted (client y))" by simp
  then show ?thesis using instructions_typed [OF steady_conn(1) plainReceiver_ok y(1)] y(1) by blast
qed

end
