(* ===== verification/Online.thy ===== *)
theory Online
  imports Client Recovery Emission
begin

unbundle bit_operations_syntax

text \<open>
  The whole program with a server that keeps what the protocol obliges it to keep: \<open>Recovery\<close> for the loop of
  \<^verbatim>\<open>client.go\<close> on its connection. The steps are iterations of the loop outside the closing handshake; the clock does
  not run backwards, and the acknowledgment numbers that arrive are numbers the server sent, of states it
  held at that time.
\<close>

section \<open>The loop with an obliging server\<close>

definition acks_from :: "(nat \<Rightarrow> bytes \<Rightarrow> bytes option) \<Rightarrow> Session \<Rightarrow> u64 set \<Rightarrow> loopEvent \<Rightarrow> bool" where
  "acks_from inflate s A ev \<longleftrightarrow>
     (case ev of
        Datagram payload \<Rightarrow> (case yields inflate (tr s) payload of None \<Rightarrow> True | Some inst \<Rightarrow> AckNum inst \<in> A)
      | _ \<Rightarrow> True)"

abbreviation closing :: "Session \<Rightarrow> bool" where
  "closing s \<equiv> shutdownInProgress (trSender (tr s))"

inductive online_step ::
  "(bytes \<Rightarrow> bytes) \<Rightarrow> (nat \<Rightarrow> bytes \<Rightarrow> bytes option) \<Rightarrow>
   ((u64 \<Rightarrow> UserEvent list option) \<Rightarrow> Instruction \<Rightarrow> (u64 \<Rightarrow> UserEvent list option)) \<Rightarrow>
   whole \<times> u64 set \<times> time \<Rightarrow> whole \<times> u64 set \<times> time \<Rightarrow> bool"
  for deflate inflate recv where
  iterate: "loopTop deflate (wSession z) (wLoop z) (wEnv z) = Some (Running s1 l1 c1, d) \<Longrightarrow>
    handle inflate s1 l1 c1 ev = Running s2 l2 c2 \<Longrightarrow>
    \<not> closing s1 \<Longrightarrow> \<not> closing s2 \<Longrightarrow>
    stateNum (last (sentStates (trSender (tr (wSession z))))) < ShutdownNum - 1 \<Longrightarrow>
    acks_from inflate s1 A ev \<Longrightarrow> t \<le> now \<Longrightarrow> connNow netConn (wEnv z) = (now, e) \<Longrightarrow>
    length (wTyped z) + length (userEvents s1 l1 ev) < 2 ^ 56 \<Longrightarrow>
    go_int (fst (snd (pollSize s1))) \<Longrightarrow> go_int (snd (snd (pollSize s1))) \<Longrightarrow>
    online_step deflate inflate recv (z, A, t)
      (z\<lparr>wSession := s2, wLoop := l2, wEnv := c2, wTyped := wTyped z @ userEvents s1 l1 ev\<rparr>, A, now)"
| pump: "online_step deflate inflate recv (z, A, t) (z\<lparr>wEnv := k\<rparr>, A, t)"
| deliver: "inst \<in> set (emitted (trSender (tr (wSession z)))) \<Longrightarrow>
    online_step deflate inflate recv (z, A, t) (z\<lparr>wHeld := recv (wHeld z) inst\<rparr>, A, t)"
| acknowledge: "wHeld z n \<noteq> None \<Longrightarrow> online_step deflate inflate recv (z, A, t) (z, insert n A, t)"

section \<open>The loop is a session of \<open>Recovery\<close>\<close>

abbreviation online where
  "online deflate recv \<equiv> (session_step netConn deflate recv)\<^sup>*\<^sup>*"

lemma online_sender:
  assumes "session_step netConn deflate recv (sysOf s T h, A) ((sysOf s T h)\<lparr>client := sd\<rparr>, A)" "trSender (tr s') = sd"
  shows "online deflate recv (sysOf s T h, A) (sysOf s' T h, A)"
  using assms by (auto simp: sysOf_def)

lemma beginShutdown_closing: "beginShutdown s lp c = (s', lp', c') \<Longrightarrow> closing s'"
  by (auto simp: beginShutdown_def StartShutdown_def setSender_def Let_def split: prod.splits if_splits)

lemma WaitTime_closing [simp]: "shutdownInProgress (fst (WaitTime k s now w)) = shutdownInProgress s"
  by (simp add: WaitTime_def Let_def calculateTimers_fields)

text \<open>An iteration that does not begin the closing handshake is a tick and a look at the timers.\<close>

lemma loopTop_open:
  assumes "loopTop deflate s lp c = Some (Running s' lp' c', d)" "\<not> closing s'"
  obtains sd r c1 now w where "Tick netConn deflate (trSender (tr s)) c = Some (sd, r, c1)"
    "tr s' = (tr s)\<lparr>trSender := fst (WaitTime netConn sd now w)\<rparr>" "\<not> shutdownInProgress sd" "lp' = lp" "cfg s' = cfg s"
proof -
  obtain sd r c1 where t: "Tick netConn deflate (trSender (tr s)) c = Some (sd, r, c1)"
    using net.Tick_returns by (metis prod_cases3)
  let ?s = "setSender s sd"
  obtain s2 l2 c2 where b: "(if RemoteShutdown (tr ?s) \<and> \<not> ShutdownInProgress (trSender (tr ?s))
      then beginShutdown ?s lp c1 else (?s, lp, c1)) = (s2, l2, c2)" by (metis prod_cases3)
  obtain f c3 where f: "shutdownDone s2 l2 c2 = (f, c3)" by (metis prod.collapse)
  have "\<exists>now w. s' = setSender s2 (fst (WaitTime netConn (trSender (tr s2)) now w)) \<and> lp' = l2"
    using assms(1) unfolding loopTop_def t option.case prod.case Let_def b f
    by (auto split: if_splits prod.splits) (metis fst_conv surj_pair)
  then obtain now w where s': "s' = setSender s2 (fst (WaitTime netConn (trSender (tr s2)) now w))" "lp' = l2" by blast
  then have "\<not> closing s2" using assms(2) by (simp add: setSender_def)
  then have "s2 = ?s" "l2 = lp" using b beginShutdown_closing [of ?s lp c1 s2 l2 c2] by (auto split: if_splits)
  then show thesis using that [OF t, of now w] s' assms(2) by (simp add: setSender_def)
qed

lemma loopTop_online:
  assumes "loopTop deflate s lp c = Some (Running s' lp' c', d)" "\<not> closing s'"
    "stateNum (last (sentStates (trSender (tr s)))) < ShutdownNum - 1"
  shows "online deflate recv (sysOf s T h, A) (sysOf s' T h, A)"
proof -
  obtain sd r c1 now w where t: "Tick netConn deflate (trSender (tr s)) c = Some (sd, r, c1)"
    and s': "tr s' = (tr s)\<lparr>trSender := fst (WaitTime netConn sd now w)\<rparr>"
    by (rule loopTop_open [OF assms(1,2)])
  let ?s = "setSender s sd"
  have "online deflate recv (sysOf s T h, A) (sysOf ?s T h, A)"
    using session_step.tick [of netConn deflate "sysOf s T h" c sd r c1 recv A] t assms(3)
    by (intro online_sender) (simp_all add: sysOf_def setSender_def)
  also have "online deflate recv \<dots> (sysOf s' T h, A)"
    using session_step.wait [of netConn deflate recv "sysOf ?s T h" A now w] s'
    by (intro online_sender) (simp_all add: sysOf_def setSender_def)
  finally show ?thesis .
qed

lemma push_online:
  assumes "length T + length b < 2 ^ 56"
  shows "online deflate recv (sysOf s T h, A)
    (sysOf (s\<lparr>tr := setUserStream (tr s) (PushKeys (UserStream_of (tr s)) b)\<rparr>) (T @ keyEvents b) h, A)"
  using session_step.keys [of "sysOf s T h" b netConn deflate recv A] assms
  by (auto simp: sysOf_def setUserStream_def UserStream_of_def)

lemma resize_online:
  assumes "length T + 1 < 2 ^ 56" "go_int width" "go_int height"
  shows "online deflate recv (sysOf s T h, A)
    (sysOf (s\<lparr>tr := setUserStream (tr s) (PushResize (UserStream_of (tr s)) width height)\<rparr>) (T @ [resizeEvent width height]) h, A)"
  using session_step.resize [of "sysOf s T h" width height netConn deflate recv A] assms
  by (auto simp: sysOf_def setUserStream_def UserStream_of_def)

lemma acked_online:
  assumes "n \<in> A" "trSender (tr s') = ProcessAcknowledgmentThrough (trSender (tr s)) n"
  shows "online deflate recv (sysOf s T h, A) (sysOf s' T h, A)"
  using session_step.acked [OF assms(1), of netConn deflate recv "sysOf s T h"] assms(2)
  by (intro online_sender) (simp_all add: sysOf_def)

lemma ackedSender_online:
  assumes "AckNum inst \<in> A" "trSender (tr s') = ackedSender (trSender (tr s)) inst owed"
  shows "online deflate recv (sysOf s T h, A) (sysOf s' T h, A)"
proof (cases owed)
  case False
  then show ?thesis using acked_online [OF assms(1)] assms(2) by (simp add: ackedSender_def)
next
  case True
  let ?s = "setSender s (ProcessAcknowledgmentThrough (trSender (tr s)) (AckNum inst))"
  have "online deflate recv (sysOf s T h, A) (sysOf ?s T h, A)"
    by (rule acked_online [OF assms(1)]) (simp add: setSender_def)
  also have "online deflate recv \<dots> (sysOf s' T h, A)"
    using session_step.dataack [of netConn deflate recv "sysOf ?s T h" A] assms(2) True
    by (intro online_sender) (simp_all add: sysOf_def setSender_def ackedSender_def)
  finally show ?thesis .
qed

lemma Recv_online:
  assumes "Transport.Recv netConn inflate applyHost (tr s) payload x w = (tr s', err, x', w')"
    "acks_from inflate s A (Datagram payload)"
  shows "online deflate recv (sysOf s T h, A) (sysOf s' T h, A)"
  using assms(1)
proof (cases rule: Recv_outcome)
  case (none a)
  then show ?thesis by (simp add: sysOf_def)
next
  case (skip a inst)
  then have "AckNum inst \<in> A" using assms(2) by (simp add: acks_from_def)
  then show ?thesis using ackedSender_online skip(5) by simp
next
  case (failed a inst e)
  then have "AckNum inst \<in> A" using assms(2) by (simp add: acks_from_def)
  then show ?thesis using ackedSender_online failed(6) by simp
next
  case (rendered a inst)
  then have n: "AckNum inst \<in> A" using assms(2) by (simp add: acks_from_def)
  define s1 where "s1 = setSender s (ackedSender (trSender (tr s)) inst (Diff inst \<noteq> []))"
  have "online deflate recv (sysOf s T h, A) (sysOf s1 T h, A)"
    by (rule ackedSender_online [OF n, of _ _ "Diff inst \<noteq> []"]) (simp add: s1_def setSender_def)
  also have "online deflate recv \<dots> (sysOf s' T h, A)"
    using session_step.acknum [of netConn deflate recv "sysOf s1 T h" A "NewNum inst"] rendered(5)
    by (intro online_sender) (simp_all add: s1_def sysOf_def setSender_def)
  finally show ?thesis .
qed

lemma handleInput_online:
  assumes "handleInput s lp c b = (s', lp', c')" "\<not> closing s'" "length T + length (forwarded s lp b) < 2 ^ 56"
  shows "online deflate recv (sysOf s T h, A) (sysOf s' (T @ keyEvents (forwarded s lp b)) h, A)"
proof -
  let ?ks = "forwarded s lp b"
  obtain s1 lp1 quit where p: "tr s1 = tr s" "(s', lp', c') =
      (let s2 = (if ?ks \<noteq> [] then s1\<lparr>tr := setUserStream (tr s1) (PushKeys (UserStream_of (tr s1)) ?ks)\<rparr> else s1)
       in if quit then beginShutdown s2 lp1 c else (s2, lp1, c))"
    by (rule handleInput_parts [OF assms(1)]) (simp add: Let_def)
  define s2 where "s2 = (if ?ks \<noteq> [] then s1\<lparr>tr := setUserStream (tr s1) (PushKeys (UserStream_of (tr s1)) ?ks)\<rparr> else s1)"
  have s': "s' = s2" using p(2) assms(2) beginShutdown_closing [of s2 lp1 c s' lp' c'] by (auto simp: Let_def s2_def [symmetric] split: if_splits)
  have "sysOf s T h = sysOf s1 T h" by (simp add: sysOf_def p)
  then show ?thesis
    using push_online [of T ?ks deflate recv s1 h A] assms(3) by (simp add: s' s2_def keyEvents_def)
qed

lemma handle_online:
  assumes "handle inflate s lp c ev = Running s' lp' c'" "\<not> closing s'" "length T + length (userEvents s lp ev) < 2 ^ 56"
    "go_int (fst (snd (pollSize s)))" "go_int (snd (snd (pollSize s)))" "acks_from inflate s A ev"
  shows "online deflate recv (sysOf s T h, A) (sysOf s' (T @ userEvents s lp ev) h, A)"
proof (cases ev)
  case (CtxDone e)
  obtain s1 l1 c1 where b: "beginShutdown s (lp\<lparr>ctxLive := False, quitRequested := True\<rparr>) c = (s1, l1, c1)"
    by (metis prod_cases3)
  then show ?thesis using assms(1,2) CtxDone beginShutdown_closing [OF b] by simp
next
  case (Input b)
  obtain s1 l1 c1 where "handleInput s lp c b = (s1, l1, c1)" by (metis prod_cases3)
  then show ?thesis using handleInput_online assms(1,2,3) Input by (simp add: keyEvents_def)
next
  case (Datagram payload)
  obtain t err x c1 where r: "Transport.Recv netConn inflate applyHost (tr s) payload (scr s) c = (t, err, x, c1)"
    by (metis prod_cases4)
  then have "tr s' = t" using assms(1) Datagram by (auto simp: handleDatagram_def Let_def split: if_splits)
  then show ?thesis using Recv_online r assms(6) Datagram by simp
next
  case Resized
  obtain s1 width height where p: "pollSize s = (s1, width, height)" by (metis prod_cases3)
  then have "sysOf s1 T h = sysOf s T h" by (auto simp: pollSize_def sysOf_def)
  then show ?thesis
    using resize_online [of T width height deflate recv s1 h A] assms Resized p by (auto simp: pushSize_def)
next
  case Timer
  then show ?thesis using assms(1) by simp
qed

section \<open>What holds of every state\<close>

definition online_inv :: "whole \<times> u64 set \<times> time \<Rightarrow> bool" where
  "online_inv x \<longleftrightarrow>
     (case x of (z, A, t) \<Rightarrow>
        recovery_inv (sysOf (wSession z) (wTyped z) (wHeld z), A) \<and> times_ok (trSender (tr (wSession z))) t)"

lemma online_session:
  assumes "online_step deflate inflate recv (z, A, t) (z', A', t')"
  shows "online deflate recv (sysOf (wSession z) (wTyped z) (wHeld z), A) (sysOf (wSession z') (wTyped z') (wHeld z'), A')"
  using assms
proof cases
  case (iterate s1 l1 c1 d ev s2 l2 c2 e)
  have "online deflate recv (sysOf (wSession z) (wTyped z) (wHeld z), A) (sysOf s1 (wTyped z) (wHeld z), A)"
    by (rule loopTop_online [OF iterate(3,5,7)])
  also have "online deflate recv \<dots> (sysOf s2 (wTyped z @ userEvents s1 l1 ev) (wHeld z), A)"
    by (rule handle_online) (use iterate in simp_all)
  finally show ?thesis using iterate(1,2) by simp
next
  case (deliver inst)
  then show ?thesis using session_step.deliver [of inst "sysOf (wSession z) (wTyped z) (wHeld z)" netConn deflate recv A]
    by (auto simp: sysOf_def)
next
  case (acknowledge n)
  then show ?thesis using session_step.acknowledge [of "sysOf (wSession z) (wTyped z) (wHeld z)" n netConn deflate recv A]
    by (auto simp: sysOf_def)
qed simp

text \<open>The times of the queue under what the loop does between two ticks.\<close>

lemma times_ack: "times_ok s t \<Longrightarrow> times_ok (ProcessAcknowledgmentThrough s n) t"
proof (cases "ackedSuffix n (sentStates s)")
  case (Some kept)
  assume "times_ok s t"
  moreover obtain ds where "sentStates s = ds @ kept" using ackedSuffix_suffix [OF Some] by (metis suffixE)
  ultimately show ?thesis using Some by (auto simp: times_ok_def ProcessAcknowledgmentThrough_def sorted_append)
qed (simp add: ProcessAcknowledgmentThrough_def)

lemma times_misc [simp]:
  "times_ok (s\<lparr>currentState := u\<rparr>) t = times_ok s t" "times_ok (SetAckNum s n) t = times_ok s t"
  "times_ok (SetDataAck s) t = times_ok s t" "times_ok (fst (StartShutdown k s w)) t = times_ok s t"
  "times_ok (fst (WaitTime k s now w)) t = times_ok s t"
  by (simp_all add: times_ok_def SetAckNum_def SetDataAck_def StartShutdown_def WaitTime_def Let_def calculateTimers_fields comp_def
      split: prod.splits)

lemma times_acked: "times_ok s t \<Longrightarrow> times_ok (ackedSender s inst owed) t"
  using times_ack by (simp add: ackedSender_def Let_def)

lemma times_Recv:
  assumes "Transport.Recv k inflate applyCb u payload x w = (u', err, x', w')" "times_ok (trSender u) t"
  shows "times_ok (trSender u') t"
  using assms(1) by (cases rule: Recv_outcome) (use assms(2) times_acked in auto)

lemma times_begin:
  assumes "beginShutdown s lp c = (s', lp', c')" "times_ok (trSender (tr s)) t"
  shows "times_ok (trSender (tr s')) t"
proof -
  obtain sd c1 where b: "StartShutdown netConn (trSender (tr s)) c = (sd, c1)" by (metis prod.collapse)
  then have "times_ok sd t" using assms(2) times_misc(4) by (metis fst_conv)
  then show ?thesis using assms(1) b by (auto simp: beginShutdown_def setSender_def Let_def split: prod.splits)
qed

lemma times_handle:
  assumes "handle inflate s lp c ev = Running s' lp' c'" "times_ok (trSender (tr s)) t"
  shows "times_ok (trSender (tr s')) t"
proof (cases ev)
  case (CtxDone e)
  obtain s1 l1 c1 where b: "beginShutdown s (lp\<lparr>ctxLive := False, quitRequested := True\<rparr>) c = (s1, l1, c1)"
    by (metis prod_cases3)
  then show ?thesis using assms CtxDone times_begin [OF b] by simp
next
  case (Input b)
  obtain s1 l1 c1 where h: "handleInput s lp c b = (s1, l1, c1)" by (metis prod_cases3)
  obtain s2 lp2 quit where p: "tr s2 = tr s" "(s1, l1, c1) =
      (let ks = forwarded s lp b; s3 = (if ks \<noteq> [] then s2\<lparr>tr := setUserStream (tr s2) (PushKeys (UserStream_of (tr s2)) ks)\<rparr> else s2)
       in if quit then beginShutdown s3 lp2 c else (s3, lp2, c))"
    by (rule handleInput_parts [OF h])
  then have "times_ok (trSender (tr s1)) t"
    using times_begin [of _ lp2 c s1 l1 c1 t] assms(2) by (auto simp: Let_def setUserStream_def split: if_splits)
  then show ?thesis using assms(1) Input h by simp
next
  case (Datagram payload)
  obtain u err x c1 where r: "Transport.Recv netConn inflate applyHost (tr s) payload (scr s) c = (u, err, x, c1)"
    by (metis prod_cases4)
  then have "tr s' = u" using assms(1) Datagram by (auto simp: handleDatagram_def Let_def split: if_splits)
  then show ?thesis using times_Recv [OF r assms(2)] by simp
next
  case Resized
  then show ?thesis using assms by (auto simp: pushSize_def pollSize_def setUserStream_def Let_def split: prod.splits)
next
  case Timer
  then show ?thesis using assms by simp
qed

lemma online_inv_step:
  assumes "online_step deflate inflate recv x x'" "mosh_server recv" "online_inv x"
  shows "online_inv x'"
proof -
  obtain z A t z' A' t' where x: "x = (z, A, t)" "x' = (z', A', t')" by (metis prod_cases3)
  have r: "recovery_inv (sysOf (wSession z) (wTyped z) (wHeld z), A)" and times: "times_ok (trSender (tr (wSession z))) t"
    using assms(3) by (auto simp: x online_inv_def)
  have "recovery_inv (sysOf (wSession z') (wTyped z') (wHeld z'), A')"
    by (rule recovery_run [OF online_session [OF assms(1) [unfolded x]] assms(2) r])
  moreover have "times_ok (trSender (tr (wSession z'))) t'"
    using assms(1) unfolding x
  proof cases
    case (iterate s1 l1 c1 d ev s2 l2 c2 e)
    obtain sd err k now w where t: "Tick netConn deflate (trSender (tr (wSession z))) (wEnv z) = Some (sd, err, k)"
      and s1: "tr s1 = (tr (wSession z))\<lparr>trSender := fst (WaitTime netConn sd now w)\<rparr>"
      by (rule loopTop_open [OF iterate(3,5)])
    have "times_ok sd t'" by (rule times_Tick [OF t]) (use iterate times_ok_later [OF times] in auto)
    then have "times_ok (trSender (tr s1)) t'" by (simp add: s1)
    then show ?thesis using times_handle [OF iterate(4)] iterate(1) by simp
  qed (use times in simp_all)
  ultimately show ?thesis by (simp add: x online_inv_def)
qed

lemma online_inv_run:
  "(online_step deflate inflate recv)\<^sup>*\<^sup>* x x' \<Longrightarrow> mosh_server recv \<Longrightarrow> online_inv x \<Longrightarrow> online_inv x'"
  by (induction rule: rtranclp_induct) (auto intro: online_inv_step)

lemma online_start:
  assumes "New c out w = (Inr (s, k), w')" "pollSize s = (s1, width, height)" "go_int width" "go_int height" "mosh_server recv"
  shows "online_inv (\<lparr>wSession = pushSize s, wLoop = initLoop, wEnv = k, wTyped = [resizeEvent width height], wHeld = [0 \<mapsto> []]\<rparr>,
    {}, sentAt (sentStates (trSender (tr s)) ! 0))"
proof -
  have "\<exists>q. trSender (tr s) = fst (newSender netConn q)"
    using assms(1)
    by (auto simp: New_def Transport.New_def Let_def split: prod.splits sum.splits) (metis fst_conv)
  then obtain q where q: "trSender (tr s) = fst (newSender netConn q)" by blast
  then have "sysOf s [] [0 \<mapsto> []] = initSys netConn q" by (auto simp: sysOf_def initSys_def)
  moreover have "sysOf s1 [] [0 \<mapsto> []] = sysOf s [] [0 \<mapsto> []]" using assms(2) by (auto simp: pollSize_def sysOf_def)
  moreover have "online id recv (sysOf s1 [] [0 \<mapsto> []], {}) (sysOf (pushSize s) [resizeEvent width height] [0 \<mapsto> []], {})"
    using resize_online [of "[]" width height id recv s1 "[0 \<mapsto> []]" "{}"] assms(2,3,4) by (simp add: pushSize_def)
  ultimately have "recovery_inv (sysOf (pushSize s) [resizeEvent width height] [0 \<mapsto> []], {})"
    using recovery_run [OF _ assms(5)] recovery_init by metis
  moreover have "times_ok (trSender (tr s)) (sentAt (sentStates (trSender (tr s)) ! 0))"
    by (simp add: q newSender_def times_ok_def split: prod.splits)
  then have "times_ok (trSender (tr (pushSize s))) (sentAt (sentStates (trSender (tr s)) ! 0))"
    by (auto simp: pushSize_def pollSize_def setUserStream_def Let_def split: prod.splits)
  ultimately show ?thesis by (simp add: online_inv_def)
qed

lemma ackedSuffix_map:
  "(\<And>st. stateNum (f st) = stateNum st) \<Longrightarrow> ackedSuffix n (map f sts) = map_option (map f) (ackedSuffix n sts)"
  by (induction sts) simp_all

lemma front_after_timers:
  assumes "sentStates s \<noteq> []"
  shows "stream (sentStates (ProcessAcknowledgmentThrough (calculateTimers k s now w) n) ! 0) =
    Subtract (stream (sentStates (ProcessAcknowledgmentThrough s n) ! 0)) (cutting s)"
proof -
  let ?f = "\<lambda>st. st\<lparr>stream := Subtract (stream st) (cutting s)\<rparr>"
  have m: "ackedSuffix n (map ?f (sentStates s)) = map_option (map ?f) (ackedSuffix n (sentStates s))"
    by (rule ackedSuffix_map) simp
  show ?thesis
  proof (cases "ackedSuffix n (sentStates s)")
    case None
    then show ?thesis using m assms by (simp add: ProcessAcknowledgmentThrough_def calculateTimers_fields)
  next
    case (Some kept)
    then have "kept \<noteq> []" using ackedSuffix_suffix by blast
    then show ?thesis using m Some by (simp add: ProcessAcknowledgmentThrough_def calculateTimers_fields)
  qed
qed

section \<open>A link on which every write succeeds\<close>

definition steadyWorld :: "time \<Rightarrow> world" where
  "steadyWorld t = goodWorld\<lparr>script := (\<lambda>n. (script goodWorld n)\<lparr>ansTime := t\<rparr>)\<rparr>"

definition steadyEnv :: "time \<Rightarrow> env" where
  "steadyEnv t = (newConnection ''h'' 0 (newSession (replicate 16 0)) t, steadyWorld t)"

definition steady :: "time \<Rightarrow> env \<Rightarrow> bool" where
  "steady t e \<longleftrightarrow>
     (case e of (c, w) \<Rightarrow> session c = newSession (replicate 16 0) \<and> script w = script (steadyWorld t))"

lemma steady_answers:
  "steady t (c, w) \<Longrightarrow> ansTime (script w n) = t" "steady t (c, w) \<Longrightarrow> ansErr (script w n) = None"
  "steady t (c, w) \<Longrightarrow> ansDial (script w n) = Some (Inr 7)"
  by (simp_all add: steady_def steadyWorld_def goodWorld_def)

lemma steadyEnv_steady: "steady t (steadyEnv t)"
  by (simp add: steady_def steadyEnv_def newConnection_def)

lemma steady_now: "steady t e \<Longrightarrow> fst (connNow netConn e) = t"
  by (cases e) (simp add: netConn_def timeNow_def call_def steady_answers)

lemma steady_hop:
  assumes "steady t (c, w)" "maybeHopPort c now w = (c', h, w')"
  shows "session c' = session c"
  using assms by (auto simp: maybeHopPort_def redial_def dialUDP_def sockClose_def timeNow_def call_def Let_def
      split: if_splits option.splits sum.splits)

lemma steady_Send:
  assumes "steady t (c, w)" "Send c p w = (c', e, w')"
  shows "steady t (c', w') \<and> (length p < 2 ^ 32 \<longrightarrow> e = None)"
proof -
  have k: "session c = newSession (replicate 16 0)" and sc: "script w = script (steadyWorld t)"
    using assms(1) by (auto simp: steady_def)
  obtain now w1 where 1: "timeNow w = (now, w1)" by fastforce
  obtain c2 h w2 where 2: "maybeHopPort c now w1 = (c2, h, w2)" by (metis prod_cases3)
  obtain c3 q where 3: "sendHeader c2 now p = (c3, q)" by fastforce
  have w1: "script w1 = script w" and w2: "script w2 = script w1"
    using timeNow_extends [OF 1] maybeHopPort_extends [OF 2] by (auto simp: extends_def)
  have "session c2 = session c" using steady_hop [OF _ 2, of t] k sc w1 by (simp add: steady_def)
  then have k3: "session c3 = newSession (replicate 16 0)" and pl: "Payload q = p"
    using k 3 by (auto simp: sendHeader_def Let_def)
  have wr: "writeDatagram d b w2 = (e2, w3) \<Longrightarrow> e2 = None \<and> script w3 = script w2" for d b e2 w3
    using sc w1 w2 by (auto simp: writeDatagram_def timeNow_def call_def Let_def steadyWorld_def goodWorld_def)
  have sent: "Encrypt_Message (session c3) (toMessage q) = Inr wire \<Longrightarrow> e = None \<and> c' = c3 \<and> script w' = script w2" for wire
    using assms(2) wr [of c3 wire] by (auto simp: Send_def 1 2 3 transmit_def Let_def split: prod.splits)
  have fail: "Encrypt_Message (session c3) (toMessage q) = Inl er \<Longrightarrow> c' = c3 \<and> script w' = script w2" for er
    using assms(2) by (auto simp: Send_def 1 2 3 Let_def)
  have "steady t (c', w')"
    using sent fail k3 sc w1 w2 by (cases "Encrypt_Message (session c3) (toMessage q)") (auto simp: steady_def)
  moreover have "e = None" if "length p < 2 ^ 32"
  proof -
    have "sealable (toMessage q)" using that pl by (simp add: sealable_def toMessage_def Let_def)
    then show ?thesis using Encrypt_newSession [of "toMessage q" "replicate 16 0"] sent k3 by auto
  qed
  ultimately show ?thesis by blast
qed

interpretation steady_link: conn_invariant netConn "steady t" for t
proof
  fix e :: env and p n
  assume I: "steady t e"
  obtain c w where e: "e = (c, w)" by fastforce
  obtain c' r w' where s: "Send c p w = (c', r, w')" by (metis prod_cases3)
  show "steady t (snd (connSend netConn p e))" using steady_Send [OF _ s] I by (simp add: netConn_def e s)
  show "steady t (snd (connNow netConn e))" using I by (simp add: netConn_def e timeNow_def call_def steady_def)
  show "steady t (snd (connRand netConn n e))" using I by (simp add: netConn_def e randRead_def call_def steady_def)
qed

lemma made_size:
  assumes "makeFragments deflate fr b u = (fr', Some fs)" "10 < u" "f \<in> set fs"
  shows "int (length (marshal f)) \<le> u"
proof -
  have "contents f \<in> set (chunks (nat (u - 10)) (deflate b))"
    using makeFragments_spec [OF assms(2,1)] assms(3) by (auto simp: fragments_of_def)
  then have "length (contents f) \<le> nat (u - 10)" using length_chunk assms(2) by simp
  then show ?thesis using assms(2) by (simp add: marshal_def Let_def)
qed

lemma steady_fragments:
  assumes "steady t e" "\<forall>f \<in> set fs. length (marshal f) < 2 ^ 32" "sendFragments netConn dl fs e = (r, e')"
  shows "r = None"
  using assms
proof (induction fs arbitrary: e)
  case (Cons f fs)
  obtain now e1 where n: "connNow netConn e = (now, e1)" by (rule prod.exhaust)
  obtain r1 e2 where s: "connSend netConn (marshal f) e1 = (r1, e2)" by (rule prod.exhaust)
  have e1: "steady t e1" by (rule steady_link.now_keepsE [OF Cons.prems(1) n])
  then have e2: "steady t e2" using steady_link.send_keeps [of t e1 "marshal f"] s by simp
  obtain c w where c: "e1 = (c, w)" by fastforce
  obtain c' q w' where q: "Send c (marshal f) w = (c', q, w')" by (metis prod_cases3)
  then have "r1 = q" using s by (simp add: netConn_def c)
  then have "r1 = None" using steady_Send [OF e1 [unfolded c] q] Cons.prems(2) by simp
  then show ?case using Cons.prems(2,3) Cons.IH [OF e2] n s by (auto split: if_splits)
qed simp

lemma steady_Tick:
  assumes "Tick netConn deflate s e = Some (s', r, e')" "steady t e"
  shows "r = None"
proof -
  obtain now e1 where n: "connNow netConn e = (now, e1)" by (rule prod.exhaust)
  have e1: "steady t e1" by (rule steady_link.now_keepsE [OF assms(2) n])
  from Tick_once [OF assms(1) n] show ?thesis
  proof (elim disjE exE conjE)
    fix diff u
    assume "sent_once netConn deflate s e1 s' r e' diff"
    then obtain v m s2 where v: "sendInFragments netConn deflate v diff m e1 = Some (s2, r, e')" by (auto simp: sent_once_def)
    obtain chaff x t0 x2 mtu fs where q: "makeChaff netConn e1 = (chaff, x)" "connNow netConn x = (t0, x2)" "10 < mtu"
      "mtu = connMTU netConn x2" "makeFragments deflate (fragr v) (Marshal (mkInstruction v diff m chaff)) mtu = (fragr s2, Some fs)"
      "sendFragments netConn (t0 + maxSendBurst) fs x2 = (r, e')"
      by (rule sendInFragments_out [OF v net.sender_conn_axioms])
    have "steady t x2" using steady_link.makeChaff_keeps [OF e1 q(1)] steady_link.now_keepsE q(2) by blast
    moreover have "mtu \<le> 500"
      by (cases x2) (simp add: q(4) netConn_def MTU_def DefaultSendMTU_def network_AddedBytes_def crypto_AddedBytes_def)
    then have "\<forall>f \<in> set fs. length (marshal f) < 2 ^ 32" using made_size [OF q(5,3)] by fastforce
    ultimately show ?thesis using steady_fragments q(6) by blast
  qed
qed

text \<open>The first tick after the start sends the first state, under number 1.\<close>

definition startSender :: "time \<Rightarrow> time \<Rightarrow> UserStream \<Rightarrow> sender" where
  "startSender t1 t2 u =
     \<lparr>currentState = u, sentStates = [\<lparr>sentAt = t1, stateNum = 0, stream = emptyStream\<rparr>], assumedReceiverStateIdx = 0,
      fragr = zeroFragmenter, nextAckTime = t2, nextSendTime = 0, haveSendTime = False, shutdownInProgress = False,
      shutdownTries = 0, shutdownStart = 0, ackNum = 0, pendingDataAck = False, mindelayClock = 0, haveMindelay = False,
      emitted = []\<rparr>"

lemma start_timers:
  "sentStates (calculateTimers k (startSender t1 t2 u) now w) = sentStates (startSender t1 t2 u)"
  "currentState (calculateTimers k (startSender t1 t2 u) now w) = u"
  "nextAckTime (calculateTimers k (startSender t1 t2 u) now w) = t2"
  "assumedReceiverStateIdx (calculateTimers k (startSender t1 t2 u) now w) = 0"
  by (simp_all add: calculateTimers_fields cutting_def startSender_def Subtract_empty)
     (simp add: calculateTimers_def updateAssumedReceiverState_def rationalizeStates_def scheduleSend_def Let_def Subtract_empty ShutdownNum_def)

lemma start_inv_sender: "sender_inv (startSender t1 t2 u)"
  by (simp add: sender_inv_def startSender_def stream_prefix_def emptyStream_def)

lemma first_tick:
  assumes "Tick netConn deflate (startSender t1 t2 u) e = Some (sd, r, e')" "steady t e" "t2 \<le> t" "u \<noteq> emptyStream"
  shows "r = None" "entries sd = [(0, emptyStream), (1, u)]" "currentState sd = u" "\<not> shutdownInProgress sd"
proof -
  let ?s = "startSender t1 t2 u"
  show r: "r = None" by (rule steady_Tick [OF assms(1,2)])
  obtain now e1 where n: "connNow netConn e = (now, e1)" by (rule prod.exhaust)
  then have "now = t" using steady_now [OF assms(2)] by simp
  define s1 where "s1 = calculateTimers netConn ?s now e1"
  have s1: "sentStates s1 = sentStates ?s" "currentState s1 = u" "nextAckTime s1 = t2" "assumedReceiverStateIdx s1 = 0"
    "\<not> shutdownInProgress s1"
    by (simp_all add: s1_def start_timers) (simp add: calculateTimers_fields startSender_def)
  have due: "\<not> (now < nextAckTime s1 \<and> (\<not> haveSendTime s1 \<or> now < nextSendTime s1))" using assms(3) s1 \<open>now = t\<close> by simp
  have ne: "u \<noteq> stream (sentStates ?s ! 0)" using assms(4) by (simp add: startSender_def)
  have diff: "DiffFrom (currentState s1) (stream (sentStates s1 ! assumedReceiverStateIdx s1)) \<noteq> []"
    using diff_from_front [OF start_inv_sender, of t1 t2 u] ne s1 by (simp add: startSender_def)
  obtain inst where t: "tick_sent s1 sd inst"
    using tick_due_sends [OF assms(1) start_inv_sender n s1_def due diff] r by blast
  have e: "entries s1 = [(0, emptyStream)]" using s1(1) by (simp add: entries_def startSender_def)
  have neq: "currentState s1 \<noteq> snd (last (entries s1))" using s1(2) e assms(4) by simp
  have "NewNum inst = 1 \<and> entries sd = addEntry (entries s1) (NewNum inst, currentState s1)"
    using t s1(5) e neq unfolding tick_sent_def by auto
  then show "entries sd = [(0, emptyStream), (1, u)]" using e s1(2) by (simp add: addEntry_def)
  obtain now' w1 where "connNow netConn e = (now', w1)" "tick_result (calculateTimers netConn ?s now' w1) sd r"
    using Tick_spec [OF assms(1) start_inv_sender] by metis
  then show "currentState sd = u" "\<not> shutdownInProgress sd"
    using s1(2,5) n by (auto simp: tick_result_def s1_def)
qed

text \<open>The state of the client after its first iteration.\<close>

lemma first_timers:
  assumes "entries sd = [(0, emptyStream), (1, u)]" "currentState sd = u"
  shows "entries (fst (WaitTime netConn sd now w)) = [(0, emptyStream), (1, u)]"
    "currentState (fst (WaitTime netConn sd now w)) = u"
proof -
  have "sentStates sd \<noteq> []" using assms(1) by (auto simp: entries_def)
  then have "cutting sd = emptyStream" using assms(1) nth_entries [of 0 sd] by (simp add: cutting_def)
  then show "entries (fst (WaitTime netConn sd now w)) = [(0, emptyStream), (1, u)]" "currentState (fst (WaitTime netConn sd now w)) = u"
    using assms by (simp_all add: WaitTime_def Let_def entries_calculateTimers calculateTimers_fields Subtract_empty)
qed

section \<open>Claims\<close>


lemma loopTop_runs:
  assumes "\<not> remoteShutdown (tr s)" "\<not> closing s" "sender_inv (trSender (tr s))"
  shows "\<exists>s' c' d. loopTop deflate s lp c = Some (Running s' lp c', d) \<and> \<not> closing s' \<and> \<not> remoteShutdown (tr s')"
proof -
  obtain sd r c1 where t: "Tick netConn deflate (trSender (tr s)) c = Some (sd, r, c1)"
    using net.Tick_returns by (metis prod_cases3)
  obtain now w where "tick_result (calculateTimers netConn (trSender (tr s)) now w) sd r" using Tick_spec [OF t assms(3)] by metis
  then have sd: "\<not> shutdownInProgress sd" using assms(2) by (simp add: tick_result_def calculateTimers_fields)
  have rs: "\<not> RemoteShutdown (tr (setSender s sd))" using assms(1) by (simp add: RemoteShutdown_def setSender_def)
  have fin: "shutdownDone (setSender s sd) lp c1 = (False, c1)" using sd by (simp add: shutdownDone_def setSender_def ShutdownInProgress_def Let_def)
  obtain now2 c2 where n: "connNow netConn c1 = (now2, c2)" by (rule prod.exhaust)
  obtain sd2 wt where w: "WaitTime netConn sd now2 c2 = (sd2, wt)" by (rule prod.exhaust)
  have "\<not> shutdownInProgress sd2" using WaitTime_closing [of netConn sd now2 c2] w sd by simp
  moreover have "loopTop deflate s lp c = Some (Running (setSender (setSender s sd) sd2) lp c2, clampWait wt)"
    unfolding loopTop_def t option.case prod.case Let_def using rs fin n w by (simp add: setSender_def)
  ultimately show ?thesis using assms(1) by (auto simp: setSender_def)
qed

lemma plain_start:
  assumes "New plainConfig plainOutput goodWorld = (Inr (s, k), w')" "snd (pollSize s) = (80, 24)"
  obtains t1 t2 where "trSender (tr s) = startSender t1 t2 emptyStream"
    "trSender (tr (pushSize s)) = startSender t1 t2 (PushResize emptyStream 80 24)" "\<not> remoteShutdown (tr (pushSize s))"
    "cfg (pushSize s) = defaults plainConfig"
proof -
  have c: "cfg s = defaults plainConfig"
    using assms(1) by (auto simp: New_def Let_def split: prod.splits sum.splits)
  have "\<exists>t1 t2. tr s = \<lparr>trSender = startSender t1 t2 emptyStream, trAssembly = zeroAssembly, latestNum = 0, remoteShutdown = False\<rparr>"
    using assms(1) by (auto simp: New_def Transport.New_def newSender_def startSender_def Let_def split: prod.splits sum.splits)
  then obtain t1 t2 where t: "tr s = \<lparr>trSender = startSender t1 t2 emptyStream, trAssembly = zeroAssembly, latestNum = 0, remoteShutdown = False\<rparr>"
    by blast
  obtain s1 where p: "pollSize s = (s1, 80, 24)" using assms(2) by (metis prod.collapse)
  then have "tr s1 = tr s" by (auto simp: pollSize_def)
  then have "trSender (tr (pushSize s)) = startSender t1 t2 (PushResize emptyStream 80 24)" "\<not> remoteShutdown (tr (pushSize s))"
    using t by (simp_all add: pushSize_def p setUserStream_def UserStream_of_def State_def startSender_def)
  moreover have "cfg (pushSize s) = defaults plainConfig" using c by (simp add: pushSize_def pollSize_def Let_def split: prod.splits)
  ultimately show thesis using that t by simp
qed

text \<open>A first iteration that sends the window size, and a second that comes two seconds later.\<close>

lemma sample_online:
  obtains s k w' s1 t1 t z where "New plainConfig plainOutput goodWorld = (Inr (s, k), w')" "snd (pollSize s) = (80, 24)"
    "sentAt (sentStates (trSender (tr s)) ! 0) = t1"
    "(online_step (\<lambda>b. b) (\<lambda>n b. Some (take n b)) plainReceiver)\<^sup>*\<^sup>*
       (\<lparr>wSession = pushSize s, wLoop = initLoop, wEnv = k, wTyped = [resizeEvent 80 24], wHeld = [0 \<mapsto> []]\<rparr>, {}, t1) (z, {}, t)"
    "wSession z = s1" "wEnv z = steadyEnv (t + 2 * second)" "wTyped z = [resizeEvent 80 24]" "\<not> closing s1" "\<not> remoteShutdown (tr s1)"
    "entries (trSender (tr s1)) = [(0, emptyStream), (1, PushResize emptyStream 80 24)]"
    "currentState (trSender (tr s1)) = PushResize emptyStream 80 24"
proof -
  let ?inf = "\<lambda>n b. Some (take n b)"
  let ?u = "PushResize emptyStream 80 24"
  let ?R = "online_step (\<lambda>b. b) ?inf plainReceiver"
  obtain s k w' where n: "New plainConfig plainOutput goodWorld = (Inr (s, k), w')" "snd (pollSize s) = (80, 24)"
    using plain_New by blast
  obtain t1 t2 where st: "trSender (tr s) = startSender t1 t2 emptyStream" "trSender (tr (pushSize s)) = startSender t1 t2 ?u"
    and rs: "\<not> remoteShutdown (tr (pushSize s))" and cf: "cfg (pushSize s) = defaults plainConfig"
    by (rule plain_start [OF n])
  define t where "t = max t1 t2"
  define z0 where "z0 = \<lparr>wSession = pushSize s, wLoop = initLoop, wEnv = k, wTyped = [resizeEvent 80 24], wHeld = [0 \<mapsto> []]\<rparr>"
  have "\<not> closing (pushSize s)" "sender_inv (trSender (tr (pushSize s)))"
    using st(2) start_inv_sender by (simp_all add: startSender_def)
  then obtain s1 c1 d1 where top: "loopTop (\<lambda>b. b) (pushSize s) initLoop (steadyEnv t) = Some (Running s1 initLoop c1, d1)"
    and s1: "\<not> closing s1" "\<not> remoteShutdown (tr s1)"
    using loopTop_runs [OF rs] by blast
  obtain sd r c2 now2 w2 where tick: "Tick netConn (\<lambda>b. b) (startSender t1 t2 ?u) (steadyEnv t) = Some (sd, r, c2)"
    and tr1: "tr s1 = (tr (pushSize s))\<lparr>trSender := fst (WaitTime netConn sd now2 w2)\<rparr>" and cf1: "cfg s1 = defaults plainConfig"
    using loopTop_open [OF top s1(1)] unfolding st(2) cf by metis
  have "t2 \<le> t" "?u \<noteq> emptyStream" by (simp_all add: t_def PushResize_def emptyStream_def)
  note first = first_tick [OF tick steadyEnv_steady this]
  have sd1: "entries (trSender (tr s1)) = [(0, emptyStream), (1, ?u)]" "currentState (trSender (tr s1)) = ?u"
    using first_timers [OF first(2,3)] by (simp_all add: tr1)
  define z1 where "z1 = z0\<lparr>wSession := s1, wLoop := initLoop, wEnv := steadyEnv (t + 2 * second)\<rparr>"
  have 1: "?R (z0, {}, t1) (z0\<lparr>wEnv := steadyEnv t\<rparr>, {}, t1)" by (rule online_step.pump)
  have num0: "stateNum (last (sentStates (startSender t1 t2 ?u))) < ShutdownNum - 1"
    by (simp add: startSender_def ShutdownNum_def word_less_nat_alt)
  have size: "go_int (fst (snd (pollSize s1))) \<and> go_int (snd (snd (pollSize s1)))"
    by (simp add: pollSize_def cf1 defaults_def plainConfig_def go_int_def)
  obtain e where clock: "connNow netConn (steadyEnv t) = (t, e)" using steady_now [OF steadyEnv_steady] by (metis prod.collapse)
  have 2: "?R (z0\<lparr>wEnv := steadyEnv t\<rparr>, {}, t1) (z0\<lparr>wSession := s1, wLoop := initLoop, wEnv := c1\<rparr>, {}, t)"
    using online_step.iterate [of "\<lambda>b. b" "z0\<lparr>wEnv := steadyEnv t\<rparr>" s1 initLoop c1 d1 ?inf Timer s1 initLoop c1 "{}" t1 t e plainReceiver]
      top s1 num0 size clock st by (simp add: z0_def acks_from_def t_def)
  have 3: "?R (z0\<lparr>wSession := s1, wLoop := initLoop, wEnv := c1\<rparr>, {}, t) (z1, {}, t)"
    using online_step.pump [of "\<lambda>b. b" ?inf plainReceiver "z0\<lparr>wSession := s1, wLoop := initLoop, wEnv := c1\<rparr>" "{}" t] by (simp add: z1_def)
  have "?R\<^sup>*\<^sup>* (z0, {}, t1) (z1, {}, t)" using 1 2 3 by (meson converse_rtranclp_into_rtranclp rtranclp.rtrancl_refl)
  moreover have "sentAt (sentStates (trSender (tr s)) ! 0) = t1" by (simp add: st startSender_def)
  ultimately show thesis using that n s1 sd1 by (simp add: z0_def z1_def)
qed


end
