(* ===== verification/Delivery.thy ===== *)
theory Delivery
  imports Emission
begin

unbundle bit_operations_syntax

text \<open>
  From instructions to the payloads of datagrams: \<open>Sync\<close> delivers what \<open>emitted\<close> records; here the network
  delivers the fragments that \<^verbatim>\<open>conn.Send\<close> accepted, and a server reassembles them. Every run of the system at this level is a run of \<open>Sync\<close>, so what is
  proved there of instructions holds of the bytes.
\<close>

section \<open>Fragments that were made\<close>

lemma marshal_inj: "valid_fragment f \<Longrightarrow> valid_fragment g \<Longrightarrow> marshal f = marshal g \<Longrightarrow> f = g"
  using frag.dec_enc by (metis sum.inject(2))

lemma uncompress_deflate:
  assumes "zlib deflate inflate" "uncompress inflate (deflate b) = Inr p"
  shows "p = b"
  using assms by (auto simp: zlib_def uncompress_def split: if_splits)

lemma deflate_inj: "zlib deflate inflate \<Longrightarrow> deflate a = deflate b \<Longrightarrow> a = b"
  unfolding zlib_def by (metis option.inject take_all_iff linorder_linear)

text \<open>\<open>G\<close> and \<open>mtu\<close> give the instruction and the MTU behind each fragment id so far.\<close>

definition made :: "(bytes \<Rightarrow> bytes) \<Rightarrow> (u64 \<Rightarrow> Instruction) \<Rightarrow> (u64 \<Rightarrow> int) \<Rightarrow> u64 \<Rightarrow> fragment list" where
  "made deflate G mtu fid = fragments_of fid 0 (chunks (nat (mtu fid - 10)) (deflate (Marshal (G fid))))"

definition genuine ::
  "(bytes \<Rightarrow> bytes) \<Rightarrow> (u64 \<Rightarrow> Instruction) \<Rightarrow> (u64 \<Rightarrow> int) \<Rightarrow> fragmenter \<Rightarrow> Instruction set \<Rightarrow> bytes set \<Rightarrow> bool" where
  "genuine deflate G mtu fr E P \<longleftrightarrow>
     (\<forall>f. valid_fragment f \<longrightarrow> marshal f \<in> P \<longrightarrow>
        0 < fragId f \<and> fragId f \<le> nextID fr \<and> f \<in> set (made deflate G mtu (fragId f))) \<and>
     (\<forall>fid. 0 < fid \<longrightarrow> fid \<le> nextID fr \<longrightarrow>
        wf_instruction (G fid) \<and> fragment_set (made deflate G mtu fid) \<and>
        (G fid \<in> E \<or> marshal (last (made deflate G mtu fid)) \<notin> P)) \<and>
     (if nextID fr = 0 then lastMTU fr = 0
      else lastPayload fr = deflate (Marshal (G (nextID fr))) \<and> lastMTU fr = mtu (nextID fr))"

lemma genuine_made:
  assumes "genuine deflate G mtu fr E P" "valid_fragment f" "marshal f \<in> P"
  shows "0 < fragId f" "fragId f \<le> nextID fr" "f \<in> set (made deflate G mtu (fragId f))"
  using assms by (auto simp: genuine_def)

lemma genuine_id:
  assumes "genuine deflate G mtu fr E P" "0 < fid" "fid \<le> nextID fr"
  shows "wf_instruction (G fid)" "fragment_set (made deflate G mtu fid)" "G fid \<in> E \<or> marshal (last (made deflate G mtu fid)) \<notin> P"
  using assms by (auto simp: genuine_def)

lemma fragId_made: "f \<in> set (made deflate G mtu fid) \<Longrightarrow> fragId f = fid"
  by (auto simp: made_def fragments_of_def)

lemma last_set: "fragment_set fs \<Longrightarrow> last fs \<in> set fs"
  by (simp add: fragment_set_def)

lemma last_unsent:
  assumes "fragment_set fs" "m < length fs"
  shows "last fs \<notin> set (take m fs)"
proof
  assume "last fs \<in> set (take m fs)"
  then obtain i where i: "i < m" "last fs = fs ! i" using assms(2) by (auto simp: in_set_conv_nth)
  moreover have "last fs = fs ! (length fs - 1)" using assms by (simp add: fragment_set_def last_conv_nth)
  moreover have "unat (fragNum (fs ! i)) = i" "unat (fragNum (fs ! (length fs - 1))) = length fs - 1"
    using assms i(1) by (auto simp: fragment_set_def)
  ultimately show False using assms(2) by simp
qed

text \<open>Sending fragments of one id adds only fragments of that id.\<close>

lemma sent_fragment:
  assumes "fragment_set fs" "valid_fragment f" "marshal f \<in> marshal ` set (take m fs)"
  shows "f \<in> set (take m fs)"
proof -
  obtain g where g: "g \<in> set (take m fs)" "marshal f = marshal g" using assms(3) by blast
  then have "valid_fragment g" using fragment_set_valid [OF assms(1)] by (meson in_set_takeD)
  then show ?thesis using marshal_inj [OF assms(2)] g by metis
qed

lemma genuine_resend:
  assumes g: "genuine deflate G mtu fr E P" and id: "0 < nextID fr"
    and m: "G (nextID fr) \<in> E' \<or> m < length (made deflate G mtu (nextID fr))" and E: "E \<subseteq> E'"
  shows "genuine deflate G mtu fr E' (P \<union> marshal ` set (take m (made deflate G mtu (nextID fr))))"
proof -
  let ?fs = "made deflate G mtu (nextID fr)"
  have fs: "fragment_set ?fs" by (rule genuine_id [OF g id order_refl])
  have a: "0 < fragId f \<and> fragId f \<le> nextID fr \<and> f \<in> set (made deflate G mtu (fragId f))"
    if "valid_fragment f" "marshal f \<in> P \<union> marshal ` set (take m ?fs)" for f
  proof (cases "marshal f \<in> P")
    case True
    then show ?thesis using genuine_made [OF g that(1)] by blast
  next
    case False
    then have "f \<in> set (take m ?fs)" using that sent_fragment [OF fs] by blast
    then have "f \<in> set ?fs" by (meson in_set_takeD)
    then show ?thesis using fragId_made [of f] id by auto
  qed
  have b: "G fid \<in> E' \<or> marshal (last (made deflate G mtu fid)) \<notin> P \<union> marshal ` set (take m ?fs)"
    if fid: "0 < fid" "fid \<le> nextID fr" for fid
  proof (cases "G fid \<in> E")
    case True
    then show ?thesis using E by blast
  next
    case False
    have set: "fragment_set (made deflate G mtu fid)" by (rule genuine_id [OF g fid])
    have old: "marshal (last (made deflate G mtu fid)) \<notin> P" using genuine_id(3) [OF g fid] False by blast
    have "G fid \<in> E'" if new: "marshal (last (made deflate G mtu fid)) \<in> marshal ` set (take m ?fs)"
    proof -
      have "last (made deflate G mtu fid) \<in> set (take m ?fs)"
        using sent_fragment [OF fs fragment_set_valid [OF set last_set [OF set]] new] .
      moreover from this have "fid = nextID fr" using fragId_made last_set [OF set] by (metis in_set_takeD)
      ultimately show ?thesis using m last_unsent [OF fs] by blast
    qed
    then show ?thesis using old by blast
  qed
  show ?thesis using g a b unfolding genuine_def by (intro conjI allI impI) simp_all
qed

lemma next_id:
  assumes "n \<noteq> NOT (0 :: u64)"
  shows "n < n + 1" "x \<le> n + 1 \<Longrightarrow> x = n + 1 \<or> x \<le> n"
proof -
  have "1 + n \<noteq> 0"
  proof
    assume "1 + n = 0"
    then have "n = - 1" by (simp add: eq_neg_iff_add_eq_0 add.commute)
    then show False using assms by simp
  qed
  then have s: "unat (n + 1) = Suc (unat n)" using unatSuc [of n] by (simp add: add.commute)
  show "n < n + 1" by (simp add: word_less_nat_alt s)
  show "x \<le> n + 1 \<Longrightarrow> x = n + 1 \<or> x \<le> n" unfolding word_le_nat_alt s le_Suc_eq using s by (metis unsigned_word_eqI)
qed

lemma makeFragments_new:
  assumes "makeFragments deflate fr inst u = (fr', fo)" "fr' \<noteq> fr"
  shows "lastPayload fr' = deflate inst" "lastMTU fr' = u"
proof -
  have "fr' = \<lparr>nextID = nextID fr + 1, lastPayload = deflate inst, lastMTU = u\<rparr>"
    using assms by (auto simp: makeFragments_def compress_def Let_def split: if_splits)
  then show "lastPayload fr' = deflate inst" "lastMTU fr' = u" by simp_all
qed

lemma made_update: "fid \<noteq> n \<Longrightarrow> made deflate (G(n := inst)) (mtu(n := u)) fid = made deflate G mtu fid"
  by (simp add: made_def)

lemma genuine_next:
  assumes g: "genuine deflate G mtu fr E P" and room: "nextID fr \<noteq> NOT 0"
    and fr': "fr' = \<lparr>nextID = nextID fr + 1, lastPayload = deflate (Marshal inst), lastMTU = u\<rparr>"
    and wf: "wf_instruction inst"
    and set: "fragment_set (made deflate (G(nextID fr + 1 := inst)) (mtu(nextID fr + 1 := u)) (nextID fr + 1))"
  shows "genuine deflate (G(nextID fr + 1 := inst)) (mtu(nextID fr + 1 := u)) fr' E P" "0 < nextID fr'"
proof -
  let ?n = "nextID fr + 1"
  let ?G = "G(?n := inst)"
  let ?u = "mtu(?n := u)"
  have lt: "nextID fr < ?n" by (rule next_id [OF room])
  show pos: "0 < nextID fr'" using lt by (simp add: fr' word_less_nat_alt)
  have a: "0 < fragId f \<and> fragId f \<le> nextID fr' \<and> f \<in> set (made deflate ?G ?u (fragId f))"
    if "valid_fragment f" "marshal f \<in> P" for f
  proof -
    have "fragId f < ?n" using genuine_made(2) [OF g that] lt by simp
    then show ?thesis using genuine_made [OF g that] by (simp add: made_update fr')
  qed
  have b: "wf_instruction (?G fid) \<and> fragment_set (made deflate ?G ?u fid) \<and> (?G fid \<in> E \<or> marshal (last (made deflate ?G ?u fid)) \<notin> P)"
    if fid: "0 < fid" "fid \<le> nextID fr'" for fid
  proof (cases "fid = ?n")
    case True
    let ?f = "last (made deflate ?G ?u ?n)"
    have f: "valid_fragment ?f" "fragId ?f = ?n"
      using fragment_set_valid [OF set last_set [OF set]] fragId_made [OF last_set [OF set]] by simp_all
    have "marshal ?f \<notin> P" using genuine_made(2) [OF g f(1)] lt f(2) by auto
    then show ?thesis using wf set True by simp
  next
    case False
    then have "fid \<le> nextID fr" using next_id(2) [OF room, of fid] fid(2) by (simp add: fr')
    then show ?thesis using genuine_id [OF g fid(1)] False by (simp add: made_update)
  qed
  have "nextID fr' \<noteq> 0" using pos by auto
  then show "genuine deflate ?G ?u fr' E P"
    using a b unfolding genuine_def by (intro conjI allI impI) (simp_all add: fr')
qed

lemma genuine_send:
  assumes g: "genuine deflate G mtu fr E P" and z: "zlib deflate inflate" and wf: "wf_instruction inst" and u: "10 < u"
    and f: "makeFragments deflate fr (Marshal inst) u = (fr', Some fs)"
    and room: "fr' \<noteq> fr \<longrightarrow> nextID fr \<noteq> NOT 0 \<and> fragment_set fs"
    and m: "inst \<in> E' \<or> m < length fs" and E: "E \<subseteq> E'"
  shows "\<exists>G' mtu'. genuine deflate G' mtu' fr' E' (P \<union> marshal ` set (take m fs))"
proof -
  have fs: "fs = fragments_of (nextID fr') 0 (chunks (nat (u - 10)) (deflate (Marshal inst)))"
    using makeFragments_spec [OF u f] by simp
  show ?thesis
  proof (cases "deflate (Marshal inst) \<noteq> lastPayload fr \<or> u \<noteq> lastMTU fr")
    case True
    then have fr': "fr' = \<lparr>nextID = nextID fr + 1, lastPayload = deflate (Marshal inst), lastMTU = u\<rparr>"
      using f by (auto simp: makeFragments_def compress_def Let_def)
    let ?G = "G(nextID fr + 1 := inst)"
    let ?u = "mtu(nextID fr + 1 := u)"
    have made: "made deflate ?G ?u (nextID fr + 1) = fs" using fs by (simp add: made_def fr')
    have "lastPayload fr' = deflate (Marshal inst)" "lastMTU fr' = u" by (simp_all add: fr')
    then have "fr' \<noteq> fr" using True by auto
    then have r: "nextID fr \<noteq> NOT 0" "fragment_set fs" using room by simp_all
    have "genuine deflate ?G ?u fr' E P" "0 < nextID fr'"
      by (rule genuine_next [OF g r(1) fr' wf r(2) [folded made]])+
    then have "genuine deflate ?G ?u fr' E' (P \<union> marshal ` set (take m fs))"
      using genuine_resend [of deflate ?G ?u fr' E P E' m] m E made by (simp add: fr')
    then show ?thesis by blast
  next
    case False
    then have fr': "fr' = fr" using f by (auto simp: makeFragments_def compress_def Let_def)
    have "lastMTU fr \<noteq> 0" using False u by simp
    moreover have "if nextID fr = 0 then lastMTU fr = 0
        else lastPayload fr = deflate (Marshal (G (nextID fr))) \<and> lastMTU fr = mtu (nextID fr)"
      using g unfolding genuine_def by blast
    ultimately have nz: "nextID fr \<noteq> 0" and "lastPayload fr = deflate (Marshal (G (nextID fr)))" and lm: "lastMTU fr = mtu (nextID fr)"
      by (simp_all split: if_splits)
    then have "Marshal inst = Marshal (G (nextID fr))" using False deflate_inj [OF z] by metis
    moreover have pos: "0 < nextID fr" using nz by (simp add: word_gt_0)
    moreover have "wf_instruction (G (nextID fr))" by (rule genuine_id [OF g pos order_refl])
    ultimately have "G (nextID fr) = inst" using wf typed_decodes by (metis sum.inject(2))
    moreover from this have "made deflate G mtu (nextID fr) = fs" using fs False lm by (simp add: made_def fr')
    ultimately have "genuine deflate G mtu fr' E' (P \<union> marshal ` set (take m fs))"
      using genuine_resend [OF g pos _ E, of m] m by (simp add: fr')
    then show ?thesis by blast
  qed
qed

section \<open>Reassembly by the server\<close>

text \<open>What a server can make of the payloads it got: whatever it collects, in any order and with duplicates, it
  joins only a complete set of fragments of one id.\<close>

definition reassembles :: "(nat \<Rightarrow> bytes \<Rightarrow> bytes option) \<Rightarrow> bytes set \<Rightarrow> bytes \<Rightarrow> bool" where
  "reassembles inflate P p \<longleftrightarrow>
     (\<exists>fs. fragment_set fs \<and> marshal ` set fs \<subseteq> P \<and> uncompress inflate (concat (map contents fs)) = Inr p)"

lemma fragment_set_nth:
  assumes "fragment_set fs" "fragment_set gs" "set fs \<subseteq> set gs"
  shows "fs = gs"
proof -
  have eq: "i < length gs \<and> fs ! i = gs ! i" if i: "i < length fs" for i
  proof -
    have "fs ! i \<in> set gs" using assms(3) i by auto
    then obtain j where j: "j < length gs" "fs ! i = gs ! j" by (metis in_set_conv_nth)
    moreover have "unat (fragNum (fs ! i)) = i" "unat (fragNum (gs ! j)) = j"
      using assms(1,2) i j(1) by (auto simp: fragment_set_def)
    ultimately have "i = j" by simp
    then show ?thesis using j by simp
  qed
  let ?i = "length fs - 1"
  have i: "?i < length fs" using assms(1) by (simp add: fragment_set_def)
  then have "final (fs ! ?i)" using assms(1) by (simp add: fragment_set_def)
  then have "?i + 1 = length gs" using eq [OF i] assms(2) by (auto simp: fragment_set_def)
  then have "length fs = length gs" using i by simp
  then show ?thesis using eq by (simp add: list_eq_iff_nth_eq)
qed

lemma genuine_reassembles:
  assumes g: "genuine deflate G mtu fr E P" and z: "zlib deflate inflate" and r: "reassembles inflate P p"
  shows "\<exists>inst \<in> E. p = Marshal inst \<and> UnmarshalInstruction p = Inr inst"
proof -
  obtain fs where fs: "fragment_set fs" "marshal ` set fs \<subseteq> P" "uncompress inflate (concat (map contents fs)) = Inr p"
    using r by (auto simp: reassembles_def)
  define fid where "fid = fragId (last fs)"
  have f: "0 < fid \<and> fid \<le> nextID fr \<and> f \<in> set (made deflate G mtu fid)" if f: "f \<in> set fs" for f
  proof -
    have same: "fragId f = fid" using fs(1) f last_set [OF fs(1)] unfolding fragment_set_def fid_def by blast
    have "marshal f \<in> P" using fs(2) f by blast
    from genuine_made [OF g fragment_set_valid [OF fs(1) f] this] show ?thesis unfolding same by blast
  qed
  have id: "0 < fid" "fid \<le> nextID fr" using f [OF last_set [OF fs(1)]] by simp_all
  have "set fs \<subseteq> set (made deflate G mtu fid)" using f by blast
  then have eq: "fs = made deflate G mtu fid" by (rule fragment_set_nth [OF fs(1) genuine_id(2) [OF g id]])
  then have "concat (map contents fs) = deflate (Marshal (G fid))"
    by (simp add: made_def contents_fragments_of concat_chunks)
  then have p: "p = Marshal (G fid)" using uncompress_deflate [OF z] fs(3) by simp
  have "marshal (last (made deflate G mtu fid)) \<in> P" using fs(2) last_set [OF fs(1)] eq by auto
  then have "G fid \<in> E" using genuine_id(3) [OF g id] by blast
  then show ?thesis using p typed_decodes [OF genuine_id(1) [OF g id]] by blast
qed

text \<open>The assembly of \<^verbatim>\<open>fragment.go\<close>, on the server's side of the protocol, is such a server: over genuine fragments it
  delivers nothing else.\<close>

definition collecting :: "(u64 \<Rightarrow> fragment list) \<Rightarrow> bytes set \<Rightarrow> assembly \<Rightarrow> bool" where
  "collecting F P a \<longleftrightarrow>
     haveID a \<longrightarrow> (\<exists>X. fragment_set (F (currentID a)) \<and> (\<forall>f \<in> set (F (currentID a)). fragId f = currentID a) \<and>
       partial (F (currentID a)) X a \<and> X \<subseteq> {..<length (F (currentID a))} \<and>
       (\<forall>i \<in> X. marshal (F (currentID a) ! i) \<in> P))"

definition belongs :: "(u64 \<Rightarrow> fragment list) \<Rightarrow> bytes set \<Rightarrow> fragment \<Rightarrow> bool" where
  "belongs F P f \<longleftrightarrow>
     fragment_set (F (fragId f)) \<and> f \<in> set (F (fragId f)) \<and> (\<forall>g \<in> set (F (fragId f)). fragId g = fragId f) \<and> marshal f \<in> P"

lemma store_collects:
  assumes c: "collecting F P a" and f: "belongs F P f"
  shows "\<exists>Y. partial (F (fragId f)) Y (pin (store a f) f) \<and> Y \<subseteq> {..<length (F (fragId f))} \<and> (\<forall>j \<in> Y. marshal (F (fragId f) ! j) \<in> P)"
proof -
  let ?fs = "F (fragId f)"
  have F: "fragment_set ?fs" "f \<in> set ?fs" "marshal f \<in> P" using f unfolding belongs_def by blast+
  obtain i where i: "i < length ?fs" "?fs ! i = f" using F(2) by (metis in_set_conv_nth)
  show ?thesis
  proof (cases "haveID a \<and> currentID a = fragId f")
    case True
    then have "\<exists>X. partial ?fs X a \<and> X \<subseteq> {..<length ?fs} \<and> (\<forall>j \<in> X. marshal (?fs ! j) \<in> P)"
      using c unfolding collecting_def by metis
    then obtain X where X: "partial ?fs X a" "X \<subseteq> {..<length ?fs}" "\<forall>j \<in> X. marshal (?fs ! j) \<in> P" by blast
    have "partial ?fs (insert i X) (pin (store a f) f)" using store_next [OF F(1) i(1) X(1)] unfolding i(2) .
    then show ?thesis using X i F(3) by (intro exI [of _ "insert i X"]) simp
  next
    case False
    then have "\<not> haveID a \<or> currentID a \<noteq> fragId (?fs ! i)" unfolding i(2) by blast
    from store_first [OF F(1) i(1) this] have "partial ?fs {i} (pin (store a f) f)" unfolding i(2) .
    then show ?thesis using i F(3) by (intro exI [of _ "{i}"]) simp
  qed
qed

lemma add_collects:
  assumes c: "collecting F P a" and f: "belongs F P f" and add: "add inflate a f = (a', r)"
  shows "collecting F P a'" "r = Inr (Some p) \<Longrightarrow> reassembles inflate P p"
proof -
  let ?fs = "F (fragId f)"
  have F: "fragment_set ?fs" "f \<in> set ?fs" "\<forall>g \<in> set ?fs. fragId g = fragId f" using f unfolding belongs_def by blast+
  obtain Y where Y: "partial ?fs Y (pin (store a f) f)" "Y \<subseteq> {..<length ?fs}" "\<forall>j \<in> Y. marshal (?fs ! j) \<in> P"
    using store_collects [OF c f] by blast
  note res = add_result [OF F(1) Y(1), of inflate]
  have "collecting F P a' \<and> (r = Inr (Some p) \<longrightarrow> reassembles inflate P p)"
  proof (cases "Y = {..<length ?fs}")
    case True
    have P: "marshal ` set ?fs \<subseteq> P"
    proof
      fix b
      assume "b \<in> marshal ` set ?fs"
      then obtain j where "j < length ?fs" "b = marshal (?fs ! j)" by (metis imageE in_set_conv_nth)
      then show "b \<in> P" using Y(3) True by blast
    qed
    have a': "a' = (pin (store a f) f)\<lparr>haveID := False\<rparr>" and r: "r = map_sum id Some (uncompress inflate (concat (map contents ?fs)))"
      using res add True by simp_all
    have "collecting F P a'" by (simp add: a' collecting_def)
    moreover have "reassembles inflate P p" if "r = Inr (Some p)"
      using F(1) P that unfolding r map_sum_eq reassembles_def by blast
    ultimately show ?thesis by blast
  next
    case False
    then have a': "a' = pin (store a f) f" "r = Inr None" using res add by simp_all
    have "currentID a' = fragId f" using Y(1) F(2,3) unfolding a' partial_def by metis
    then show ?thesis using Y F(1,3) a' unfolding collecting_def by auto
  qed
  then show "collecting F P a'" "r = Inr (Some p) \<Longrightarrow> reassembles inflate P p" by blast+
qed

lemma adds_collects:
  assumes "collecting F P a" "adds inflate a fs = (a', rs)" "list_all (belongs F P) fs" "Inr (Some p) \<in> set rs"
  shows "reassembles inflate P p"
  using assms
proof (induction fs arbitrary: a rs)
  case (Cons f fs)
  obtain a1 r where r: "add inflate a f = (a1, r)" by fastforce
  obtain rs' where rs: "adds inflate a1 fs = (a', rs')" "rs = r # rs'" using Cons.prems(2) r by (auto simp: Let_def split: prod.splits)
  have b: "belongs F P f" "list_all (belongs F P) fs" using Cons.prems(3) by simp_all
  show ?case
  proof (cases "r = Inr (Some p)")
    case True
    then show ?thesis by (rule add_collects(2) [OF Cons.prems(1) b(1) r])
  next
    case False
    then have "Inr (Some p) \<in> set rs'" using Cons.prems(4) rs(2) by auto
    then show ?thesis by (rule Cons.IH [OF add_collects(1) [OF Cons.prems(1) b(1) r] rs(1) b(2)])
  qed
qed simp

lemma genuine_assembly:
  assumes g: "genuine deflate G mtu fr E P" and fs: "\<forall>f \<in> set fs. valid_fragment f \<and> marshal f \<in> P"
    and p: "Inr (Some p) \<in> set (snd (adds inflate zeroAssembly fs))"
  shows "reassembles inflate P p"
proof (rule adds_collects)
  show "collecting (made deflate G mtu) P zeroAssembly" by (simp add: collecting_def zeroAssembly_def)
  show "adds inflate zeroAssembly fs = (fst (adds inflate zeroAssembly fs), snd (adds inflate zeroAssembly fs))" by simp
  have "belongs (made deflate G mtu) P f" if "f \<in> set fs" for f
  proof -
    have f: "valid_fragment f" "marshal f \<in> P" using fs that by simp_all
    note m = genuine_made [OF g f]
    show ?thesis using m(3) f(2) genuine_id(2) [OF g m(1,2)] fragId_made unfolding belongs_def by blast
  qed
  then show "list_all (belongs (made deflate G mtu) P) fs" by (simp add: list_all_iff)
qed (fact p)

section \<open>The system of payloads\<close>

text \<open>The client, its connection and the payloads that went out; the server learns an instruction when it can
  reassemble and parse it. Fragment ids do not run out, and an instruction has at most \<open>2 ^ 15\<close> fragments, as many as
  the header can number.\<close>

definition fragment_room :: "fragmenter \<Rightarrow> fragmenter \<Rightarrow> bool" where
  "fragment_room fr fr' \<longleftrightarrow>
     fr' = fr \<or> nextID fr \<noteq> NOT 0 \<and> int (length (lastPayload fr')) < 2 ^ 15 * (lastMTU fr' - 10)"

inductive wire_step ::
  "'c senderConn \<Rightarrow> (bytes \<Rightarrow> bytes) \<Rightarrow> (nat \<Rightarrow> bytes \<Rightarrow> bytes option) \<Rightarrow>
   ((u64 \<Rightarrow> UserEvent list option) \<Rightarrow> Instruction \<Rightarrow> (u64 \<Rightarrow> UserEvent list option)) \<Rightarrow>
   sys \<times> 'c \<times> bytes set \<Rightarrow> sys \<times> 'c \<times> bytes set \<Rightarrow> bool"
  for k deflate inflate recv where
  keys: "length (typed y) + length b < 2 ^ 56 \<Longrightarrow>
    wire_step k deflate inflate recv (y, w, P)
      (y\<lparr>client := (client y)\<lparr>currentState := PushKeys (State (client y)) b\<rparr>, typed := typed y @ keyEvents b\<rparr>, w, P)"
| resize: "length (typed y) + 1 < 2 ^ 56 \<Longrightarrow> go_int width \<Longrightarrow> go_int height \<Longrightarrow>
    wire_step k deflate inflate recv (y, w, P)
      (y\<lparr>client := (client y)\<lparr>currentState := PushResize (State (client y)) width height\<rparr>,
         typed := typed y @ [resizeEvent width height]\<rparr>, w, P)"
| tick: "Tick (recording k) deflate (client y) (w, P) = Some (s', err, w', P') \<Longrightarrow>
    shutdownInProgress (client y) \<or> stateNum (last (sentStates (client y))) < ShutdownNum - 1 \<Longrightarrow>
    fragment_room (fragr (client y)) (fragr s') \<Longrightarrow>
    wire_step k deflate inflate recv (y, w, P) (y\<lparr>client := s'\<rparr>, w', P')"
| wait: "wire_step k deflate inflate recv (y, w, P) (y\<lparr>client := fst (WaitTime k (client y) now w)\<rparr>, w, P)"
| acked: "wire_step k deflate inflate recv (y, w, P) (y\<lparr>client := ProcessAcknowledgmentThrough (client y) n\<rparr>, w, P)"
| acknum: "wire_step k deflate inflate recv (y, w, P) (y\<lparr>client := SetAckNum (client y) n\<rparr>, w, P)"
| dataack: "wire_step k deflate inflate recv (y, w, P) (y\<lparr>client := SetDataAck (client y)\<rparr>, w, P)"
| shutdown: "StartShutdown k (client y) w = (s', w') \<Longrightarrow> wire_step k deflate inflate recv (y, w, P) (y\<lparr>client := s'\<rparr>, w', P)"
| receive: "wire_step k deflate inflate recv (y, w, P) (y, w', P)"
| deliver: "reassembles inflate P p \<Longrightarrow> UnmarshalInstruction p = Inr inst \<Longrightarrow>
    wire_step k deflate inflate recv (y, w, P) (y\<lparr>held := recv (held y) inst\<rparr>, w, P)"
| forget: "n \<noteq> ShutdownNum \<Longrightarrow> wire_step k deflate inflate recv (y, w, P) (y\<lparr>held := (held y)(n := None)\<rparr>, w, P)"

definition wire_inv :: "(bytes \<Rightarrow> bytes) \<Rightarrow> sys \<times> 'c \<times> bytes set \<Rightarrow> bool" where
  "wire_inv deflate x \<longleftrightarrow>
     sync_inv (fst x) \<and>
     (\<exists>G mtu. genuine deflate G mtu (fragr (client (fst x))) (set (emitted (client (fst x)))) (snd (snd x)))"

lemma Tick_genuine:
  assumes t: "Tick (recording k) deflate s (w, P) = Some (s', err, w', P')" and c: "core s H gone M" and k: "sender_conn k"
    and z: "zlib deflate inflate" and room: "fragment_room (fragr s) (fragr s')"
    and g: "genuine deflate G mtu (fragr s) (set (emitted s)) P"
  shows "\<exists>G' mtu'. genuine deflate G' mtu' (fragr s') (set (emitted s')) P'"
proof -
  obtain now w1 where "connNow k w = (now, w1)" by fastforce
  then have n: "connNow (recording k) (w, P) = (now, (w1, P))" by simp
  from Tick_once [OF t n] show ?thesis
  proof (elim disjE exE conjE)
    assume "fragr s' = fragr s" "emitted s' = emitted s" "(w', P') = (w1, P)"
    then show ?thesis using g by auto
  next
    fix diff e
    assume d: "diff = DiffFrom (currentState (calculateTimers (recording k) s now (w1, P))) e"
      and o: "sent_once (recording k) deflate s (w1, P) s' err (w', P') diff"
    obtain v n s2 where 2: "sendInFragments (recording k) deflate v diff n (w1, P) = Some (s2, err, w', P')" "fragr v = fragr s"
      "emitted v = emitted s" "fragr s' = fragr s2" "emitted s' = emitted s2"
      using o by (auto simp: sent_once_def)
    obtain chaff x t0 x2 u fs where q: "makeChaff (recording k) (w1, P) = (chaff, x)" "connNow (recording k) x = (t0, x2)"
      "length chaff \<le> 16" "10 < u"
      "makeFragments deflate (fragr v) (Marshal (mkInstruction v diff n chaff)) u = (fragr s2, Some fs)"
      "sendFragments (recording k) (t0 + maxSendBurst) fs x2 = (err, (w', P'))"
      "emitted s2 = emitted v @ (if err = None then [mkInstruction v diff n chaff] else [])"
      by (rule sendInFragments_out [OF 2(1) recording_conn [OF k]])
    obtain w2 where x2: "x2 = (w2, P)"
      using q(1,2) by (auto simp: recording_makeChaff Let_def split: prod.splits)
    obtain m where m: "P' = P \<union> marshal ` set (take m fs)" "err \<noteq> None \<longrightarrow> m < length fs"
      using recording_sendFragments [OF q(6) [unfolded x2]] by blast
    let ?i = "mkInstruction v diff n chaff"
    obtain evs where "length diff < 2 ^ 64" "UnmarshalUserMessage diff = Inr evs"
      using DiffFrom_typed [OF timers_wf [OF c, of "recording k" now "(w1, P)"], of e] unfolding d [symmetric] by blast
    then have wf: "wf_instruction ?i" using mkInstruction_typed q(3) by (auto simp: typed_instruction_def)
    have set: "fragment_set fs \<and> nextID (fragr s) \<noteq> NOT 0" if "fragr s2 \<noteq> fragr s"
    proof -
      have "lastPayload (fragr s2) = deflate (Marshal ?i)" "lastMTU (fragr s2) = u"
        using makeFragments_new [OF q(5)] that 2(2) by simp_all
      then show ?thesis
        using room that 2(4) fragment_set_made [OF q(4) _ q(5)] by (auto simp: fragment_room_def)
    qed
    have "\<exists>G' mtu'. genuine deflate G' mtu' (fragr s2) (set (emitted s2)) (P \<union> marshal ` set (take m fs))"
      by (rule genuine_send [OF g z wf q(4) q(5) [unfolded 2(2)]]) (use set m(2) q(7) 2(3) in auto)
    then show ?thesis using m(1) 2 by simp
  qed
qed

lemma wire_step_sys:
  assumes "wire_step k deflate inflate recv x x'" "wire_inv deflate x" "sender_conn k" "zlib deflate inflate"
  shows "sys_step k deflate recv (fst x) (fst x') \<or> fst x' = fst x"
  using assms(1)
proof cases
  case (tick y w P s' err w' P')
  then have "Tick k deflate (client y) w = Some (s', err, w')" using recording_Tick [OF assms(3), of deflate "client y" w P] by simp
  then show ?thesis using tick sys_step.sender [OF sender_step.tick] by fastforce
next
  case (deliver P p inst y w)
  then obtain G mtu where "genuine deflate G mtu (fragr (client y)) (set (emitted (client y))) P"
    using assms(2) by (auto simp: wire_inv_def)
  then have "inst \<in> set (emitted (client y))" using genuine_reassembles [OF _ assms(4) deliver(3)] deliver(4) by fastforce
  then show ?thesis using deliver sys_step.deliver by fastforce
next
  case (shutdown y w s' w' P)
  then have "s' = fst (StartShutdown k (client y) w)" by simp
  then show ?thesis using shutdown sys_step.sender [OF sender_step.shutdown [of k deflate "client y" w]] by auto
qed (auto intro: sys_step.intros sender_step.intros)

lemma wire_step_genuine:
  assumes "wire_step k deflate inflate recv x x'" "wire_inv deflate x" "sender_conn k" "zlib deflate inflate"
  shows "\<exists>G mtu. genuine deflate G mtu (fragr (client (fst x'))) (set (emitted (client (fst x')))) (snd (snd x'))"
proof -
  obtain G mtu gone M where g: "genuine deflate G mtu (fragr (client (fst x))) (set (emitted (client (fst x)))) (snd (snd x))"
    and c: "core (client (fst x)) (typed (fst x)) gone M"
    using assms(2) by (auto simp: wire_inv_def sync_inv_def)
  show ?thesis
    using assms(1)
  proof cases
    case (tick y w P s' err w' P')
    then show ?thesis using Tick_genuine [OF tick(3) _ assms(3,4) tick(5)] g c by simp
  next
    case (shutdown y w s' w' P)
    then have "emitted s' = emitted (client y)" "fragr s' = fragr (client y)" by (metis fst_conv emitted_timers_misc(9,10))+
    then show ?thesis using g shutdown(1,2) by auto
  qed (use g in auto)
qed

lemma wire_run_sys:
  assumes "(wire_step k deflate inflate recv)\<^sup>*\<^sup>* (initSys k w, w, {}) x" "mosh_receiver recv" "sender_conn k" "zlib deflate inflate"
  shows "(sys_step k deflate recv)\<^sup>*\<^sup>* (initSys k w) (fst x) \<and> wire_inv deflate x"
  using assms(1)
proof (induction rule: rtranclp_induct)
  case base
  have "genuine deflate (\<lambda>_. undefined) (\<lambda>_. 0) zeroFragmenter {} {}"
    by (simp add: genuine_def zeroFragmenter_def)
  moreover have "fragr (client (initSys k w)) = zeroFragmenter" "emitted (client (initSys k w)) = []"
    by (simp_all add: initSys_def newSender_def split: prod.splits)
  ultimately show ?case using sync_inv_init [of k w] by (auto simp: wire_inv_def)
next
  case (step x x')
  then have "(sys_step k deflate recv)\<^sup>*\<^sup>* (initSys k w) (fst x')"
    using wire_step_sys [OF step(2) _ assms(3,4)] by (metis rtranclp.rtrancl_into_rtrancl)
  moreover note sync_inv_run [OF this assms(2) sync_inv_init]
  moreover have "\<exists>G mtu. genuine deflate G mtu (fragr (client (fst x'))) (set (emitted (client (fst x')))) (snd (snd x'))"
    using wire_step_genuine [OF step(2) _ assms(3,4)] step(3) by blast
  ultimately show ?case by (simp add: wire_inv_def)
qed

section \<open>Claims\<close>

text \<open>What a burst that is not cut short by its deadline leaves with the server.\<close>

lemma burst_reassembles:
  assumes "fragment_set fs" "makeFragments deflate fr inst u = (fr', Some fs)" "10 < u" "zlib deflate inflate"
    "length inst \<le> maxUncompressed"
  shows "reassembles inflate (P \<union> marshal ` set fs) inst"
proof -
  have "concat (map contents fs) = deflate inst"
    using makeFragments_spec [OF assms(3,2)] by (simp add: contents_fragments_of concat_chunks)
  then have "uncompress inflate (concat (map contents fs)) = Inr inst"
    using assms(4,5) by (simp add: uncompress_def zlib_def)
  then show ?thesis using assms(1) by (auto simp: reassembles_def)
qed

lemma Marshal_size: "length (Marshal inst) \<le> length (Diff inst) + length (Chaff inst) + 140"
  unfolding Marshal_fields length_append
  using length_appendUint64Field_bound [of 1 "ucast (ProtocolVersion inst)"] length_appendUint64Field_bound [of 2 "OldNum inst"]
    length_appendUint64Field_bound [of 3 "NewNum inst"] length_appendUint64Field_bound [of 4 "AckNum inst"]
    length_appendUint64Field_bound [of 5 "ThrowawayNum inst"] length_appendBytesField_bound [of 6 "Diff inst"]
    length_appendBytesField_bound [of 7 "Chaff inst"]
  by linarith

lemma steady_burst:
  assumes "\<not> dl < w"
  shows "sendFragments (recording steadyConn) dl fs (w, P) = (None, (w, P \<union> marshal ` set fs))"
  using assms by (induction fs arbitrary: P) (simp_all add: steadyConn_def)

text \<open>One keystroke in the system of payloads.\<close>

lemma example_wire_run:
  "\<exists>y w P. (wire_step steadyConn (\<lambda>b. b) (\<lambda>n b. Some (take n b)) plainReceiver)\<^sup>*\<^sup>* (initSys steadyConn 0, 0, {}) (y, w, P) \<and>
     typed y = keyEvents [0x6C] \<and> held y 1 = Some (keyEvents [0x6C])"
proof -
  let ?inf = "\<lambda>n b. Some (take n b)"
  let ?R = "wire_step steadyConn (\<lambda>b. b) ?inf plainReceiver"
  have z: "zlib (\<lambda>b. b) ?inf" by (simp add: zlib_def)
  define y1 where "y1 = \<lparr>client = sampleTyped, typed = keyEvents [0x6C], held = [0 \<mapsto> []]\<rparr>"
  obtain s3 err w3 inst where t: "Tick steadyConn (\<lambda>b. b) sampleNoticed (2 * second) = Some (s3, err, w3)" and
    inst: "emitted s3 = [inst]" "OldNum inst = 0" "NewNum inst = 1" "Diff inst = DiffFrom (PushKeys emptyStream [0x6C]) emptyStream"
    by (rule sample_tick)
  obtain P3 where t': "Tick (recording steadyConn) (\<lambda>b. b) sampleNoticed (2 * second, {}) = Some (s3, err, w3, P3)"
    using forgetful_cases [OF recording_Tick [OF steady_conn(1), of "\<lambda>b. b" sampleNoticed "2 * second" "{}", unfolded t]] t by fastforce
  have n: "connNow (recording steadyConn) (2 * second, {}) = (2 * second, (2 * second, {}))" by (simp add: steadyConn_def)
  obtain diff where "sent_once (recording steadyConn) (\<lambda>b. b) sampleNoticed (2 * second, {}) s3 err (w3, P3) diff"
    using Tick_once [OF t' n] inst(1) sample_noticed(3) by auto
  then obtain v m s4 where 4: "sendInFragments (recording steadyConn) (\<lambda>b. b) v diff m (2 * second, {}) = Some (s4, err, w3, P3)"
    "fragr v = zeroFragmenter" "emitted v = []" "fragr s3 = fragr s4" "emitted s4 = [inst]"
    using inst(1) sample_noticed(3,4) by (auto simp: sent_once_def)
  obtain chaff x t0 x2 u fs where q: "makeChaff (recording steadyConn) (2 * second, {}) = (chaff, x)" "connNow (recording steadyConn) x = (t0, x2)"
    "length chaff \<le> 16" "10 < u" "u = connMTU (recording steadyConn) x2"
    "makeFragments (\<lambda>b. b) (fragr v) (Marshal (mkInstruction v diff m chaff)) u = (fragr s4, Some fs)"
    "sendFragments (recording steadyConn) (t0 + maxSendBurst) fs x2 = (err, (w3, P3))"
    "emitted s4 = emitted v @ (if err = None then [mkInstruction v diff m chaff] else [])"
    by (rule sendInFragments_out [OF 4(1) recording_conn [OF steady_conn(1)]])
  have i: "inst = mkInstruction v diff m chaff" using q(8) 4(3,5) by (simp split: if_splits)
  have x: "x2 = (t0, {})" using q(1,2) by (auto simp: makeChaff_def steadyConn_def)
  then have P3: "P3 = marshal ` set fs" using q(7) steady_burst [of "t0 + maxSendBurst" t0 fs "{}"] by (simp add: maxSendBurst_def go_time)
  have u: "u = 472" using q(5) x by (simp add: steadyConn_def)
  have "length (Diff inst) \<le> 81"
    using length_MarshalUserMessage_bound [of "[zeroUserEvent\<lparr>Keys := [0x6C]\<rparr>]"]
    by (simp add: inst(4) DiffFrom_def emptyStream_def zeroUserEvent_def)
  then have len: "length (Marshal inst) \<le> 237" using Marshal_size [of inst] q(3) i by (simp add: mkInstruction_def)
  have f: "makeFragments (\<lambda>b. b) zeroFragmenter (Marshal inst) 472 = (fragr s4, Some fs)" using q(6) 4(2) i u by simp
  have set: "fragment_set fs" by (rule fragment_set_made [OF _ _ f]) (use len in simp_all)
  have re: "reassembles ?inf P3 (Marshal inst)"
    using burst_reassembles [OF set f _ z, of "{}"] len P3 by (simp add: maxUncompressed_def)
  have room: "fragment_room (fragr sampleNoticed) (fragr s3)"
  proof (cases "fragr s4 = zeroFragmenter")
    case False
    have "nextID (fragr sampleNoticed) \<noteq> NOT 0" by (simp add: sample_noticed(4) zeroFragmenter_def)
    then show ?thesis using makeFragments_new [OF f False] len 4(4) by (simp add: fragment_room_def)
  qed (simp add: fragment_room_def 4(4) sample_noticed(4))
  have "wf_instruction inst" using len Marshal_size [of inst] q(3) \<open>length (Diff inst) \<le> 81\<close> i by (simp add: wf_instruction_def mkInstruction_def)
  note un = typed_decodes [OF this]
  have 1: "?R (initSys steadyConn 0, 0, {}) (y1, 0, {})"
    using wire_step.keys [of "initSys steadyConn 0" "[0x6C]" steadyConn "\<lambda>b. b" ?inf plainReceiver 0 "{}"]
    by (simp add: initSys_def y1_def sampleTyped_def State_def) (simp add: newSender_def steadyConn_def)
  have 2: "?R (y1, 0, {}) (y1\<lparr>client := sampleNoticed\<rparr>, 0, {})"
    using wire_step.wait [of steadyConn "\<lambda>b. b" ?inf plainReceiver y1 0 "{}" 0] by (simp add: sampleNoticed_def WaitTime_def Let_def y1_def)
  have 3: "?R (y1\<lparr>client := sampleNoticed\<rparr>, 0, {}) (y1\<lparr>client := sampleNoticed\<rparr>, 2 * second, {})" by (rule wire_step.receive)
  let ?y3 = "y1\<lparr>client := s3\<rparr>"
  have 4: "?R (y1\<lparr>client := sampleNoticed\<rparr>, 2 * second, {}) (?y3, w3, P3)"
    using wire_step.tick [of steadyConn "\<lambda>b. b" "y1\<lparr>client := sampleNoticed\<rparr>" "2 * second" "{}" s3 err w3 P3 ?inf plainReceiver]
      t' room sample_noticed(5,6) by simp
  have 5: "?R (?y3, w3, P3) (?y3\<lparr>held := plainReceiver (held ?y3) inst\<rparr>, w3, P3)" by (rule wire_step.deliver [OF re un])
  have "held (?y3\<lparr>held := plainReceiver (held ?y3) inst\<rparr>) 1 = Some (keyEvents [0x6C])"
    using sample_diff [OF inst(4,2,3)] by (simp add: y1_def)
  moreover have "?R\<^sup>*\<^sup>* (initSys steadyConn 0, 0, {}) (?y3\<lparr>held := plainReceiver (held ?y3) inst\<rparr>, w3, P3)"
    using 1 2 3 4 5 by (meson converse_rtranclp_into_rtranclp rtranclp.rtrancl_refl)
  ultimately show ?thesis by (intro exI conjI) (assumption | simp add: y1_def)+
qed

text \<open>C5: From payloads to instructions. Whatever fragments reach a server, in any order, repeated and mixed, out of
  bursts cut short by their deadline or by errors: all it can reassemble is an instruction the client counts
  as sent, which decodes to itself, and the
  assembly of the source, on the side of the server, delivers nothing else. So a run of the client with a server that gets fragments is a run
  with one that gets instructions, and each state the server holds is a prefix of what the user did.\<close>

theorem payloads_refine_instructions:
  assumes "sender_conn k" "zlib deflate inflate" "mosh_receiver recv"
    and "(wire_step k deflate inflate recv)\<^sup>*\<^sup>* (initSys k w, w, {}) (y, w', P)"
  shows "(sys_step k deflate recv)\<^sup>*\<^sup>* (initSys k w) y \<and>
    (\<forall>p. reassembles inflate P p \<longrightarrow> (\<exists>inst \<in> set (emitted (client y)). p = Marshal inst \<and> UnmarshalInstruction p = Inr inst)) \<and>
    (\<forall>fs p. (\<forall>f \<in> set fs. valid_fragment f \<and> marshal f \<in> P) \<longrightarrow> Inr (Some p) \<in> set (snd (adds inflate zeroAssembly fs)) \<longrightarrow>
       reassembles inflate P p) \<and>
    (\<forall>n X. held y n = Some X \<longrightarrow> prefix X (typed y))"
proof -
  have run: "(sys_step k deflate recv)\<^sup>*\<^sup>* (initSys k w) y" and inv: "wire_inv deflate (y, w', P)"
    using wire_run_sys [OF assms(4,3,1,2)] by simp_all
  obtain G mtu where g: "genuine deflate G mtu (fragr (client y)) (set (emitted (client y))) P"
    using inv by (auto simp: wire_inv_def)
  then have "reassembles inflate P p \<Longrightarrow> \<exists>inst \<in> set (emitted (client y)). p = Marshal inst \<and> UnmarshalInstruction p = Inr inst" for p
    using genuine_reassembles [OF _ assms(2)] by blast
  moreover have "held y n = Some X \<Longrightarrow> prefix X (typed y)" for n X
    using inv by (auto simp: wire_inv_def sync_inv_def held_ok_def)
  ultimately show ?thesis using run genuine_assembly [OF g] by blast
qed

lemma payloads_refine_instructions_witness:
  "\<exists>y w P. (wire_step steadyConn (\<lambda>b. b) (\<lambda>n b. Some (take n b)) plainReceiver)\<^sup>*\<^sup>* (initSys steadyConn 0, 0, {}) (y, w, P) \<and>
     held y 1 = Some (keyEvents [0x6C]) \<and> prefix (keyEvents [0x6C]) (typed y)"
proof -
  have "zlib (\<lambda>b. b) (\<lambda>n b. Some (take n b))" by (simp add: zlib_def)
  then show ?thesis using payloads_refine_instructions [OF steady_conn(1) _ plainReceiver_ok] example_wire_run by blast
qed

end
