(* ===== verification/Spec2Isabelle.thy ===== *)
theory Spec2Isabelle
  imports Process Online Delivery
begin

text \<open>
  A verification of \<^bold>\<open>gosh\<close>, a mosh client in Go (module \<^verbatim>\<open>github.com/goodtune/gosh\<close>; the paths below are
  under \<^verbatim>\<open>src/\<close>).

  \<^bold>\<open>The program.\<close> \<^verbatim>\<open>gosh [user@]host\<close> starts \<^verbatim>\<open>mosh-server\<close> over ssh (\<^verbatim>\<open>internal/bootstrap\<close>), reads the UDP
  port and the session key from its MOSH CONNECT line, and attaches the terminal to it
  (\<^verbatim>\<open>internal/client\<close>). A session keeps two states in step: the user's stream of keystrokes and window
  sizes, which the client owns and the server follows, and the screen, which the server owns and
  the client renders. The client's loop pushes input into the stream; the sender
  (\<^verbatim>\<open>internal/transport/sender.go\<close>) sends differences of the stream against a state it believes the server
  holds, as an instruction (\<^verbatim>\<open>internal/wire\<close>) that is compressed and cut into fragments
  (\<^verbatim>\<open>fragment.go\<close>), each of which the connection (\<^verbatim>\<open>internal/network\<close>) seals (\<^verbatim>\<open>internal/crypto\<close>,
  \<^verbatim>\<open>internal/ocb\<close>) into one datagram. What arrives goes the same way back; the bytes of the screen pass
  the clipboard filter (\<^verbatim>\<open>internal/osc52\<close>) before they reach the terminal.

  \<^bold>\<open>The theories\<close>, each with the file it models; definitions have the names of the source.
  \<^item> \<open>Gosh_Prelude\<close>: machine integers, bytes, durations, the errors, generic lemmas, the codec contract
    (locale \<open>codec\<close> and its extension \<open>canonical_codec\<close>).
  \<^item> \<open>Wire\<close> (\<^verbatim>\<open>wire.go\<close>): varints, the field walker, the three messages; round trips in the presence of unknown
    fields.
  \<^item> \<open>User_Stream\<close> (\<^verbatim>\<open>userstream.go\<close>): the stream and its differences; a difference against any earlier state
    brings a receiver of that state up to date.
  \<^item> \<open>Osc52\<close> (\<^verbatim>\<open>osc52.go\<close>): the filter automaton; streaming, bounded memory, what each policy lets through, and
    the sequences that get past it.
  \<^item> \<open>Fragment\<close> (\<^verbatim>\<open>fragment.go\<close>): fragmenter and reassembly; any order, duplicates and interleaving.
  \<^item> \<open>Aes\<close>, \<open>Ocb\<close> (\<^verbatim>\<open>ocb.go\<close>), \<open>Session_Crypto\<close> (\<^verbatim>\<open>session.go\<close>): AES-128 as FIPS 197 has it, OCB with its
    offsets and tags, the key codec, sealed datagrams; \<open>Open\<close> and \<open>Seal\<close> are inverse to each other.
  \<^item> \<open>Float64\<close>, \<open>Packet\<close> (\<^verbatim>\<open>packet.go\<close>), \<open>Connection\<close> (\<^verbatim>\<open>connection.go\<close>): nonces, replay protection, the
    round-trip estimator, port hopping; the critical sections of the two goroutines interleave in
    \<open>conn_step\<close>, and the safety claims are invariants of its runs.
  \<^item> \<open>Sender\<close> (\<^verbatim>\<open>sender.go\<close>) over the interface \<open>senderConn\<close> of the source, \<open>Net_Conn\<close>: its instantiation by the
    connection, with retransmission.
  \<^item> \<open>Sync\<close>: the sender against a mosh server behind a network that loses, reorders and repeats; the
    server's states are prefixes of what the user did.
  \<^item> \<open>Transport\<close> (\<^verbatim>\<open>transport.go\<close>): receiving, rendering and acknowledging.
  \<^item> \<open>Client\<close> (\<^verbatim>\<open>client.go\<close>): the session, its loop and the whole program against the server.
  \<^item> \<open>Emission\<close>: every tick sends one instruction or none, and each has the type the wire format and the server
    expect. \<open>Delivery\<close>: the system of \<open>Sync\<close> on the payloads of datagrams: whatever fragments arrive, what a server can
    reassemble is an instruction that was sent.
  \<^item> \<open>Recovery\<close>: the sender against a server that keeps what the protocol obliges it to keep: one
    retransmission brings it up to date, whatever was lost before. \<open>Online\<close>: the same of the whole program, from \<open>New\<close> on.
  \<^item> \<open>Filepath\<close>, \<open>Hostkey\<close> (\<^verbatim>\<open>hostkey.go\<close>), \<open>Bootstrap\<close> (\<^verbatim>\<open>bootstrap.go\<close>): the remote command and its quoting against a
    reference shell, the MOSH CONNECT line, redaction, the policy on host keys.
  \<^item> \<open>Agent\<close> (\<^verbatim>\<open>agent_other.go\<close>, \<^verbatim>\<open>agent_windows.go\<close>, \<^verbatim>\<open>dotvault.go\<close>, the \<^verbatim>\<open>agentpeer\<close> files and \<^verbatim>\<open>AgentAuth\<close>): which ssh
    agents are asked for identities, and the check that the current user runs them.
  \<^item> \<open>Termenv\<close> (\<^verbatim>\<open>internal/termenv\<close>, \<^verbatim>\<open>resize_unix.go\<close>, \<^verbatim>\<open>resize_windows.go\<close>): raw mode and its undoing, the watchers of
    the window size as transition systems.
  \<^item> \<open>Cmd\<close> (\<^verbatim>\<open>cmd/gosh/root.go\<close>): the commands, which join all of the above: the order of the checks, the
    trust in the host, the terminal given back, the key removed from the environment. \<open>Process\<close> (\<^verbatim>\<open>main.go\<close> and the
    version command): the exit status and what is printed, from any command line.

  \<^bold>\<open>State and effects.\<close> A struct is a record, a method a function that returns the new record; errors are
  values. The operating system (sockets, dialer, clock, random source) is a script of answers in
  \<open>Connection.world\<close>: each call takes the next answer and is logged, and theorems quantify over all
  scripts. Runs of the loop are functions of that script and of a list of the events that the
  \<^verbatim>\<open>select\<close> of \<^verbatim>\<open>Run\<close> received.

  \<^bold>\<open>Interfaces.\<close> \<open>codec\<close> and \<open>canonical_codec\<close> (every wire format, and the printed key), \<open>block_cipher\<close> and \<open>ocb_cipher\<close>
  (AES under OCB), \<open>sender_conn\<close> (what the sender relies on of its connection) and \<open>conn_invariant\<close> (what sending
  keeps of it) are locales, each interpreted on the definitions of the component that provides it.

  \<^bold>\<open>Assumptions.\<close> zlib, the verifier of \<^verbatim>\<open>knownhosts\<close>, the ssh client and the terminal library are parameters, with
  what their documentation says where a theorem needs it: what is inflated is what was deflated; ssh
  connects only when the host key callback accepts; restoring a terminal undoes its raw mode. The server
  of \<open>Sync\<close> follows the mosh protocol (\<open>mosh_receiver\<close>): it applies an instruction only to a state it holds
  under the number the instruction names, and keeps the first state it has under a number; in \<open>Delivery\<close> it
  reassembles only complete sets of fragments, as \<^verbatim>\<open>fragment.go\<close> does. Histories
  are shorter than \<open>2 ^ 56\<close> events and state numbers stay below the number reserved for shutdown. An
  instruction whose sending returned an error counts as lost.

  \<^bold>\<open>Bounds.\<close> No operation of the model runs on fuel.
  \<open>Sender.Tick\<close> returns an option, for the fragmenter's loop does not return for an MTU within the
  header, and it is proved to return for the connection's MTU.

  \<^bold>\<open>Not modelled.\<close> The parsing of the command line with \<^verbatim>\<open>cobra\<close>, a parameter of \<open>Process.main\<close> (the defaults of its
  flags are \<open>newRootCmd\<close>); the texts of prompts and errors; the capacities of buffers in
  \<^verbatim>\<open>osc52.go\<close>, which do not change the bytes; the two goroutines of \<^verbatim>\<open>Run\<close> that copy reads into channels and
  the goroutine of a dial that was given up, which appear as the events and answers they produce;
  \<^verbatim>\<open>test/integration\<close>, which is test support.
\<close>

end
